(* ===== verification/Prelude.thy ===== *)
theory Prelude
  imports Main "HOL-Library.Word" "HOL-Library.AList" "HOL-Library.Multiset"
begin

text \<open>
  Shared vocabulary of the development: the machine types of the code, the little-endian
  memory image of its integers (every record is written to flash as the raw bytes of a packed
  struct, on little-endian targets), and the generic lemmas on lists and association lists
  that the component theories use.
\<close>

unbundle bit_operations_syntax

type_synonym u8 = "8 word"
type_synonym u16 = "16 word"
type_synonym u32 = "32 word"
type_synonym u64 = "64 word"
type_synonym bytes = "u8 list"

text \<open>The clock an operation observes: \<open>microStore::time()\<close> in seconds and
  \<open>microStore::millis()\<close> in milliseconds. One reading is taken per operation.\<close>

record clock =
  clk_time :: u32
  clk_millis :: u32

named_theorems codec_simps \<open>round trips and lengths of the byte encodings\<close>
named_theorems frame_simps \<open>fields an operation leaves alone\<close>

section \<open>Little-endian images\<close>

definition le16 :: "u16 \<Rightarrow> bytes" where
  "le16 w = [ucast w, ucast (drop_bit 8 w)]"

definition le32 :: "u32 \<Rightarrow> bytes" where
  "le32 w = [ucast w, ucast (drop_bit 8 w), ucast (drop_bit 16 w), ucast (drop_bit 24 w)]"

fun of_le16 :: "bytes \<Rightarrow> u16" where
  "of_le16 (a # b # _) = ucast a OR push_bit 8 (ucast b)"
| "of_le16 _ = 0"

fun of_le32 :: "bytes \<Rightarrow> u32" where
  "of_le32 (a # b # c # d # _) =
     ucast a OR push_bit 8 (ucast b) OR push_bit 16 (ucast c) OR push_bit 24 (ucast d)"
| "of_le32 _ = 0"

lemma length_le16 [codec_simps, simp]: "length (le16 w) = 2"
  by (simp add: le16_def)

lemma length_le32 [codec_simps, simp]: "length (le32 w) = 4"
  by (simp add: le32_def)

lemma of_le16_le16 [codec_simps, simp]: "of_le16 (le16 w @ r) = w"
  unfolding le16_def
  by (rule bit_word_eqI) (auto simp: bit_simps)

lemma of_le32_le32 [codec_simps, simp]: "of_le32 (le32 w @ r) = w"
proof (rule bit_word_eqI)
  fix n assume "n < LENGTH(32)"
  then consider "n < 8" | "8 \<le> n" "n < 16" | "16 \<le> n" "n < 24" | "24 \<le> n" "n < 32"
    by fastforce
  then show "bit (of_le32 (le32 w @ r)) n = bit w n"
    by cases (auto simp: le32_def bit_simps)
qed

lemma of_le16_le16_Nil [codec_simps, simp]: "of_le16 (le16 w) = w"
  using of_le16_le16 [of w "[]"] by simp

lemma of_le32_le32_Nil [codec_simps, simp]: "of_le32 (le32 w) = w"
  using of_le32_le32 [of w "[]"] by simp

section \<open>Words as numbers\<close>

lemma unat_less_size: "unat (w :: 'a::len word) < 2 ^ LENGTH('a)"
  by (rule unsigned_less)

lemma unat_u8_less [simp]: "unat (w :: u8) < 256"
  using unat_less_size [of w] by simp

lemma unat_u16_less [simp]: "unat (w :: u16) < 65536"
  using unat_less_size [of w] by simp

lemma unat_u32_less: "unat (w :: u32) < 2 ^ 32"
  using unat_less_size [of w] by simp

lemma unat_u64_less: "unat (w :: u64) < 2 ^ 64"
  using unat_less_size [of w] by simp

lemma ucast_of_nat_unat: "(ucast w :: 'b::len word) = of_nat (unat w)"
  by (simp add: word_unat_eq_iff unsigned_ucast_eq unat_of_nat take_bit_eq_mod)

lemma unat_ucast_mod: "unat (ucast w :: 'b::len word) = unat w mod 2 ^ LENGTH('b)"
  by (simp add: unsigned_ucast_eq take_bit_eq_mod)

lemma unat_ucast_u8_u32 [simp]: "unat (ucast (w :: u8) :: u32) = unat w"
  unfolding unat_ucast_mod by (rule mod_less, rule less_trans [OF unat_u8_less]) simp

lemma unat_add_small:
  "unat x + unat y < 2 ^ LENGTH('a) \<Longrightarrow> unat (x + y :: 'a::len word) = unat x + unat y"
  by (simp add: unat_add_lem [symmetric])

lemma unat_mult_small:
  "unat x * unat y < 2 ^ LENGTH('a) \<Longrightarrow> unat (x * y :: 'a::len word) = unat x * unat y"
  by (simp add: unat_mult_lem [symmetric])

section \<open>Lists\<close>

lemma take_drop_append_eq:
  "n = length xs \<Longrightarrow> take n (xs @ ys) = xs \<and> drop n (xs @ ys) = ys"
  by simp

lemma drop_append_length [simp]: "drop (length xs) (xs @ ys) = ys"
  by simp

text \<open>A buffer write that lands exactly at the end of the contents is an append.\<close>

lemma overwrite_at_end:
  "take (length xs) xs @ ys @ drop (length xs + length ys) xs = xs @ ys"
  by simp

section \<open>Association lists\<close>

text \<open>The hash maps of the code are association lists with distinct keys, in the (unspecified)
  iteration order of the container.\<close>

abbreviation distinct_keys :: "('k \<times> 'v) list \<Rightarrow> bool" where
  "distinct_keys al \<equiv> distinct (map fst al)"

lemma map_of_update [simp]: "map_of (AList.update k v al) = (map_of al)(k \<mapsto> v)"
  by (rule AList.update_conv')

lemma map_of_delete [simp]: "map_of (AList.delete k al) = (map_of al)(k := None)"
  by (rule AList.delete_conv')

lemma distinct_keys_update [simp]:
  "distinct_keys al \<Longrightarrow> distinct_keys (AList.update k v al)"
  by (rule AList.distinct_update)

lemma distinct_keys_delete [simp]:
  "distinct_keys al \<Longrightarrow> distinct_keys (AList.delete k al)"
  by (rule AList.distinct_delete)

lemma distinct_keys_filter [simp]:
  "distinct_keys al \<Longrightarrow> distinct_keys (filter P al)"
  by (simp add: distinct_map_filter)

lemma map_of_filter_distinct:
  "distinct_keys al \<Longrightarrow>
   map_of (filter P al) k =
     (case map_of al k of None \<Rightarrow> None | Some v \<Rightarrow> if P (k, v) then Some v else None)"
  by (induction al) (auto simp: map_of_eq_None_iff split: option.splits
      dest: map_of_SomeD intro: rev_image_eqI)

lemma distinct_keys_map_of_iff:
  "distinct_keys al \<Longrightarrow> (k, v) \<in> set al \<longleftrightarrow> map_of al k = Some v"
  by auto

lemma length_update_new:
  "map_of al k = None \<Longrightarrow> length (AList.update k v al) = Suc (length al)"
  by (induction al) (auto split: if_splits)

lemma length_update_old:
  "map_of al k \<noteq> None \<Longrightarrow> length (AList.update k v al) = length al"
  by (induction al) (auto split: if_splits)

lemma length_delete_old:
  "distinct_keys al \<Longrightarrow> map_of al k \<noteq> None \<Longrightarrow> Suc (length (AList.delete k al)) = length al"
proof (induction al)
  case Nil
  then show ?case by simp
next
  case (Cons p al)
  show ?case
  proof (cases "fst p = k")
    case True
    with Cons.prems have "AList.delete k al = al"
      by (auto simp: AList.delete_eq filter_id_conv image_iff)
    with True show ?thesis by (cases p) (simp add: AList.delete_eq)
  next
    case False
    with Cons show ?thesis by (auto simp: AList.delete_eq split: if_splits)
  qed
qed

lemma length_delete_new:
  "map_of al k = None \<Longrightarrow> AList.delete k al = al"
  by (auto simp: AList.delete_eq filter_id_conv map_of_eq_None_iff image_iff)

end
