(* ===== verification/Kernel.thy ===== *)
theory Kernel
  imports Prelude
begin

text \<open>
  The POSIX calls the adapters make, as functions on a kernel state: a flat directory from path
  names to inodes, the contents of every inode (an unlinked inode keeps its contents while a
  handle refers to it), the set of subdirectories, and a script of faults. A handle carries its
  own open-file description (inode, position, access), because no two handles of the program
  share one.

  Every call that changes the disk (\<open>open\<close> with \<open>O_CREAT\<close>, \<open>write\<close>, \<open>unlink\<close>, \<open>rename\<close>, \<open>mkdir\<close>,
  \<open>rmdir\<close>) takes one element of the script: \<open>None\<close> lets the call succeed, \<open>Some n\<close> makes it fail,
  a \<open>write\<close> after transferring at most \<open>n\<close> bytes. After the script is used up the calls succeed, or,
  when \<open>halted\<close> is set, have no effect at all: a power failure before the n-th call is the
  script of n \<open>None\<close>s with \<open>halted\<close> set, since the disk cannot change afterwards. Errors of any
  cause (full disk, missing parent directory, I/O error) are faults of the script.
\<close>

record kernel =
  dir :: "string \<rightharpoonup> nat"
  inodes :: "nat \<Rightarrow> bytes"
  next_ino :: nat
  subdirs :: "string set"
  faults :: "nat option list"
  halted :: bool

record ofd =
  o_ino :: nat
  o_pos :: nat
  o_rd :: bool
  o_wr :: bool
  o_append :: bool

record oflags =
  fl_rd :: bool
  fl_wr :: bool
  fl_creat :: bool
  fl_trunc :: bool
  fl_append :: bool

definition next_fault :: "kernel \<Rightarrow> nat option \<times> kernel" where
  "next_fault K = (case faults K of
      [] \<Rightarrow> (if halted K then Some 0 else None, K)
    | x # xs \<Rightarrow> (x, K\<lparr>faults := xs\<rparr>))"

definition healthy :: "kernel \<Rightarrow> bool" where
  "healthy K \<longleftrightarrow> faults K = [] \<and> \<not> halted K"

text \<open>Fresh inode numbers are above every inode in use, and no two names share an inode (the
  program makes no hard links).\<close>

definition kernel_wf :: "kernel \<Rightarrow> bool" where
  "kernel_wf K \<longleftrightarrow> inj_on (dir K) (dom (dir K)) \<and> (\<forall>p i. dir K p = Some i \<longrightarrow> i < next_ino K)"

definition contents :: "kernel \<Rightarrow> string \<Rightarrow> bytes option" where
  "contents K p = map_option (inodes K) (dir K p)"

definition empty_kernel :: kernel where
  "empty_kernel = \<lparr>dir = Map.empty, inodes = (\<lambda>_. []), next_ino = 0, subdirs = {},
     faults = [], halted = False\<rparr>"

section \<open>System calls\<close>

definition open_desc :: "nat \<Rightarrow> oflags \<Rightarrow> ofd" where
  "open_desc i fl = \<lparr>o_ino = i, o_pos = 0, o_rd = fl_rd fl, o_wr = fl_wr fl, o_append = fl_append fl\<rparr>"

definition sys_open :: "string \<Rightarrow> oflags \<Rightarrow> kernel \<Rightarrow> ofd option \<times> kernel" where
  "sys_open p fl K =
     (if \<not> fl_creat fl then
        (case dir K p of None \<Rightarrow> (None, K) | Some i \<Rightarrow> (Some (open_desc i fl), K))
      else (case next_fault K of
          (Some _, K) \<Rightarrow> (None, K)
        | (None, K) \<Rightarrow>
          (case dir K p of
             Some i \<Rightarrow>
               (Some (open_desc i fl), if fl_trunc fl then K\<lparr>inodes := (inodes K)(i := [])\<rparr> else K)
           | None \<Rightarrow> (let i = next_ino K in
               (Some (open_desc i fl),
                K\<lparr>dir := (dir K)(p \<mapsto> i), inodes := (inodes K)(i := []), next_ino := Suc i\<rparr>)))))"

definition sys_read :: "nat \<Rightarrow> ofd \<Rightarrow> kernel \<Rightarrow> bytes option \<times> ofd" where
  "sys_read n d K =
     (if \<not> o_rd d then (None, d)
      else let bs = take n (drop (o_pos d) (inodes K (o_ino d)))
           in (Some bs, d\<lparr>o_pos := o_pos d + length bs\<rparr>))"

definition sys_write :: "bytes \<Rightarrow> ofd \<Rightarrow> kernel \<Rightarrow> nat option \<times> ofd \<times> kernel" where
  "sys_write bs d K =
     (if \<not> o_wr d then (None, d, K)
      else if bs = [] then (Some 0, d, K)
      else let (ft, K) = next_fault K;
               n = (case ft of None \<Rightarrow> length bs | Some m \<Rightarrow> min m (length bs));
               old = inodes K (o_ino d);
               pos = (if o_append d then length old else o_pos d);
               new = take pos old @ replicate (pos - length old) 0 @ take n bs @ drop (pos + n) old
           in if n = 0 then (None, d, K)
              else (Some n, d\<lparr>o_pos := pos + n\<rparr>, K\<lparr>inodes := (inodes K)(o_ino d := new)\<rparr>))"

datatype whence = SEEK_SET | SEEK_CUR | SEEK_END

definition sys_size :: "ofd \<Rightarrow> kernel \<Rightarrow> nat" where
  "sys_size d K = length (inodes K (o_ino d))"

definition sys_lseek :: "nat \<Rightarrow> whence \<Rightarrow> ofd \<Rightarrow> kernel \<Rightarrow> nat \<times> ofd" where
  "sys_lseek off w d K =
     (let pos = (case w of SEEK_SET \<Rightarrow> off | SEEK_CUR \<Rightarrow> o_pos d + off | SEEK_END \<Rightarrow> sys_size d K + off)
      in (pos, d\<lparr>o_pos := pos\<rparr>))"

definition sys_unlink :: "string \<Rightarrow> kernel \<Rightarrow> bool \<times> kernel" where
  "sys_unlink p K = (case next_fault K of
      (Some _, K) \<Rightarrow> (False, K)
    | (None, K) \<Rightarrow> if dir K p = None then (False, K) else (True, K\<lparr>dir := (dir K)(p := None)\<rparr>))"

definition sys_rename :: "string \<Rightarrow> string \<Rightarrow> kernel \<Rightarrow> bool \<times> kernel" where
  "sys_rename a b K = (case next_fault K of
      (Some _, K) \<Rightarrow> (False, K)
    | (None, K) \<Rightarrow> (case dir K a of
        None \<Rightarrow> (False, K)
      | Some i \<Rightarrow> (True, if a = b then K else K\<lparr>dir := (dir K)(a := None, b \<mapsto> i)\<rparr>)))"

definition sys_mkdir :: "string \<Rightarrow> kernel \<Rightarrow> bool \<times> kernel" where
  "sys_mkdir p K = (case next_fault K of
      (Some _, K) \<Rightarrow> (False, K)
    | (None, K) \<Rightarrow> if p \<in> subdirs K \<or> dir K p \<noteq> None then (False, K)
                  else (True, K\<lparr>subdirs := insert p (subdirs K)\<rparr>))"

definition sys_rmdir :: "string \<Rightarrow> kernel \<Rightarrow> bool \<times> kernel" where
  "sys_rmdir p K = (case next_fault K of
      (Some _, K) \<Rightarrow> (False, K)
    | (None, K) \<Rightarrow> if p \<in> subdirs K then (True, K\<lparr>subdirs := subdirs K - {p}\<rparr>) else (False, K))"

section \<open>The calls on a healthy disk\<close>

lemma next_fault_healthy [simp]: "healthy K \<Longrightarrow> next_fault K = (None, K)"
  by (simp add: next_fault_def healthy_def)

lemma healthy_update [simp]:
  "healthy (K\<lparr>dir := d\<rparr>) = healthy K" "healthy (K\<lparr>inodes := f\<rparr>) = healthy K"
  "healthy (K\<lparr>next_ino := n\<rparr>) = healthy K" "healthy (K\<lparr>subdirs := s\<rparr>) = healthy K"
  by (simp_all add: healthy_def)

lemma healthy_empty_kernel [simp]: "healthy empty_kernel"
  by (simp add: healthy_def empty_kernel_def)

lemma kernel_wf_empty [simp]: "kernel_wf empty_kernel"
  by (simp add: kernel_wf_def empty_kernel_def)

text \<open>A disk with a single file, for the concrete instances.\<close>

definition one_file :: "string \<Rightarrow> bytes \<Rightarrow> kernel" where
  "one_file p bs = empty_kernel\<lparr>dir := [p \<mapsto> 0], inodes := (\<lambda>_. bs), next_ino := 1\<rparr>"

lemma one_file_simps [simp]:
  "dir (one_file p bs) = [p \<mapsto> 0]" "inodes (one_file p bs) i = bs"
  "healthy (one_file p bs)" "kernel_wf (one_file p bs)"
  by (simp_all add: one_file_def kernel_wf_def empty_kernel_def healthy_def)

end
