(* ===== verification/PosixFileSystem.thy ===== *)
theory PosixFileSystem
  imports Kernel
begin

text \<open>
  \<open>Adapters/PosixFileSystem.h\<close>: the file object (\<open>FileImpl\<close>: a descriptor, the closed flag and a
  running count of available bytes) and the file system object (\<open>FileSystemImpl\<close>). A call on a
  closed file violates an \<open>assert\<close>; the definitions then give what the system call on descriptor
  -1 gives with assertions off (an error). Results \<open>None\<close> of a byte read are \<open>EOF\<close>.
\<close>

datatype file_mode = ModeRead | ModeWrite | ModeAppend | ModeReadWrite | ModeReadAppend

datatype seek_mode = SeekModeSet | SeekModeCur | SeekModeEnd

record pfile =
  pf_fd :: "ofd option"
  pf_closed :: bool
  pf_avail :: u64

section \<open>FileImpl\<close>

definition pf_size :: "pfile \<Rightarrow> kernel \<Rightarrow> nat" where
  "pf_size f K = (case pf_fd f of None \<Rightarrow> 0 | Some d \<Rightarrow> sys_size d K)"

definition pf_new :: "ofd \<Rightarrow> kernel \<Rightarrow> pfile" where
  "pf_new d K = \<lparr>pf_fd = Some d, pf_closed = False, pf_avail = of_nat (sys_size d K)\<rparr>"

definition pf_close :: "pfile \<Rightarrow> pfile" where
  "pf_close f = f\<lparr>pf_fd := None, pf_closed := True\<rparr>"

definition pf_is_valid :: "pfile \<Rightarrow> bool" where
  "pf_is_valid f \<longleftrightarrow> pf_fd f \<noteq> None \<and> \<not> pf_closed f"

definition pf_read_bytes :: "nat \<Rightarrow> pfile \<Rightarrow> kernel \<Rightarrow> bytes \<times> pfile" where
  "pf_read_bytes n f K = (case pf_fd f of
      None \<Rightarrow> ([], f)
    | Some d \<Rightarrow> (case sys_read n d K of
        (None, d) \<Rightarrow> ([], f\<lparr>pf_fd := Some d\<rparr>)
      | (Some bs, d) \<Rightarrow>
          (bs, f\<lparr>pf_fd := Some d, pf_avail := pf_avail f - of_nat (length bs)\<rparr>)))"

definition pf_read1 :: "pfile \<Rightarrow> kernel \<Rightarrow> u8 option \<times> pfile" where
  "pf_read1 f K =
     (if pf_avail f = 0 then (None, f)
      else case pf_fd f of
        None \<Rightarrow> (None, f)
      | Some d \<Rightarrow> (case sys_read 1 d K of
          (Some [ch], d) \<Rightarrow> (Some ch, f\<lparr>pf_fd := Some d, pf_avail := pf_avail f - 1\<rparr>)
        | (_, d) \<Rightarrow> (None, f\<lparr>pf_fd := Some d\<rparr>)))"

text \<open>The byte write returns the status of a failed call as \<open>size_t\<close>: -1 becomes the largest value.\<close>

definition pf_write1 :: "u8 \<Rightarrow> pfile \<Rightarrow> kernel \<Rightarrow> u64 \<times> pfile \<times> kernel" where
  "pf_write1 ch f K = (case pf_fd f of
      None \<Rightarrow> (- 1, f, K)
    | Some d \<Rightarrow> (case sys_write [ch] d K of
        (None, d, K) \<Rightarrow> (- 1, f\<lparr>pf_fd := Some d\<rparr>, K)
      | (Some n, d, K) \<Rightarrow>
          if n < 1 then (of_nat n, f\<lparr>pf_fd := Some d\<rparr>, K)
          else (1, f\<lparr>pf_fd := Some d,
                     pf_avail := (if pf_avail f > 0 then pf_avail f - 1 else 0)\<rparr>, K)))"

definition pf_write_bytes :: "bytes \<Rightarrow> pfile \<Rightarrow> kernel \<Rightarrow> nat \<times> pfile \<times> kernel" where
  "pf_write_bytes bs f K = (case pf_fd f of
      None \<Rightarrow> (0, f, K)
    | Some d \<Rightarrow> (case sys_write bs d K of
        (None, d, K) \<Rightarrow> (0, f\<lparr>pf_fd := Some d\<rparr>, K)
      | (Some n, d, K) \<Rightarrow>
          (n, f\<lparr>pf_fd := Some d,
                pf_avail := (if of_nat n \<le> pf_avail f then pf_avail f - of_nat n else 0)\<rparr>, K)))"

text \<open>\<open>available()\<close> returns the \<open>size_t\<close> count as an \<open>int\<close>.\<close>

definition pf_available :: "pfile \<Rightarrow> int" where
  "pf_available f = sint (ucast (pf_avail f) :: u32)"

definition pf_peek :: "pfile \<Rightarrow> kernel \<Rightarrow> u8 option" where
  "pf_peek f K =
     (if pf_avail f = 0 then None
      else case pf_fd f of
        None \<Rightarrow> None
      | Some d \<Rightarrow> (case sys_read 1 d K of (Some [ch], _) \<Rightarrow> Some ch | _ \<Rightarrow> None))"

definition pf_tell :: "pfile \<Rightarrow> nat" where
  "pf_tell f = (case pf_fd f of None \<Rightarrow> 0 | Some d \<Rightarrow> o_pos d)"

definition pf_seek :: "nat \<Rightarrow> seek_mode \<Rightarrow> pfile \<Rightarrow> kernel \<Rightarrow> nat \<times> pfile" where
  "pf_seek pos mode f K = (case pf_fd f of
      None \<Rightarrow> (0, f)
    | Some d \<Rightarrow>
      (let w = (case mode of SeekModeCur \<Rightarrow> SEEK_CUR | SeekModeEnd \<Rightarrow> SEEK_END | SeekModeSet \<Rightarrow> SEEK_SET);
           (new_pos, d) = sys_lseek pos w d K;
           file_size = sys_size d K
       in (new_pos, f\<lparr>pf_fd := Some d,
             pf_avail := (if new_pos \<le> file_size then of_nat (file_size - new_pos) else 0)\<rparr>)))"

text \<open>A write that has returned is on the disk, so \<open>fsync\<close> has nothing to do. \<open>name\<close> is a null pointer.\<close>

definition pf_flush :: "pfile \<Rightarrow> kernel \<Rightarrow> kernel" where
  "pf_flush f K = K"

definition pf_name :: "pfile \<Rightarrow> string option" where
  "pf_name f = None"

section \<open>FileSystemImpl\<close>

definition posix_flags :: "file_mode \<Rightarrow> oflags" where
  "posix_flags m = (case m of
      ModeRead \<Rightarrow> \<lparr>fl_rd = True, fl_wr = False, fl_creat = False, fl_trunc = False, fl_append = False\<rparr>
    | ModeWrite \<Rightarrow> \<lparr>fl_rd = False, fl_wr = True, fl_creat = True, fl_trunc = True, fl_append = False\<rparr>
    | ModeAppend \<Rightarrow> \<lparr>fl_rd = False, fl_wr = True, fl_creat = True, fl_trunc = False, fl_append = True\<rparr>
    | ModeReadWrite \<Rightarrow> \<lparr>fl_rd = True, fl_wr = True, fl_creat = True, fl_trunc = True, fl_append = False\<rparr>
    | ModeReadAppend \<Rightarrow> \<lparr>fl_rd = True, fl_wr = True, fl_creat = True, fl_trunc = False, fl_append = True\<rparr>)"

definition posix_open :: "string \<Rightarrow> file_mode \<Rightarrow> kernel \<Rightarrow> pfile option \<times> kernel" where
  "posix_open path m K = (case sys_open path (posix_flags m) K of
      (None, K) \<Rightarrow> (None, K)
    | (Some d, K) \<Rightarrow> (Some (pf_new d K), K))"

definition posix_exists :: "string \<Rightarrow> kernel \<Rightarrow> bool" where
  "posix_exists path K \<longleftrightarrow> fst (sys_open path (posix_flags ModeRead) K) \<noteq> None"

definition posix_remove :: "string \<Rightarrow> kernel \<Rightarrow> bool \<times> kernel" where
  "posix_remove path K = sys_unlink path K"

definition posix_rename :: "string \<Rightarrow> string \<Rightarrow> kernel \<Rightarrow> bool \<times> kernel" where
  "posix_rename a b K = sys_rename a b K"

definition posix_mkdir :: "string \<Rightarrow> kernel \<Rightarrow> bool \<times> kernel" where
  "posix_mkdir path K =
     (if path \<in> subdirs K then (True, K)
      else if dir K path \<noteq> None then (False, K)
      else sys_mkdir path K)"

text \<open>The result of \<open>rmdir\<close> is inverted in the source.\<close>

definition posix_rmdir :: "string \<Rightarrow> kernel \<Rightarrow> bool \<times> kernel" where
  "posix_rmdir path K = (case sys_rmdir path K of (ok, K) \<Rightarrow> (if ok then (False, K) else (True, K)))"

definition posix_file_size :: "string \<Rightarrow> kernel \<Rightarrow> nat" where
  "posix_file_size path K = (case contents K path of None \<Rightarrow> 0 | Some bs \<Rightarrow> length bs)"

definition posix_is_directory :: "string \<Rightarrow> kernel \<Rightarrow> bool" where
  "posix_is_directory path K \<longleftrightarrow> path \<in> subdirs K"

definition posix_format :: "kernel \<Rightarrow> bool \<times> kernel" where
  "posix_format K = (False, K)"

text \<open>\<open>init\<close> probes the disk with a scratch file; the result is always true.\<close>

definition posix_init :: "bool \<Rightarrow> kernel \<Rightarrow> bool \<times> kernel" where
  "posix_init reformatOnFail K =
     (if \<not> reformatOnFail then (True, K)
      else
        let (init_test, K) = posix_open ''./__init_test__'' ModeWrite K;
            (verified, K) = (case init_test of
                None \<Rightarrow> (False, K)
              | Some f \<Rightarrow> (case pf_write_bytes (map (\<lambda>c. of_char c) ''test'') f K of
                    (n, f, K) \<Rightarrow> (n = 4, K)))
        in if \<not> verified then (True, snd (posix_format K))
           else (True, snd (posix_remove ''./__init_test__'' K)))"

text \<open>\<open>readdir\<close> gives the entries of a directory, \<open>None\<close> when it cannot be opened. With a callback the names
  go there and the result is empty.\<close>

definition posix_list :: "(string \<Rightarrow> kernel \<Rightarrow> string list option) \<Rightarrow> string \<Rightarrow> bool \<Rightarrow> kernel \<Rightarrow> string list \<times> string list" where
  "posix_list readdir path callback K = (case readdir path K of
      None \<Rightarrow> ([], [])
    | Some entries \<Rightarrow>
        (let names = filter (\<lambda>n. n \<noteq> ''.'' \<and> n \<noteq> ''..'') entries
         in if callback then ([], names) else (names, [])))"

definition posix_storage_size :: nat where
  "posix_storage_size = 0"

definition posix_storage_available :: nat where
  "posix_storage_available = 0"

section \<open>Laws\<close>

lemma pf_is_valid_new [simp]: "pf_is_valid (pf_new d K)"
  by (simp add: pf_is_valid_def pf_new_def)

lemma pf_is_valid_close [simp]: "\<not> pf_is_valid (pf_close f)"
  by (simp add: pf_is_valid_def pf_close_def)

lemma posix_open_read:
  "posix_open p ModeRead K =
     (case dir K p of None \<Rightarrow> (None, K)
      | Some i \<Rightarrow> (Some (pf_new (open_desc i (posix_flags ModeRead)) K), K))"
  by (simp add: posix_open_def sys_open_def posix_flags_def split: option.split)

lemma posix_exists_iff: "posix_exists p K \<longleftrightarrow> dir K p \<noteq> None"
  by (simp add: posix_exists_def sys_open_def posix_flags_def split: option.split)

text \<open>The available count of a freshly opened or repositioned file is the distance to its end, and
  reads keep it so.\<close>

definition avail_ok :: "pfile \<Rightarrow> kernel \<Rightarrow> bool" where
  "avail_ok f K \<longleftrightarrow> (case pf_fd f of None \<Rightarrow> False
     | Some d \<Rightarrow> o_pos d \<le> sys_size d K \<and> sys_size d K < 2 ^ 64 \<and>
         unat (pf_avail f) = sys_size d K - o_pos d)"

lemma avail_ok_new:
  "o_pos d = 0 \<Longrightarrow> sys_size d K < 2 ^ 64 \<Longrightarrow> avail_ok (pf_new d K) K"
  by (simp add: avail_ok_def pf_new_def unat_of_nat)

lemma avail_ok_seek:
  assumes "pf_fd f = Some d" "sys_size d K < 2 ^ 64" "fst (pf_seek pos mode f K) \<le> sys_size d K"
  shows "avail_ok (snd (pf_seek pos mode f K)) K"
  using assms
  by (auto simp: pf_seek_def avail_ok_def sys_lseek_def sys_size_def Let_def unat_of_nat
      simp del: of_nat_diff of_nat_add split: seek_mode.splits)

lemma avail_ok_read:
  assumes "avail_ok f K"
  shows "avail_ok (snd (pf_read_bytes n f K)) K"
proof -
  from assms obtain d where d: "pf_fd f = Some d" "o_pos d \<le> sys_size d K" "sys_size d K < 2 ^ 64"
      "unat (pf_avail f) = sys_size d K - o_pos d"
    by (auto simp: avail_ok_def split: option.splits)
  let ?k = "length (take n (drop (o_pos d) (inodes K (o_ino d))))"
  have k: "?k \<le> unat (pf_avail f)" using d by (simp add: sys_size_def)
  then have "unat (of_nat ?k :: u64) = ?k"
    using unat_u64_less [of "pf_avail f"] by (simp add: unat_of_nat)
  moreover from this k have "unat (pf_avail f - of_nat ?k) = unat (pf_avail f) - ?k"
    by (simp add: unat_sub word_le_nat_alt)
  ultimately show ?thesis using d k
    by (auto simp: pf_read_bytes_def sys_read_def avail_ok_def Let_def sys_size_def min_def)
qed

end
