(* ===== verification/Utility.thy ===== *)
theory Utility
  imports Prelude
begin

text \<open>
  \<open>Utility.h\<close>: the CRC-32 of records and files, and the two clocks. \<open>crc32\<close> takes an optional
  byte list, \<open>None\<close> being the null pointer. The Arduino \<open>time()\<close> keeps two function-local statics
  that extend the 32-bit millisecond counter to 64 bits; they are the record \<open>time_statics\<close>.
\<close>

section \<open>CRC-32\<close>

text \<open>One inner iteration: \<open>crc = (crc>>1) ^ (0xEDB88320 & -(crc&1))\<close>.\<close>

definition crc_bit :: "u32 \<Rightarrow> u32" where
  "crc_bit c = drop_bit 1 c XOR (0xEDB88320 AND (- (c AND 1)))"

definition crc_byte :: "u32 \<Rightarrow> u8 \<Rightarrow> u32" where
  "crc_byte c b = (crc_bit ^^ 8) (c XOR ucast b)"

definition crc32 :: "u32 \<Rightarrow> bytes option \<Rightarrow> u32" where
  "crc32 c p = (case p of None \<Rightarrow> 0 | Some d \<Rightarrow> NOT (foldl crc_byte (NOT c) d))"

text \<open>The overload for one byte.\<close>

definition crc32_byte :: "u32 \<Rightarrow> u8 \<Rightarrow> u32" where
  "crc32_byte c b = crc32 c (Some [b])"

text \<open>The textbook formulation that the file keeps in a comment: a branch on the low bit
  instead of the mask.\<close>

definition crc_bit_ref :: "u32 \<Rightarrow> u32" where
  "crc_bit_ref c = (if c AND 1 \<noteq> 0 then drop_bit 1 c XOR 0xEDB88320 else drop_bit 1 c)"

definition crc32_ref :: "u32 \<Rightarrow> bytes option \<Rightarrow> u32" where
  "crc32_ref c p = (case p of None \<Rightarrow> 0 | Some d \<Rightarrow>
     foldl (\<lambda>c b. (crc_bit_ref ^^ 8) (c XOR ucast b)) (c XOR 0xFFFFFFFF) d XOR 0xFFFFFFFF)"

lemma crc_bit_branch:
  "crc_bit c = (if bit c 0 then drop_bit 1 c XOR 0xEDB88320 else drop_bit 1 c)"
proof -
  have "c AND 1 = (if bit c 0 then 1 else 0)"
    by (simp add: and_one_eq mod_2_eq_odd bit_0)
  then show ?thesis by (auto simp: crc_bit_def)
qed

lemma crc_bit_eq_ref: "crc_bit c = crc_bit_ref c"
  by (simp add: crc_bit_branch crc_bit_ref_def and_one_eq mod_2_eq_odd bit_0)

lemma xor_all_ones: "(c :: u32) XOR 0xFFFFFFFF = NOT c"
proof -
  have ones: "(0xFFFFFFFF :: u32) = - 1" by simp
  show ?thesis by (subst ones) simp
qed

text \<open>The top bit of the register tells which branch was taken, so an iteration can be undone:
  the polynomial has its bit 31 set and the shift clears that bit.\<close>

definition crc_unbit :: "u32 \<Rightarrow> u32" where
  "crc_unbit y = (if bit y 31 then push_bit 1 (y XOR 0xEDB88320) OR 1 else push_bit 1 y)"

lemma crc_poly_top: "bit (0xEDB88320 :: u32) 31"
  by simp

lemma push_drop_bit_1: "push_bit 1 (drop_bit 1 c) = c AND NOT (1 :: u32)"
  by (rule bit_word_eqI) (auto simp: bit_push_bit_iff bit_drop_bit_eq bit_and_iff bit_not_iff
      bit_1_iff simp del: push_bit_Suc drop_bit_Suc One_nat_def)

lemma crc_unbit_crc_bit: "crc_unbit (crc_bit c) = c"
proof (cases "bit c 0")
  case True
  have top: "bit (crc_bit c) 31"
    using True crc_poly_top
    by (auto simp: crc_bit_branch bit_simps dest: bit_imp_le_length)
  have "crc_bit c XOR 0xEDB88320 = drop_bit 1 c"
    using True by (simp only: crc_bit_branch if_True) (simp add: xor.assoc)
  then have "crc_unbit (crc_bit c) = (c AND NOT 1) OR 1"
    using top by (simp only: crc_unbit_def if_True push_drop_bit_1)
  also have "\<dots> = c"
    using True by (intro bit_word_eqI) (auto simp: bit_simps bit_1_iff)
  finally show ?thesis .
next
  case False
  have top: "\<not> bit (crc_bit c) 31"
    using False by (auto simp: crc_bit_branch bit_simps dest: bit_imp_le_length)
  have "crc_unbit (crc_bit c) = c AND NOT 1"
    using top False by (simp only: crc_unbit_def crc_bit_branch if_False push_drop_bit_1)
  also have "\<dots> = c"
    using False by (intro bit_word_eqI) (auto simp: bit_simps bit_1_iff intro: gr0I)
  finally show ?thesis .
qed

lemma inj_crc_bit: "inj crc_bit"
  by (rule inj_on_inverseI) (rule crc_unbit_crc_bit)

lemma inj_crc_bits: "inj (crc_bit ^^ n)"
  by (induction n) (auto simp: inj_def dest: injD [OF inj_crc_bit])

lemma crc_byte_inj_reg: "crc_byte c b = crc_byte c' b \<longleftrightarrow> c = c'"
proof
  assume "crc_byte c b = crc_byte c' b"
  then have "c XOR ucast b = c' XOR ucast b"
    using inj_crc_bits [of 8] by (auto simp: crc_byte_def dest: injD)
  then have "(c XOR ucast b) XOR ucast b = (c' XOR ucast b) XOR ucast b" by simp
  then show "c = c'" by (simp add: xor.assoc)
qed simp

lemma crc_byte_inj_byte: "crc_byte c b = crc_byte c b' \<longleftrightarrow> b = b'"
proof
  assume "crc_byte c b = crc_byte c b'"
  then have "c XOR ucast b = c XOR ucast b'"
    using inj_crc_bits [of 8] by (auto simp: crc_byte_def dest: injD)
  then have "c XOR (c XOR ucast b) = c XOR (c XOR ucast b')" by simp
  then have "(ucast b :: u32) = ucast b'" by (simp flip: xor.assoc)
  then have "(ucast (ucast b :: u32) :: u8) = ucast (ucast b' :: u32)" by simp
  then show "b = b'" by (simp add: ucast_up_ucast_id is_up)
qed simp

lemma foldl_crc_byte_inj: "foldl crc_byte c ys = foldl crc_byte c' ys \<longleftrightarrow> c = c'"
  by (induction ys arbitrary: c c') (auto simp: crc_byte_inj_reg)

text \<open>The CRC can be computed piecewise, header first, then key, then value, as \<open>put\<close> does:
  continuing from an intermediate CRC equals one pass over the concatenation.\<close>

lemma crc32_append: "crc32 (crc32 c (Some a)) (Some b) = crc32 c (Some (a @ b))"
  by (simp add: crc32_def)

text \<open>C31: the CRC routine in use computes the same function as the commented-out bitwise reference.\<close>

theorem crc32_matches_reference: "crc32 c p = crc32_ref c p"
proof -
  have "crc_bit = crc_bit_ref" by (rule ext) (rule crc_bit_eq_ref)
  then show ?thesis
    by (simp add: crc32_def crc32_ref_def xor_all_ones crc_byte_def [abs_def] split: option.split)
qed

text \<open>a CRC distinguishes any two messages of the same length that differ in a single byte.\<close>

theorem crc32_detects_byte_change:
  "crc32 c (Some (xs @ b # ys)) = crc32 c (Some (xs @ b' # ys)) \<longleftrightarrow> b = b'"
  by (simp add: crc32_def foldl_crc_byte_inj crc_byte_inj_byte)

text \<open>A published check value of CRC-32 on a short message.\<close>

lemma crc32_check_value: "crc32 0 (Some [0x31]) = 0x83DCEFB7"
  by code_simp

section \<open>Clocks\<close>

text \<open>The native \<open>time()\<close>: seconds of \<open>gettimeofday\<close>, through milliseconds in 64 bits, truncated
  to 32 bits. The native \<open>millis()\<close> truncates the steady clock's milliseconds.\<close>

definition time_native :: "u64 \<Rightarrow> u64 \<Rightarrow> u32" where
  "time_native tv_sec tv_usec = ucast ((tv_sec * 1000 + tv_usec div 1000) div 1000)"

definition millis_native :: "nat \<Rightarrow> u32" where
  "millis_native steady_ms = of_nat steady_ms"

text \<open>The Arduino \<open>time()\<close>: \<open>low32\<close> and \<open>high32\<close> are static (initially zero); a sample below the
  previous one means the 32-bit counter has wrapped.\<close>

record time_statics =
  low32 :: u32
  high32 :: u32

definition time_statics0 :: time_statics where
  "time_statics0 = \<lparr>low32 = 0, high32 = 0\<rparr>"

definition time_sample :: "u32 \<Rightarrow> time_statics \<Rightarrow> time_statics" where
  "time_sample new_low32 st =
     (let st = (if new_low32 < low32 st then st\<lparr>high32 := high32 st + 1\<rparr> else st)
      in st\<lparr>low32 := new_low32\<rparr>)"

definition time_arduino :: "u32 \<Rightarrow> u32 \<Rightarrow> time_statics \<Rightarrow> u32 \<times> time_statics" where
  "time_arduino time_offset new_low32 st =
     (let st' = time_sample new_low32 st
      in (ucast ((push_bit 32 (ucast (high32 st')) OR ucast (low32 st') :: u64) div 1000)
            + time_offset, st'))"

text \<open>The 64-bit count the statics represent, and a run of samples of a true counter.\<close>

definition statics_ms :: "time_statics \<Rightarrow> nat" where
  "statics_ms st = unat (high32 st) * 2 ^ 32 + unat (low32 st)"

fun samples_ok :: "nat \<Rightarrow> nat list \<Rightarrow> bool" where
  "samples_ok prev [] = True"
| "samples_ok prev (t # ts) =
     (prev \<le> t \<and> t < prev + 2 ^ 32 \<and> t < 2 ^ 64 \<and> samples_ok t ts)"

lemma wrap_quotient:
  fixes t h l :: nat
  assumes "h * 4294967296 + l \<le> t" "t < h * 4294967296 + l + 4294967296" "l < 4294967296"
  shows "t div 4294967296 = (if t mod 4294967296 < l then Suc h else h)"
proof -
  define q r where "q = t div 4294967296" and "r = t mod 4294967296"
  then have "t = q * 4294967296 + r" "r < 4294967296" by simp_all
  with assms have "q = (if r < l then Suc h else h)" by auto
  then show ?thesis by (simp add: q_def r_def)
qed

lemma time_sample_ms:
  assumes st: "statics_ms st = p" and t: "p \<le> t" "t < p + 2 ^ 32" "t < 2 ^ 64"
  shows "statics_ms (time_sample (of_nat t) st) = t"
proof -
  let ?h = "unat (high32 st)" and ?l = "unat (low32 st)"
  have l: "?l < 2 ^ 32" and h: "?h < 2 ^ 32"
    by (rule unat_u32_less)+
  have new: "unat (of_nat t :: u32) = t mod 2 ^ 32"
    by (simp add: unat_of_nat)
  have less: "(of_nat t :: u32) < low32 st \<longleftrightarrow> t mod 2 ^ 32 < ?l"
    by (simp add: word_less_nat_alt new)
  have p: "p = ?h * 2 ^ 32 + ?l" using st by (simp add: statics_ms_def)
  show ?thesis
  proof (cases "t mod 2 ^ 32 < ?l")
    case True
    with p t l have d: "t div 4294967296 = Suc ?h" by (simp add: wrap_quotient)
    with t have "Suc ?h < 2 ^ 32" by simp
    then have "unat (high32 st + 1) = Suc ?h"
      by (simp add: unat_word_ariths)
    with True less d show ?thesis
      using div_mult_mod_eq [of t 4294967296]
      by (simp add: time_sample_def statics_ms_def new Let_def)
  next
    case False
    with p t l have "t div 4294967296 = ?h" by (simp add: wrap_quotient)
    with False less show ?thesis
      using div_mult_mod_eq [of t 4294967296]
      by (simp add: time_sample_def statics_ms_def new Let_def)
  qed
qed

lemma statics_ms_word:
  "unat (push_bit 32 (ucast (high32 st)) OR ucast (low32 st) :: u64) = statics_ms st"
proof -
  let ?h = "ucast (high32 st) :: u64" and ?l = "ucast (low32 st) :: u64"
  have h: "unat ?h = unat (high32 st)" and l: "unat ?l = unat (low32 st)"
    using unat_u32_less [of "high32 st"] unat_u32_less [of "low32 st"]
    by (simp_all add: unat_ucast_mod)
  have "unat (push_bit 32 ?h OR ?l) = unat (push_bit 32 ?h) OR unat ?l"
    by (simp add: unsigned_or_eq)
  also have "unat (push_bit 32 ?h) = unat (high32 st) * 2 ^ 32"
    using unat_u32_less [of "high32 st"] unat_mult_small [of ?h "4294967296 :: u64"]
    by (simp add: push_bit_eq_mult h)
  also have "unat (high32 st) * 2 ^ 32 OR unat ?l = unat (high32 st) * 2 ^ 32 + unat ?l"
  proof (rule disjunctive_add [symmetric])
    fix n
    have eq: "unat (high32 st) * 2 ^ 32 = push_bit 32 (unat (high32 st))"
      by (simp only: push_bit_eq_mult)
    show "\<not> bit (unat (high32 st) * 2 ^ 32) n \<or> \<not> bit (unat ?l) n"
      unfolding l eq using bit_imp_le_length [of "low32 st" n]
      by (simp only: bit_push_bit_iff bit_unsigned_iff) auto
  qed
  finally show ?thesis by (simp add: statics_ms_def l)
qed

lemma time_arduino_value:
  "fst (time_arduino off new st) =
     of_nat (statics_ms (time_sample new st) div 1000) + off"
  by (simp add: time_arduino_def Let_def ucast_of_nat_unat [of "_ div _"] unat_div statics_ms_word)

text \<open>The values that consecutive calls return.\<close>

fun time_calls :: "u32 \<Rightarrow> nat list \<Rightarrow> time_statics \<Rightarrow> u32 list" where
  "time_calls off [] st = []"
| "time_calls off (t # ts) st = (case time_arduino off (of_nat t) st of (v, st) \<Rightarrow> v # time_calls off ts st)"

lemma time_calls_true:
  assumes "samples_ok (statics_ms st) ts"
  shows "time_calls off ts st = map (\<lambda>t. of_nat (t div 1000) + off) ts"
  using assms
proof (induction ts arbitrary: st)
  case (Cons t ts)
  have st': "snd (time_arduino off (of_nat t) st) = time_sample (of_nat t) st"
    by (simp add: time_arduino_def Let_def)
  have ms: "statics_ms (time_sample (of_nat t) st) = t"
    using Cons.prems by (intro time_sample_ms) auto
  then have "fst (time_arduino off (of_nat t) st) = of_nat (t div 1000) + off"
    by (simp add: time_arduino_value)
  moreover have "time_calls off ts (time_sample (of_nat t) st) = map (\<lambda>t. of_nat (t div 1000) + off) ts"
    using Cons.prems ms by (intro Cons.IH) simp
  ultimately show ?case using st' by (simp add: case_prod_unfold)
qed simp

text \<open>C36: the Arduino clock survives roll-over: if every call follows the previous one by less than a full
  period of the 32-bit millisecond counter, every call returns the seconds of the true count, which may be
  far beyond 32 bits, plus the offset.\<close>

theorem time_arduino_tracks_rollover:
  assumes "samples_ok 0 ts"
  shows "time_calls off ts time_statics0 = map (\<lambda>t. of_nat (t div 1000) + off) ts"
  using assms by (intro time_calls_true) (simp add: time_statics0_def statics_ms_def)

theorem time_arduino_tracks_rollover_witness:
  "time_calls 7 [4294967290, 4294968300, 8589934000, 8589935000] time_statics0 = [4294974, 4294975, 8589941, 8589942]"
  using time_arduino_tracks_rollover [of "[4294967290, 4294968300, 8589934000, 8589935000]" 7] by simp

lemma time_native_seconds:
  assumes "unat tv_sec < 2 ^ 53" "unat tv_usec < 1000000"
  shows "time_native tv_sec tv_usec = ucast tv_sec"
proof -
  have u: "unat (tv_usec div 1000) < 1000"
    using assms(2) by (simp add: unat_div)
  have m: "unat (tv_sec * 1000) = unat tv_sec * 1000"
    using assms(1) unat_mult_small [of tv_sec "1000 :: u64"] by simp
  have "unat (tv_sec * 1000 + tv_usec div 1000) = unat tv_sec * 1000 + unat (tv_usec div 1000)"
    using assms(1) m u unat_add_small [of "tv_sec * 1000" "tv_usec div 1000"] by simp
  with u have "unat ((tv_sec * 1000 + tv_usec div 1000) div 1000) = unat tv_sec"
    by (simp add: unat_div)
  then show ?thesis by (simp add: time_native_def word_unat_eq_iff unat_ucast_mod)
qed

end
