(* ===== verification/FileIO.thy ===== *)
theory FileIO
  imports PosixFileSystem Utility
begin

text \<open>
  \<open>File.h\<close> and \<open>FileSystem.h\<close>: the handle types the stores use. A \<open>File\<close> is a shared pointer to an
  implementation plus a running CRC; the null pointer is \<open>None\<close>, so the operations, which
  \<open>assert\<close> a non-null pointer, take a \<open>fhandle\<close>. The virtual calls go to the POSIX adapter.
\<close>

record fhandle =
  f_impl :: pfile
  f_crc :: u32

section \<open>File\<close>

text \<open>\<open>operator bool\<close>: the handle behind a pointer that is non-null and valid.\<close>

definition valid_file :: "fhandle option \<Rightarrow> fhandle option" where
  "valid_file f = (case f of None \<Rightarrow> None | Some g \<Rightarrow> if pf_is_valid (f_impl g) then Some g else None)"

definition file_close :: "fhandle \<Rightarrow> fhandle" where
  "file_close f = f\<lparr>f_impl := pf_close (f_impl f)\<rparr>"

definition file_size :: "fhandle \<Rightarrow> kernel \<Rightarrow> nat" where
  "file_size f K = pf_size (f_impl f) K"

text \<open>\<open>read()\<close>: nothing at the end of the data; otherwise the byte goes into the CRC (the \<open>EOF\<close> of a
  failed implementation read goes in as 0xFF).\<close>

definition file_read1 :: "fhandle \<Rightarrow> kernel \<Rightarrow> u8 option \<times> fhandle" where
  "file_read1 f K =
     (if pf_available (f_impl f) \<le> 0 then (None, f)
      else case pf_read1 (f_impl f) K of (ch, p) \<Rightarrow>
        (ch, f\<lparr>f_impl := p,
               f_crc := crc32_byte (f_crc f) (case ch of None \<Rightarrow> 0xFF | Some c \<Rightarrow> c)\<rparr>))"

definition file_write1 :: "u8 \<Rightarrow> fhandle \<Rightarrow> kernel \<Rightarrow> u64 \<times> fhandle \<times> kernel" where
  "file_write1 byte f K = (case pf_write1 byte (f_impl f) K of
      (n, p, K) \<Rightarrow> (n, f\<lparr>f_impl := p, f_crc := crc32_byte (f_crc f) byte\<rparr>, K))"

definition file_read :: "nat \<Rightarrow> fhandle \<Rightarrow> kernel \<Rightarrow> bytes \<times> fhandle" where
  "file_read n f K = (case pf_read_bytes n (f_impl f) K of (bs, p) \<Rightarrow>
     (bs, f\<lparr>f_impl := p, f_crc := (if bs \<noteq> [] then crc32 (f_crc f) (Some bs) else f_crc f)\<rparr>))"

text \<open>\<open>write\<close> folds the whole buffer into the CRC, whatever the implementation stores.\<close>

definition file_write :: "bytes \<Rightarrow> fhandle \<Rightarrow> kernel \<Rightarrow> nat \<times> fhandle \<times> kernel" where
  "file_write bs f K = (case pf_write_bytes bs (f_impl f) K of
      (n, p, K) \<Rightarrow> (n, f\<lparr>f_impl := p, f_crc := crc32 (f_crc f) (Some bs)\<rparr>, K))"

definition file_available :: "fhandle \<Rightarrow> int" where
  "file_available f = pf_available (f_impl f)"

definition file_peek :: "fhandle \<Rightarrow> kernel \<Rightarrow> u8 option" where
  "file_peek f K = pf_peek (f_impl f) K"

definition file_tell :: "fhandle \<Rightarrow> nat" where
  "file_tell f = pf_tell (f_impl f)"

definition file_seek :: "nat \<Rightarrow> seek_mode \<Rightarrow> fhandle \<Rightarrow> kernel \<Rightarrow> nat \<times> fhandle" where
  "file_seek pos mode f K = (case pf_seek pos mode (f_impl f) K of (r, p) \<Rightarrow> (r, f\<lparr>f_impl := p\<rparr>))"

text \<open>\<open>seek(pos)\<close>, \<open>write(str)\<close> up to the terminator, \<open>flush\<close>, \<open>name\<close>, \<open>crc\<close>.\<close>

definition file_seek_set :: "nat \<Rightarrow> fhandle \<Rightarrow> kernel \<Rightarrow> nat \<times> fhandle" where
  "file_seek_set pos f K = file_seek pos SeekModeSet f K"

definition file_write_cstr :: "bytes \<Rightarrow> fhandle \<Rightarrow> kernel \<Rightarrow> nat \<times> fhandle \<times> kernel" where
  "file_write_cstr str f K = file_write (takeWhile (\<lambda>c. c \<noteq> 0) str) f K"

definition file_flush :: "fhandle \<Rightarrow> kernel \<Rightarrow> kernel" where
  "file_flush f K = pf_flush (f_impl f) K"

definition file_name :: "fhandle \<Rightarrow> string option" where
  "file_name f = pf_name (f_impl f)"

definition file_crc :: "fhandle \<Rightarrow> u32" where
  "file_crc f = f_crc f"

text \<open>A sequence of writes whose results are ignored, as the index file is written.\<close>

fun file_write_seq :: "bytes list \<Rightarrow> fhandle \<Rightarrow> kernel \<Rightarrow> fhandle \<times> kernel" where
  "file_write_seq [] f K = (f, K)"
| "file_write_seq (b # bs) f K = (case file_write b f K of (_, f, K) \<Rightarrow> file_write_seq bs f K)"

section \<open>FileSystem\<close>

definition fs_open :: "string \<Rightarrow> file_mode \<Rightarrow> kernel \<Rightarrow> fhandle option \<times> kernel" where
  "fs_open path m K = (case posix_open path m K of
      (None, K) \<Rightarrow> (None, K)
    | (Some p, K) \<Rightarrow> (Some \<lparr>f_impl = p, f_crc = 0\<rparr>, K))"

definition fs_exists :: "string \<Rightarrow> kernel \<Rightarrow> bool" where
  "fs_exists path K = posix_exists path K"

definition fs_remove :: "string \<Rightarrow> kernel \<Rightarrow> kernel" where
  "fs_remove path K = snd (posix_remove path K)"

definition fs_rename :: "string \<Rightarrow> string \<Rightarrow> kernel \<Rightarrow> bool \<times> kernel" where
  "fs_rename a b K = posix_rename a b K"

definition fs_mkdir :: "string \<Rightarrow> kernel \<Rightarrow> bool \<times> kernel" where
  "fs_mkdir path K = posix_mkdir path K"

definition fs_rmdir :: "string \<Rightarrow> kernel \<Rightarrow> bool \<times> kernel" where
  "fs_rmdir path K = posix_rmdir path K"

definition fs_format :: "kernel \<Rightarrow> bool \<times> kernel" where
  "fs_format K = posix_format K"

definition fs_init :: "bool \<Rightarrow> kernel \<Rightarrow> bool \<times> kernel" where
  "fs_init reformatOnFail K = posix_init reformatOnFail K"

definition fs_size :: "string \<Rightarrow> kernel \<Rightarrow> nat" where
  "fs_size path K = posix_file_size path K"

definition fs_is_directory :: "string \<Rightarrow> kernel \<Rightarrow> bool" where
  "fs_is_directory path K = posix_is_directory path K"

definition fs_list :: "(string \<Rightarrow> kernel \<Rightarrow> string list option) \<Rightarrow> string \<Rightarrow> bool \<Rightarrow> kernel \<Rightarrow> string list \<times> string list" where
  "fs_list readdir path callback K = posix_list readdir path callback K"

definition fs_storage_size :: nat where
  "fs_storage_size = posix_storage_size"

definition fs_storage_available :: nat where
  "fs_storage_available = posix_storage_available"

text \<open>What an adapter that does not override them inherits: \<open>format\<close> fails, \<open>init\<close> succeeds, \<open>size\<close> opens the file
  (the adapters for boards inherit the last).\<close>

definition impl_format :: "kernel \<Rightarrow> bool \<times> kernel" where
  "impl_format K = (False, K)"

definition impl_init :: "bool \<Rightarrow> kernel \<Rightarrow> bool \<times> kernel" where
  "impl_init reformatOnFail K = (True, K)"

definition impl_size :: "string \<Rightarrow> kernel \<Rightarrow> nat \<times> kernel" where
  "impl_size path K = (case fs_open path ModeRead K of
      (None, K) \<Rightarrow> (0, K)
    | (Some f, K) \<Rightarrow> (file_size f K, K))"

definition read_file :: "string \<Rightarrow> nat \<Rightarrow> kernel \<Rightarrow> bytes \<times> kernel" where
  "read_file path n K = (case fs_open path ModeRead K of
      (None, K) \<Rightarrow> ([], K)
    | (Some f, K) \<Rightarrow> (fst (file_read n f K), K))"

definition read_file_vec :: "string \<Rightarrow> kernel \<Rightarrow> bytes \<times> kernel" where
  "read_file_vec path K = (case fs_open path ModeRead K of
      (None, K) \<Rightarrow> ([], K)
    | (Some f, K) \<Rightarrow> (fst (file_read (file_size f K) f K), K))"

definition write_file :: "string \<Rightarrow> bytes \<Rightarrow> kernel \<Rightarrow> nat \<times> kernel" where
  "write_file path bs K =
     (let K = fs_remove path K in
      case fs_open path ModeWrite K of
        (None, K) \<Rightarrow> (0, K)
      | (Some f, K) \<Rightarrow> (case file_write bs f K of (n, f, K) \<Rightarrow> (n, K)))"

text \<open>The inherited \<open>size\<close> agrees with the one of the POSIX adapter.\<close>

lemma impl_size_eq: "impl_size path K = (fs_size path K, K)"
  by (simp add: impl_size_def fs_open_def posix_open_read fs_size_def posix_file_size_def contents_def file_size_def
    pf_size_def pf_new_def sys_size_def open_desc_def split: option.split)

section \<open>The reader interface\<close>

text \<open>What the record scanners and lookups rely on: reads deliver the bytes from the current position,
  and seeks move it.\<close>

locale byte_reader =
  fixes rd :: "nat \<Rightarrow> 'f \<Rightarrow> bytes \<times> 'f"
    and skip :: "nat \<Rightarrow> 'f \<Rightarrow> 'f"
    and pos :: "'f \<Rightarrow> nat"
    and src :: "'f \<Rightarrow> bytes"
    and readable :: "'f \<Rightarrow> bool"
  assumes rd_bytes: "readable f \<Longrightarrow> fst (rd n f) = take n (drop (pos f) (src f))"
    and rd_pos: "readable f \<Longrightarrow> pos (snd (rd n f)) = pos f + length (fst (rd n f))"
    and rd_src: "src (snd (rd n f)) = src f"
    and rd_readable: "readable f \<Longrightarrow> readable (snd (rd n f))"
    and skip_pos: "readable f \<Longrightarrow> pos (skip n f) = n"
    and skip_src: "src (skip n f) = src f"
    and skip_readable: "readable f \<Longrightarrow> readable (skip n f)"
begin

lemma rd_full:
  "readable f \<Longrightarrow> length (fst (rd n f)) = n \<Longrightarrow> 0 < n \<Longrightarrow> pos f + n \<le> length (src f)"
  by (auto simp: rd_bytes min_def split: if_splits)

lemma rd_slice:
  "readable f \<Longrightarrow> src f = pre @ x @ post \<Longrightarrow> pos f = length pre \<Longrightarrow> fst (rd (length x) f) = x"
  by (simp add: rd_bytes)

lemma rd_skip:
  "readable f \<Longrightarrow> fst (rd n (skip m f)) = take n (drop m (src f))"
  by (simp add: rd_bytes skip_readable skip_pos skip_src)

lemma rd_rd:
  "readable f \<Longrightarrow> length (fst (rd n f)) = n \<Longrightarrow>
   fst (rd n f) @ fst (rd m (snd (rd n f))) = fst (rd (n + m) f)"
  by (simp add: rd_bytes rd_readable rd_pos rd_src take_add add.commute [of "pos f"])

end

definition file_pos :: "fhandle \<Rightarrow> nat" where
  "file_pos f = file_tell f"

definition file_data :: "kernel \<Rightarrow> fhandle \<Rightarrow> bytes" where
  "file_data K f = (case pf_fd (f_impl f) of None \<Rightarrow> [] | Some d \<Rightarrow> inodes K (o_ino d))"

definition file_readable :: "fhandle \<Rightarrow> bool" where
  "file_readable f = (case pf_fd (f_impl f) of None \<Rightarrow> False | Some d \<Rightarrow> o_rd d)"

interpretation fr: byte_reader "\<lambda>n f. file_read n f K" "\<lambda>n f. snd (file_seek n SeekModeSet f K)"
    file_pos "file_data K" file_readable for K
  by unfold_locales
    (auto simp: file_read_def file_seek_def pf_read_bytes_def pf_seek_def sys_read_def sys_lseek_def
      file_pos_def file_tell_def pf_tell_def file_data_def file_readable_def Let_def
      split: option.splits prod.splits if_splits)

section \<open>Writing at the end of a file\<close>

text \<open>The files of the store only grow at their end: they are opened for appending, or freshly
  truncated and written sequentially. Either way a handle stays a tail handle.\<close>

definition append_ino :: "nat \<Rightarrow> bytes \<Rightarrow> kernel \<Rightarrow> kernel" where
  "append_ino i bs K = K\<lparr>inodes := (inodes K)(i := inodes K i @ bs)\<rparr>"

definition tail_handle :: "fhandle \<Rightarrow> nat \<Rightarrow> kernel \<Rightarrow> bool" where
  "tail_handle f i K \<longleftrightarrow> pf_is_valid (f_impl f) \<and> (case pf_fd (f_impl f) of None \<Rightarrow> False
     | Some d \<Rightarrow> o_ino d = i \<and> o_wr d \<and> (o_append d \<or> o_pos d = length (inodes K i)))"

definition append_handle :: "fhandle \<Rightarrow> nat \<Rightarrow> bool" where
  "append_handle f i \<longleftrightarrow> pf_is_valid (f_impl f) \<and> (case pf_fd (f_impl f) of None \<Rightarrow> False
     | Some d \<Rightarrow> o_ino d = i \<and> o_wr d \<and> o_append d)"

lemma append_handle_tail: "append_handle f i \<Longrightarrow> tail_handle f i K"
  by (auto simp: append_handle_def tail_handle_def split: option.splits)

lemma append_handle_valid [simp]: "append_handle f i \<Longrightarrow> valid_file (Some f) = Some f"
  by (simp add: append_handle_def valid_file_def)

lemma valid_file_None [simp]: "valid_file None = None"
  by (simp add: valid_file_def)

lemma valid_file_close [simp]: "valid_file (Some (file_close f)) = None"
  by (simp add: valid_file_def file_close_def)

lemma append_ino_simps [simp]:
  "dir (append_ino i bs K) = dir K" "next_ino (append_ino i bs K) = next_ino K"
  "subdirs (append_ino i bs K) = subdirs K" "healthy (append_ino i bs K) = healthy K"
  "kernel_wf (append_ino i bs K) = kernel_wf K"
  "inodes (append_ino i bs K) j = (if j = i then inodes K i @ bs else inodes K j)"
  "append_ino i [] K = K"
  "append_ino i b (append_ino i a K) = append_ino i (a @ b) K"
  by (simp_all add: append_ino_def kernel_wf_def)

lemma sys_write_tail:
  assumes "healthy K" "o_ino d = i" "o_wr d" "o_append d \<or> o_pos d = length (inodes K i)"
  shows "sys_write bs d K = (Some (length bs),
    if bs = [] then d else d\<lparr>o_pos := length (inodes K i) + length bs\<rparr>, append_ino i bs K)"
proof -
  have "(if o_append d then length (inodes K i) else o_pos d) = length (inodes K i)" using assms(4) by auto
  with assms show ?thesis by (auto simp: sys_write_def Let_def append_ino_def)
qed

lemma file_write_tail:
  assumes "tail_handle f i K" "healthy K"
  obtains f' where "file_write bs f K = (length bs, f', append_ino i bs K)"
    "tail_handle f' i (append_ino i bs K)" "f_crc f' = crc32 (f_crc f) (Some bs)"
    "\<And>j. append_handle f j \<Longrightarrow> append_handle f' j" "file_readable f' = file_readable f"
proof -
  from assms(1) obtain d where d: "pf_fd (f_impl f) = Some d" "o_ino d = i" "o_wr d"
      "o_append d \<or> o_pos d = length (inodes K i)" "\<not> pf_closed (f_impl f)"
    by (auto simp: tail_handle_def pf_is_valid_def split: option.splits)
  let ?d = "if bs = [] then d else d\<lparr>o_pos := length (inodes K i) + length bs\<rparr>"
  have w: "sys_write bs d K = (Some (length bs), ?d, append_ino i bs K)"
    by (rule sys_write_tail [OF assms(2) d(2-4)])
  show thesis
    by (rule that [of "snd (snd (undefined, undefined, f))\<lparr>f_impl := (f_impl f)\<lparr>pf_fd :=
          Some ?d,
          pf_avail := (if of_nat (length bs) \<le> pf_avail (f_impl f)
            then pf_avail (f_impl f) - of_nat (length bs) else 0)\<rparr>,
          f_crc := crc32 (f_crc f) (Some bs)\<rparr>"])
      (use d w in \<open>auto simp: file_write_def pf_write_bytes_def tail_handle_def append_handle_def
        pf_is_valid_def file_readable_def\<close>)
qed

lemma crc32_Nil: "crc32 c (Some []) = c"
  by (simp add: crc32_def)

text \<open>the running CRC of a handle is the CRC of everything written through it, in order.\<close>

theorem file_crc_of_writes:
  "f_crc (fst (file_write_seq bss f K)) = crc32 (f_crc f) (Some (concat bss))"
proof (induction bss arbitrary: f K)
  case Nil
  then show ?case by (simp add: crc32_Nil)
next
  case (Cons b bss)
  have "f_crc (fst (snd (file_write b f K))) = crc32 (f_crc f) (Some b)"
    by (simp add: file_write_def split: prod.split)
  with Cons show ?case
    by (cases "file_write b f K") (simp add: crc32_append)
qed

text \<open>Appending through a handle, on a disk that may or may not take all the bytes: \<open>wrote i K bs K'\<close> says
  what of the bytes \<open>bs\<close> for the end of the file \<open>i\<close> has become of \<open>K\<close>.\<close>

locale append_medium =
  fixes good :: "kernel \<Rightarrow> bool"
    and wrote :: "nat \<Rightarrow> kernel \<Rightarrow> bytes \<Rightarrow> kernel \<Rightarrow> bool"
  assumes handle_write: "append_handle f i \<Longrightarrow> good K \<Longrightarrow>
      \<exists>n g K'. file_write bs f K = (n, g, K') \<and> append_handle g i \<and> wrote i K bs K'"
    and wrote_good: "wrote i K bs K' \<Longrightarrow> good K'"
    and wrote_nil: "good K \<Longrightarrow> wrote i K [] K"
    and wrote_append: "wrote i K xs K1 \<Longrightarrow> wrote i K1 ys K2 \<Longrightarrow> wrote i K (xs @ ys) K2"
begin

lemma write_seq:
  assumes "append_handle f i" "good K"
  obtains g K' where "file_write_seq bss f K = (g, K')" "append_handle g i" "wrote i K (concat bss) K'"
  using assms
proof (induction bss arbitrary: f K thesis)
  case Nil
  then show ?case by (simp add: wrote_nil)
next
  case (Cons b bss)
  obtain n g K1 where g: "file_write b f K = (n, g, K1)" "append_handle g i" "wrote i K b K1"
    using handle_write [OF Cons.prems(2,3)] by blast
  obtain h K2 where h: "file_write_seq bss g K1 = (h, K2)" "append_handle h i" "wrote i K1 (concat bss) K2"
    using Cons.IH [OF _ g(2) wrote_good [OF g(3)]] by blast
  show ?case
    using wrote_append [OF g(3) h(3)] g(1) h(1,2) by (intro Cons.prems(1)) auto
qed

end

interpretation sound: append_medium healthy "\<lambda>i K bs K'. healthy K \<and> K' = append_ino i bs K"
proof
  fix f i K bs
  assume f: "append_handle f i" "healthy K"
  then obtain g where "file_write bs f K = (length bs, g, append_ino i bs K)" "append_handle g i"
    using file_write_tail [OF append_handle_tail [OF f(1)] f(2)] by metis
  with f(2) show "\<exists>n g K'. file_write bs f K = (n, g, K') \<and> append_handle g i \<and>
      healthy K \<and> K' = append_ino i bs K" by blast
qed auto

lemma file_write_seq_tail:
  assumes "tail_handle f i K" "healthy K"
  obtains f' where "file_write_seq bss f K = (f', append_ino i (concat bss) K)"
    "tail_handle f' i (append_ino i (concat bss) K)"
    "\<And>j. append_handle f j \<Longrightarrow> append_handle f' j"
  using assms
proof (induction bss arbitrary: f K thesis)
  case Nil
  then show ?case by simp
next
  case (Cons b bss)
  from Cons.prems(2,3) obtain g where g: "file_write b f K = (length b, g, append_ino i b K)"
      "tail_handle g i (append_ino i b K)" "\<And>j. append_handle f j \<Longrightarrow> append_handle g j"
    by (rule file_write_tail [of f i K b]) blast
  moreover from Cons.prems(3) have "healthy (append_ino i b K)" by simp
  ultimately obtain f' where f': "file_write_seq bss g (append_ino i b K) =
        (f', append_ino i (concat bss) (append_ino i b K))"
      "tail_handle f' i (append_ino i (concat bss) (append_ino i b K))"
      "\<And>j. append_handle g j \<Longrightarrow> append_handle f' j"
    using Cons.IH by blast
  show ?case
    by (rule Cons.prems(1) [of f']) (use g f' in auto)
qed

section \<open>Opening\<close>

lemma fs_open_read:
  "fs_open p ModeRead K = (case dir K p of
      None \<Rightarrow> (None, K)
    | Some i \<Rightarrow> (Some \<lparr>f_impl = pf_new (open_desc i (posix_flags ModeRead)) K, f_crc = 0\<rparr>, K))"
  by (simp add: fs_open_def posix_open_read split: option.split)

lemma fs_open_read_handle:
  assumes "dir K p = Some i"
  obtains f where "fs_open p ModeRead K = (Some f, K)" "valid_file (Some f) = Some f"
    "file_readable f" "file_pos f = 0" "file_data K f = inodes K i"
  using assms
  by (intro that [of "\<lparr>f_impl = pf_new (open_desc i (posix_flags ModeRead)) K, f_crc = 0\<rparr>"])
    (auto simp: fs_open_read valid_file_def file_readable_def file_pos_def file_tell_def
      pf_tell_def file_data_def pf_new_def pf_is_valid_def open_desc_def posix_flags_def)

text \<open>Opening for appending creates a missing file, and leaves an existing one as it is.\<close>

definition create_ino :: "string \<Rightarrow> kernel \<Rightarrow> kernel" where
  "create_ino p K = (if dir K p = None
     then K\<lparr>dir := (dir K)(p \<mapsto> next_ino K), inodes := (inodes K)(next_ino K := []),
            next_ino := Suc (next_ino K)\<rparr>
     else K)"

lemma create_ino_simps [simp]:
  "healthy (create_ino p K) = healthy K" "subdirs (create_ino p K) = subdirs K"
  "dir (create_ino p K) p \<noteq> None"
  "q \<noteq> p \<Longrightarrow> dir (create_ino p K) q = dir K q"
  by (auto simp: create_ino_def)

lemma kernel_wf_create [simp]: "kernel_wf K \<Longrightarrow> kernel_wf (create_ino p K)"
  unfolding kernel_wf_def create_ino_def
  by (auto simp: inj_on_def less_Suc_eq dom_def) (metis nat_less_le)+

lemma contents_create:
  assumes "kernel_wf K"
  shows "contents (create_ino p K) q =
    (if q = p \<and> contents K p = None then Some [] else contents K q)"
proof -
  have "dir K q \<noteq> Some (next_ino K)" for q
    using assms unfolding kernel_wf_def by (metis nat_less_le)
  then show ?thesis
    by (cases "dir K q") (auto simp: contents_def create_ino_def)
qed

lemma fs_open_append:
  assumes "healthy K" "m = ModeAppend \<or> m = ModeReadAppend"
  obtains f i where "fs_open p m K = (Some f, create_ino p K)"
    "dir (create_ino p K) p = Some i" "append_handle f i" "file_pos f = 0"
proof -
  let ?i = "case dir K p of None \<Rightarrow> next_ino K | Some i \<Rightarrow> i"
  show thesis
    by (rule that [of "\<lparr>f_impl = pf_new (open_desc ?i (posix_flags m)) (create_ino p K), f_crc = 0\<rparr>" ?i])
      (use assms in \<open>auto simp: fs_open_def posix_open_def sys_open_def posix_flags_def create_ino_def
        append_handle_def pf_new_def pf_is_valid_def open_desc_def file_pos_def file_tell_def
        pf_tell_def Let_def split: option.splits\<close>)
qed

end
