(* ===== verification/RecordFormat.thy ===== *)
theory RecordFormat
  imports FileIO
begin

text \<open>
  The on-flash data of \<open>FileStore.h\<close>: the packed structs \<open>RecordHeader\<close>, \<open>RecordCommit\<close> and
  \<open>Journal\<close>, the entries of the index file, the 24-bit integers of the in-memory index, and the
  names of the store's files. Each struct is written as its little-endian memory image; the
  interface \<open>packed_struct\<close> says what reading it back gives.
\<close>

section \<open>Configuration and constants\<close>

definition WRITE_BUFFER_SIZE :: nat where "WRITE_BUFFER_SIZE = 512"
definition MAX_KEY_LEN :: nat where "MAX_KEY_LEN = 64"
definition MAX_VALUE_LEN :: nat where "MAX_VALUE_LEN = 1024"
definition MAX_FILENAME_LEN :: nat where "MAX_FILENAME_LEN = 64"
definition COMPACT_RETRY_MS :: u32 where "COMPACT_RETRY_MS = 60000"
definition COMPACT_THRESHOLD :: u32 where "COMPACT_THRESHOLD = 25"
definition DEFAULT_SEGMENT_COUNT :: u8 where "DEFAULT_SEGMENT_COUNT = 8"
definition DEFAULT_SEGMENT_SIZE :: u32 where "DEFAULT_SEGMENT_SIZE = 65536"

definition MAGIC_RECORD :: u32 where "MAGIC_RECORD = 0xC0DEC0DE"
definition MAGIC_COMMIT :: u32 where "MAGIC_COMMIT = 0xFACEB00C"
definition FLAG_DELETE :: u8 where "FLAG_DELETE = 1"
definition JOURNAL_MAGIC :: u32 where "JOURNAL_MAGIC = 0x4B564A4E"

datatype journal_state = JOURNAL_NONE | JOURNAL_COMPACTING | JOURNAL_COMMIT

primrec journal_state_code :: "journal_state \<Rightarrow> u32" where
  "journal_state_code JOURNAL_NONE = 0"
| "journal_state_code JOURNAL_COMPACTING = 1"
| "journal_state_code JOURNAL_COMMIT = 2"

lemma MAGIC_ne [simp]: "MAGIC_COMMIT \<noteq> MAGIC_RECORD" "MAGIC_RECORD \<noteq> MAGIC_COMMIT"
  by (simp_all add: MAGIC_RECORD_def MAGIC_COMMIT_def)

section \<open>Packed structs\<close>

locale packed_struct =
  fixes enc :: "'a \<Rightarrow> bytes" and dec :: "bytes \<Rightarrow> 'a" and width :: nat
  assumes enc_length: "length (enc x) = width"
    and dec_enc: "dec (enc x @ r) = x"
begin

lemma take_enc: "take width (enc x @ r) = enc x"
  by (simp add: enc_length)

lemma drop_enc: "drop width (enc x @ r) = r"
  by (simp add: enc_length)

lemma dec_take: "dec (take width (enc x @ r)) = x"
  unfolding take_enc using dec_enc [of x "[]"] by simp

lemma enc_inject: "enc x @ r = enc y @ s \<longleftrightarrow> x = y \<and> r = s"
  by (metis dec_enc drop_enc)

lemma short_read: "length (take width (take n (enc x @ r))) < width \<longleftrightarrow> n < width"
  by (auto simp: enc_length min_def)

end

record record_header =
  rh_magic :: u32
  rh_flags :: u8
  rh_key_len :: u8
  rh_length :: u16
  rh_timestamp :: u32
  rh_ttl :: u32
  rh_priority :: u8
  rh_crc :: u32

record journal =
  j_magic :: u32
  j_state :: u32
  j_next_seg :: u32
  j_tmp_valid_size :: u32

definition HEADER_SIZE :: nat where "HEADER_SIZE = 21"
definition COMMIT_SIZE :: nat where "COMMIT_SIZE = 4"
definition JOURNAL_SIZE :: nat where "JOURNAL_SIZE = 16"

definition enc_header :: "record_header \<Rightarrow> bytes" where
  "enc_header h = le32 (rh_magic h) @ [rh_flags h] @ [rh_key_len h] @ le16 (rh_length h) @
     le32 (rh_timestamp h) @ le32 (rh_ttl h) @ [rh_priority h] @ le32 (rh_crc h)"

definition dec_header :: "bytes \<Rightarrow> record_header" where
  "dec_header bs = \<lparr>rh_magic = of_le32 bs, rh_flags = bs ! 4, rh_key_len = bs ! 5,
     rh_length = of_le16 (drop 6 bs), rh_timestamp = of_le32 (drop 8 bs),
     rh_ttl = of_le32 (drop 12 bs), rh_priority = bs ! 16, rh_crc = of_le32 (drop 17 bs)\<rparr>"

definition enc_commit :: "u32 \<Rightarrow> bytes" where
  "enc_commit m = le32 m"

definition dec_commit :: "bytes \<Rightarrow> u32" where
  "dec_commit bs = of_le32 bs"

definition enc_journal :: "journal \<Rightarrow> bytes" where
  "enc_journal j = le32 (j_magic j) @ le32 (j_state j) @ le32 (j_next_seg j) @ le32 (j_tmp_valid_size j)"

definition dec_journal :: "bytes \<Rightarrow> journal" where
  "dec_journal bs = \<lparr>j_magic = of_le32 bs, j_state = of_le32 (drop 4 bs),
     j_next_seg = of_le32 (drop 8 bs), j_tmp_valid_size = of_le32 (drop 12 bs)\<rparr>"

lemma of_le32_image:
  "of_le32 (ucast w # ucast (drop_bit 8 w) # ucast (drop_bit 16 w) # ucast (drop_bit 24 w) # r) = w"
  using of_le32_le32 [of w r] by (simp only: le32_def append.simps)

lemma of_le16_image: "of_le16 (ucast w # ucast (drop_bit 8 w) # r) = w"
  using of_le16_le16 [of w r] by (simp only: le16_def append.simps)

interpretation hdr: packed_struct enc_header dec_header HEADER_SIZE
proof
  fix x :: record_header and r
  show "length (enc_header x) = HEADER_SIZE" by (simp add: enc_header_def HEADER_SIZE_def)
  show "dec_header (enc_header x @ r) = x"
    by (simp add: enc_header_def dec_header_def le32_def le16_def of_le32_image of_le16_image
        del: of_le32.simps of_le16.simps)
qed

interpretation commit: packed_struct enc_commit dec_commit COMMIT_SIZE
  by unfold_locales (simp_all add: enc_commit_def dec_commit_def COMMIT_SIZE_def)

interpretation jrn: packed_struct enc_journal dec_journal JOURNAL_SIZE
  by unfold_locales (simp_all add: enc_journal_def dec_journal_def JOURNAL_SIZE_def le32_def
      of_le32_image del: of_le32.simps)

text \<open>a record header survives its trip through flash: decoding the packed image gives it back, whatever
  follows.\<close>

theorem header_roundtrip: "dec_header (take HEADER_SIZE (enc_header h @ rest)) = h"
  by (rule hdr.dec_take)

section \<open>24-bit index fields\<close>

record uint24 =
  b0 :: u8
  b1 :: u8
  b2 :: u8

definition u24_get :: "uint24 \<Rightarrow> u32" where
  "u24_get u = ucast (b0 u) OR push_bit 8 (ucast (b1 u)) OR push_bit 16 (ucast (b2 u))"

definition u24_set :: "u32 \<Rightarrow> uint24" where
  "u24_set v = \<lparr>b0 = ucast (v AND 0xff), b1 = ucast (drop_bit 8 v AND 0xff),
     b2 = ucast (drop_bit 16 v AND 0xff)\<rparr>"

record index_value =
  iv_segment :: u8
  iv_offset :: uint24
  iv_timestamp :: u32
  iv_ttl :: uint24
  iv_priority :: u8

lemma u24_get_set_take: "u24_get (u24_set v) = take_bit 24 v"
proof (rule bit_word_eqI)
  fix n assume "n < LENGTH(32)"
  have m: "(0xff :: u32) = mask 8" by (simp add: mask_eq_exp_minus_1)
  consider "n < 8" | "8 \<le> n" "n < 16" | "16 \<le> n" "n < 24" | "24 \<le> n" by fastforce
  then show "bit (u24_get (u24_set v)) n = bit (take_bit 24 v) n"
    by cases (auto simp: u24_get_def u24_set_def m bit_simps)
qed

text \<open>a 32-bit value stored in an index entry is kept modulo \<open>2 ^ 24\<close>.\<close>

theorem uint24_wraps: "unat (u24_get (u24_set v)) = unat v mod 2 ^ 24"
  unfolding u24_get_set_take unsigned_take_bit_eq by (rule take_bit_eq_mod)

lemma unat_u24_get_set: "unat (u24_get (u24_set v)) = unat v mod 2 ^ 24"
  unfolding u24_get_set_take unsigned_take_bit_eq by (rule take_bit_eq_mod)

lemma u24_get_set [simp]: "unat v < 2 ^ 24 \<Longrightarrow> u24_get (u24_set v) = v"
  by (simp only: word_unat_eq_iff unat_u24_get_set mod_less)

lemma u24_get_less: "unat (u24_get u) < 2 ^ 24"
proof -
  have "take_bit 24 (u24_get u) = u24_get u"
  proof (rule bit_word_eqI)
    fix n assume "n < LENGTH(32)"
    then show "bit (take_bit 24 (u24_get u)) n = bit (u24_get u) n"
      by (auto simp: u24_get_def bit_simps dest: bit_imp_le_length)
  qed
  then have "unat (u24_get u) = unat (u24_get u) mod 2 ^ 24"
    by (metis unsigned_take_bit_eq take_bit_eq_mod)
  then show ?thesis by (metis mod_less_divisor zero_less_numeral zero_less_power)
qed

definition make_index_value :: "u32 \<Rightarrow> u32 \<Rightarrow> u32 \<Rightarrow> u32 \<Rightarrow> u8 \<Rightarrow> index_value" where
  "make_index_value seg off ts ttl priority = \<lparr>iv_segment = ucast seg, iv_offset = u24_set off,
     iv_timestamp = ts, iv_ttl = u24_set ttl, iv_priority = priority\<rparr>"

section \<open>Records\<close>

text \<open>The CRC field covers the header without the CRC itself, then the key, then the value.\<close>

definition header_crc :: "record_header \<Rightarrow> bytes \<Rightarrow> bytes \<Rightarrow> u32" where
  "header_crc h key data =
     crc32 (crc32 (crc32 0 (Some (take (HEADER_SIZE - 4) (enc_header h)))) (Some key)) (Some data)"

definition put_header :: "bytes \<Rightarrow> bytes \<Rightarrow> u32 \<Rightarrow> u32 \<Rightarrow> u8 \<Rightarrow> record_header" where
  "put_header key data ttl ts priority =
     (let h = \<lparr>rh_magic = MAGIC_RECORD, rh_flags = 0, rh_key_len = of_nat (length key),
                rh_length = of_nat (length data), rh_timestamp = ts, rh_ttl = ttl,
                rh_priority = priority, rh_crc = 0\<rparr>
      in h\<lparr>rh_crc := header_crc h key data\<rparr>)"

text \<open>\<open>remove\<close> leaves \<open>ttl\<close> and \<open>priority\<close> of its header uninitialised: they are arguments here.\<close>

definition tombstone_header :: "u32 \<Rightarrow> u8 \<Rightarrow> bytes \<Rightarrow> record_header" where
  "tombstone_header junk_ttl junk_priority key =
     (let h = \<lparr>rh_magic = MAGIC_RECORD, rh_flags = FLAG_DELETE, rh_key_len = of_nat (length key),
                rh_length = 0, rh_timestamp = 0, rh_ttl = junk_ttl,
                rh_priority = junk_priority, rh_crc = 0\<rparr>
      in h\<lparr>rh_crc := crc32 (crc32 0 (Some (take (HEADER_SIZE - 4) (enc_header h)))) (Some key)\<rparr>)"

definition enc_record :: "record_header \<Rightarrow> bytes \<Rightarrow> bytes \<Rightarrow> bytes" where
  "enc_record h key data = enc_header h @ key @ data @ enc_commit MAGIC_COMMIT"

lemma put_header_simps [simp]:
  "rh_magic (put_header k d ttl ts p) = MAGIC_RECORD" "rh_flags (put_header k d ttl ts p) = 0"
  "rh_key_len (put_header k d ttl ts p) = of_nat (length k)"
  "rh_length (put_header k d ttl ts p) = of_nat (length d)"
  "rh_timestamp (put_header k d ttl ts p) = ts" "rh_ttl (put_header k d ttl ts p) = ttl"
  "rh_priority (put_header k d ttl ts p) = p"
  by (simp_all add: put_header_def Let_def)

lemma tombstone_header_simps [simp]:
  "rh_magic (tombstone_header t p k) = MAGIC_RECORD" "rh_flags (tombstone_header t p k) = FLAG_DELETE"
  "rh_key_len (tombstone_header t p k) = of_nat (length k)" "rh_length (tombstone_header t p k) = 0"
  by (simp_all add: tombstone_header_def Let_def)

lemma length_enc_record [simp]:
  "length (enc_record h k d) = HEADER_SIZE + length k + length d + COMMIT_SIZE"
  by (simp add: enc_record_def hdr.enc_length commit.enc_length)

section \<open>Index-file entries\<close>

definition INDEX_DELETED :: u32 where "INDEX_DELETED = 0xFFFFFFFF"

text \<open>The seven writes of one index entry.\<close>

definition index_entry_writes :: "bytes \<Rightarrow> u32 \<Rightarrow> u32 \<Rightarrow> u32 \<Rightarrow> u32 \<Rightarrow> u8 \<Rightarrow> bytes list" where
  "index_entry_writes key seg off ts ttl priority =
     [[of_nat (length key)], key, le32 seg, le32 off, le32 ts, le32 ttl, [priority]]"

section \<open>File names\<close>

definition digit_char :: "nat \<Rightarrow> char" where
  "digit_char d = char_of (48 + d)"

text \<open>\<open>%u\<close> of an unsigned number.\<close>

fun show_u :: "nat \<Rightarrow> string" where
  "show_u n = (if n < 10 then [digit_char n] else show_u (n div 10) @ [digit_char (n mod 10)])"

declare show_u.simps [simp del]

text \<open>\<open>snprintf\<close> into a buffer of \<open>USTORE_MAX_FILENAME_LEN\<close> bytes keeps one byte for the NUL.\<close>

definition c_buffer :: "string \<Rightarrow> string" where
  "c_buffer s = take (MAX_FILENAME_LEN - 1) s"

definition prefix_sep :: "string \<Rightarrow> string" where
  "prefix_sep base_prefix = (if base_prefix \<noteq> [] \<and> last base_prefix = CHR ''/'' then [] else ''_'')"

definition segment_name :: "string \<Rightarrow> nat \<Rightarrow> string" where
  "segment_name base_prefix n =
     c_buffer (base_prefix @ prefix_sep base_prefix @ ''seg'' @ show_u n @ ''.dat'')"

definition index_name :: "string \<Rightarrow> string" where
  "index_name base_prefix = c_buffer (base_prefix @ prefix_sep base_prefix @ ''index.dat'')"

definition journal_name :: "string \<Rightarrow> string" where
  "journal_name base_prefix = c_buffer (base_prefix @ prefix_sep base_prefix @ ''journal.dat'')"

definition tmp_name :: "string \<Rightarrow> string" where
  "tmp_name base_prefix = c_buffer (base_prefix @ prefix_sep base_prefix @ ''compact.tmp'')"

lemma digit_char_inj: "a < 10 \<Longrightarrow> b < 10 \<Longrightarrow> digit_char a = digit_char b \<longleftrightarrow> a = b"
  unfolding digit_char_def char_of_eq_iff of_char_of by (simp add: take_bit_eq_mod)

lemma show_u_not_Nil [simp]: "show_u n \<noteq> []"
  by (subst show_u.simps) simp

lemma show_u_inj: "show_u m = show_u n \<Longrightarrow> m = n"
proof (induction m arbitrary: n rule: show_u.induct)
  case (1 m)
  show ?case
  proof (cases "m < 10")
    case True
    show ?thesis
    proof (cases "n < 10")
      case nlt: True
      with True 1(2) show ?thesis
        by (simp add: show_u.simps [of m] show_u.simps [of n] digit_char_inj)
    next
      case False
      with True 1(2) show_u_not_Nil [of "n div 10"] show ?thesis
        by (simp add: show_u.simps [of m] show_u.simps [of n] del: show_u_not_Nil)
    qed
  next
    case False
    then have "\<not> n < 10" using 1(2) by (auto simp: show_u.simps [of m] show_u.simps [of n])
    with 1(2) False have "show_u (m div 10) = show_u (n div 10)"
        "digit_char (m mod 10) = digit_char (n mod 10)"
      by (simp_all add: show_u.simps [of m] show_u.simps [of n])
    with 1(1) [OF False] have "m div 10 = n div 10" "m mod 10 = n mod 10"
      by (auto simp: digit_char_inj)
    then show ?thesis by (metis div_mult_mod_eq)
  qed
qed

lemma length_show_u: "n < 256 \<Longrightarrow> length (show_u n) \<le> 3"
  by (simp add: show_u.simps [of n] show_u.simps [of "n div 10"] show_u.simps [of "n div 10 div 10"])

text \<open>Prefixes of at most 51 bytes leave every generated name uncut.\<close>

definition prefix_ok :: "string \<Rightarrow> bool" where
  "prefix_ok p \<longleftrightarrow> length p \<le> 51"

lemma length_prefix_sep: "length (prefix_sep p) \<le> 1"
  by (simp add: prefix_sep_def)

lemma names_uncut:
  assumes "prefix_ok p"
  shows "index_name p = p @ prefix_sep p @ ''index.dat''"
    and "journal_name p = p @ prefix_sep p @ ''journal.dat''"
    and "tmp_name p = p @ prefix_sep p @ ''compact.tmp''"
    and "i < 256 \<Longrightarrow> segment_name p i = p @ prefix_sep p @ ''seg'' @ show_u i @ ''.dat''"
  using assms length_prefix_sep [of p] length_show_u [of i]
  by (simp_all add: prefix_ok_def index_name_def journal_name_def tmp_name_def segment_name_def
      c_buffer_def MAX_FILENAME_LEN_def)

text \<open>The files of a store have different names: the segments among each other, and the index, the journal
  and the temporary file.\<close>

theorem file_names_distinct:
  assumes "prefix_ok p" "i < 256" "j < 256"
  shows "(segment_name p i = segment_name p j \<longleftrightarrow> i = j) \<and>
    distinct [index_name p, journal_name p, tmp_name p, segment_name p i]"
  using assms show_u_inj [of i j] by (auto simp: names_uncut)

theorem file_names_distinct_witness:
  "distinct [index_name ''data/'', journal_name ''data/'', tmp_name ''data/'', segment_name ''data/'' 7]"
  using file_names_distinct [of "''data/''" 7 7] by (simp add: prefix_ok_def)

text \<open>From 60 bytes on, the name of every segment is cut before its number, so that all segments
  share one file.\<close>

lemma long_prefix_collides: "60 \<le> length p \<Longrightarrow> segment_name p i = segment_name p j"
  by (auto simp: segment_name_def prefix_sep_def c_buffer_def MAX_FILENAME_LEN_def take_Cons'
      Suc_diff_le)

section \<open>Lengths of vector arguments\<close>

text \<open>The vector overloads cast the size of a key to \<open>uint8_t\<close> and the size of a value to \<open>uint16_t\<close>
  before the store checks them.\<close>

definition narrow8 :: "bytes \<Rightarrow> bytes" where
  "narrow8 k = take (unat (of_nat (length k) :: u8)) k"

definition narrow16 :: "bytes \<Rightarrow> bytes" where
  "narrow16 d = take (unat (of_nat (length d) :: u16)) d"

lemma narrow_id [simp]:
  "length k < 256 \<Longrightarrow> narrow8 k = k" "length d < 65536 \<Longrightarrow> narrow16 d = d"
  by (simp_all add: narrow8_def narrow16_def unat_of_nat)

text \<open>the length of a vector key is taken modulo 256: a key and the same key with 256 more bytes name the
  same record, and no error is reported.\<close>

theorem long_keys_collide:
  assumes "length suffix = 256"
  shows "narrow8 (k @ suffix) = narrow8 k"
proof -
  have u: "unat (of_nat n :: u8) = n mod 256" for n by (simp add: unat_of_nat)
  have "length k mod 256 \<le> length k" by simp
  then show ?thesis using assms by (simp add: narrow8_def u del: mod_less_eq_dividend of_nat_add)
qed

theorem long_keys_collide_witness:
  "narrow8 ([7, 8] @ replicate 256 9) = narrow8 [7, 8]"
  by (rule long_keys_collide) simp

end
