(* ===== verification/Codec.thy ===== *)
theory Codec
  imports Prelude
begin

text \<open>
  \<open>Codec.h\<close>: how keys and values of a typed store become byte vectors. A \<open>Codec<T>\<close> is a pair of static
  functions; the typed stores take two of them as template parameters. The contract they rely on, a
  round trip, is the locale \<open>codec\<close>, and the codecs for \<open>std::string\<close> and \<open>std::vector<uint8_t>\<close> are its
  instances. The codec for \<open>char*\<close> writes into a buffer of the caller and is stated on its memory.
\<close>

record 'a codec =
  enc :: "'a \<Rightarrow> bytes"
  dec :: "bytes \<Rightarrow> 'a option"

locale codec =
  fixes C :: "'a codec"
  assumes dec_enc: "dec C (enc C x) = Some x"
begin

lemma enc_inj: "enc C x = enc C y \<longleftrightarrow> x = y"
  using dec_enc by (metis option.inject)

end

section \<open>std::string and std::vector\<close>

definition string_encode :: "string \<Rightarrow> bytes" where
  "string_encode s = map (\<lambda>c. of_nat (of_char c)) s"

definition string_decode :: "bytes \<Rightarrow> string option" where
  "string_decode data = Some (map (\<lambda>b. char_of (unat b)) data)"

definition vector_encode :: "bytes \<Rightarrow> bytes" where
  "vector_encode vec = vec"

definition vector_decode :: "bytes \<Rightarrow> bytes option" where
  "vector_decode data = Some data"

definition string_codec :: "string codec" where
  "string_codec = \<lparr>enc = string_encode, dec = string_decode\<rparr>"

definition vector_codec :: "bytes codec" where
  "vector_codec = \<lparr>enc = vector_encode, dec = vector_decode\<rparr>"

lemma char_byte_char: "char_of (unat (of_nat (of_char c) :: u8)) = c"
  by (simp add: unat_of_nat)

lemma byte_char_byte: "(of_nat (of_char (char_of (unat b) :: char)) :: u8) = b"
  by simp

interpretation str_codec: codec string_codec
  by unfold_locales
    (simp add: string_codec_def string_encode_def string_decode_def comp_def char_byte_char)

interpretation vec_codec: codec vector_codec
  by unfold_locales (simp add: vector_codec_def vector_encode_def vector_decode_def)

text \<open>every string survives the codec, and every byte vector is the encoding of the string it decodes
  to: \<open>Codec<std::string>\<close> is a bijection between strings and byte vectors.\<close>

theorem string_codec_bijective:
  "string_decode (string_encode s) = Some s \<and> string_encode (the (string_decode data)) = data"
  by (simp add: string_encode_def string_decode_def comp_def char_byte_char byte_char_byte)

section \<open>char*\<close>

text \<open>A C string is the memory from its first byte; \<open>strlen\<close> counts the bytes before the first 0.\<close>

definition c_strlen :: "bytes \<Rightarrow> nat" where
  "c_strlen mem = length (takeWhile (\<lambda>b. b \<noteq> 0) mem)"

definition cstr_encode :: "bytes \<Rightarrow> bytes" where
  "cstr_encode mem = take (c_strlen mem) mem"

text \<open>\<open>decode\<close> copies into the buffer of the caller and terminates the copy. The room for the copy is
  \<open>len - 1\<close> in \<open>size_t\<close>: for a buffer of length 0 it is the largest \<open>size_t\<close>, and everything is
  written. The first result is the number of bytes written.\<close>

definition cstr_decode :: "bytes \<Rightarrow> bytes \<Rightarrow> u64 \<Rightarrow> nat \<times> bytes" where
  "cstr_decode data mem len =
     (let n = min (length data) (unat (len - 1))
      in (Suc n, take n data @ [0] @ drop (Suc n) mem))"

lemma cstr_encode_takeWhile: "cstr_encode mem = takeWhile (\<lambda>b. b \<noteq> 0) mem"
  by (simp add: cstr_encode_def c_strlen_def takeWhile_eq_take [symmetric])

lemma takeWhile_then_zero:
  "takeWhile (\<lambda>b. b \<noteq> 0) (xs @ [0] @ ys) = takeWhile (\<lambda>b. b \<noteq> (0 :: u8)) xs"
  by (induction xs) simp_all

text \<open>Decoding writes within a buffer of length at least 1, leaves the rest of it alone, and the C string
  in the buffer is the data up to its first 0, cut to leave room for the terminator.\<close>

theorem cstr_decode_bounds:
  assumes "0 < unat len" "unat len \<le> length mem"
  shows "fst (cstr_decode data mem len) \<le> unat len \<and>
    length (snd (cstr_decode data mem len)) = length mem \<and>
    drop (unat len) (snd (cstr_decode data mem len)) = drop (unat len) mem \<and>
    cstr_encode (snd (cstr_decode data mem len)) =
      takeWhile (\<lambda>b. b \<noteq> 0) (take (unat len - 1) data)"
proof -
  define n where "n = min (length data) (unat len - 1)"
  have u: "unat (len - 1) = unat len - 1"
    using assms(1) by (metis unat_minus_one unat_gt_0)
  have n: "n < unat len" "n \<le> length data" "take n data = take (unat len - 1) data"
    using assms(1) by (auto simp: n_def min_def)
  have r: "cstr_decode data mem len = (Suc n, take n data @ [0] @ drop (Suc n) mem)"
    by (simp add: cstr_decode_def Let_def u n_def)
  have "drop (unat len) (take n data @ [0] @ drop (Suc n) mem) = drop (unat len) mem"
    using n(1,2) by (simp add: drop_Cons' min_def)
  moreover have "cstr_encode (take n data @ [0] @ drop (Suc n) mem) =
      takeWhile (\<lambda>b. b \<noteq> 0) (take (unat len - 1) data)"
    unfolding n(3) cstr_encode_takeWhile by (rule takeWhile_then_zero)
  moreover have "length (take n data @ [0] @ drop (Suc n) mem) = length mem"
    using n(1,2) assms(2) by simp
  ultimately show ?thesis using n(1) by (simp add: r)
qed

theorem cstr_decode_bounds_witness:
  "cstr_encode (snd (cstr_decode [104, 105, 106] [9, 9, 9, 9] 3)) = [104, 105]"
  using cstr_decode_bounds [of 3 "[9, 9, 9, 9]" "[104, 105, 106]"] by simp

text \<open>a buffer length of 0 makes \<open>decode\<close> write the whole data and a terminator: past the end of any
  buffer that is not longer than the data.\<close>

theorem cstr_decode_zero_overflows:
  assumes "length mem \<le> length data" "length data < 2 ^ 64"
  shows "fst (cstr_decode data mem 0) > length mem"
proof -
  have "unat (- 1 :: u64) = 2 ^ 64 - 1" by (simp add: unsigned_minus_1_eq_mask mask_eq_exp_minus_1)
  with assms show ?thesis by (simp add: cstr_decode_def Let_def min_def)
qed

theorem cstr_decode_zero_overflows_witness:
  "fst (cstr_decode [104, 105] [9] 0) > length [9 :: u8]"
  by (rule cstr_decode_zero_overflows) simp_all

end
