(* ===== verification/KvStore.thy ===== *)
theory KvStore
  imports RecordFormat Codec
begin

text \<open>
  The interface between the typed stores and the store below them. \<open>TypedStore\<close> and \<open>TypedTieredStore\<close>
  are templates over a \<open>Store\<close>: they call its \<open>isValid\<close>, its vector overloads of \<open>put\<close>, \<open>get\<close>, \<open>remove\<close> and
  \<open>exists\<close>, its \<open>size\<close> and \<open>clear\<close>, and its iterator. The record \<open>backend\<close> holds these operations; the locale
  \<open>kv_store\<close> states what a typed store may rely on: the store behaves as a map from byte keys to byte
  values, as seen at the time of the call. \<open>HeapStore\<close> and \<open>FileStore\<close> provide it.
\<close>

record 's backend =
  b_valid :: "'s \<Rightarrow> bool"
  b_put :: "clock \<Rightarrow> bytes \<Rightarrow> bytes \<Rightarrow> u32 \<Rightarrow> u32 \<Rightarrow> u8 \<Rightarrow> 's \<Rightarrow> bool \<times> 's"
  b_get :: "clock \<Rightarrow> bytes \<Rightarrow> 's \<Rightarrow> bytes option \<times> 's"
  b_remove :: "clock \<Rightarrow> bytes \<Rightarrow> 's \<Rightarrow> bool \<times> 's"
  b_exists :: "clock \<Rightarrow> bytes \<Rightarrow> 's \<Rightarrow> bool \<times> 's"
  b_size :: "'s \<Rightarrow> nat"
  b_clear :: "'s \<Rightarrow> 's"
  b_entries :: "'s \<Rightarrow> (bytes \<times> bytes) list \<times> 's"

definition key_fits :: "bytes \<Rightarrow> bool" where
  "key_fits k \<longleftrightarrow> 0 < length k \<and> length k \<le> MAX_KEY_LEN"

definition value_fits :: "bytes \<Rightarrow> bool" where
  "value_fits v \<longleftrightarrow> length v \<le> MAX_VALUE_LEN"

text \<open>The contract. \<open>inv\<close> is the invariant of the store, \<open>room\<close> the bound below which it takes another
  write, and \<open>view\<close> what it shows at a time.\<close>

locale kv_store =
  fixes B :: "'s backend"
    and inv :: "'s \<Rightarrow> bool"
    and room :: "'s \<Rightarrow> bool"
    and view :: "clock \<Rightarrow> 's \<Rightarrow> (bytes \<Rightarrow> bytes option)"
  assumes valid: "inv s \<Longrightarrow> b_valid B s"
    and put: "inv s \<Longrightarrow> room s \<Longrightarrow> key_fits k \<Longrightarrow> value_fits v \<Longrightarrow>
      fst (b_put B clk k v ttl (clk_time clk) pr s) \<and>
      inv (snd (b_put B clk k v ttl (clk_time clk) pr s)) \<and>
      view clk (snd (b_put B clk k v ttl (clk_time clk) pr s)) = (view clk s)(k \<mapsto> v)"
    and get: "inv s \<Longrightarrow> key_fits k \<Longrightarrow>
      fst (b_get B clk k s) = view clk s k \<and> inv (snd (b_get B clk k s)) \<and>
      view clk (snd (b_get B clk k s)) = view clk s \<and> (room s \<longrightarrow> room (snd (b_get B clk k s)))"
    and remove: "inv s \<Longrightarrow> room s \<Longrightarrow> key_fits k \<Longrightarrow>
      fst (b_remove B clk k s) \<and> inv (snd (b_remove B clk k s)) \<and>
      view clk (snd (b_remove B clk k s)) = (view clk s)(k := None)"
    and exists: "inv s \<Longrightarrow> key_fits k \<Longrightarrow>
      (view clk s k \<noteq> None \<longrightarrow> fst (b_exists B clk k s)) \<and> inv (snd (b_exists B clk k s)) \<and>
      view clk (snd (b_exists B clk k s)) = view clk s \<and>
      (room s \<longrightarrow> room (snd (b_exists B clk k s)))"
    and entries: "inv s \<Longrightarrow> distinct_keys (fst (b_entries B s)) \<and>
      (\<forall>k v. view clk s k = Some v \<longrightarrow> (k, v) \<in> set (fst (b_entries B s)))"
begin

lemma get_after_put:
  "inv s \<Longrightarrow> room s \<Longrightarrow> key_fits k \<Longrightarrow> value_fits v \<Longrightarrow>
   fst (b_get B clk k (snd (b_put B clk k v ttl (clk_time clk) pr s))) = Some v"
  using put [of s k v clk ttl pr] get [of "snd (b_put B clk k v ttl (clk_time clk) pr s)" k clk] by simp

lemma get_after_put_other:
  "inv s \<Longrightarrow> room s \<Longrightarrow> key_fits k \<Longrightarrow> value_fits v \<Longrightarrow> key_fits k' \<Longrightarrow> k' \<noteq> k \<Longrightarrow>
   fst (b_get B clk k' (snd (b_put B clk k v ttl (clk_time clk) pr s))) = fst (b_get B clk k' s)"
  using put [of s k v clk ttl pr] get [of "snd (b_put B clk k v ttl (clk_time clk) pr s)" k' clk]
    get [of s k' clk] by simp

lemma entries_complete:
  "inv s \<Longrightarrow> key_fits k \<Longrightarrow> fst (b_get B clk k s) = Some v \<Longrightarrow> (k, v) \<in> set (fst (b_entries B s))"
  using entries get by metis

lemma get_after_remove:
  "inv s \<Longrightarrow> room s \<Longrightarrow> key_fits k \<Longrightarrow> key_fits k' \<Longrightarrow>
   fst (b_get B clk k' (snd (b_remove B clk k s))) = (if k' = k then None else fst (b_get B clk k' s))"
  using remove [of s k clk] get [of "snd (b_remove B clk k s)" k' clk] get [of s k' clk] by simp

end

text \<open>A store whose \<open>exists\<close> also respects the TTL answers exactly whether a \<open>get\<close> would succeed.\<close>

locale kv_store_ttl = kv_store +
  assumes exists_view: "inv s \<Longrightarrow> key_fits k \<Longrightarrow> fst (b_exists B clk k s) \<longleftrightarrow> view clk s k \<noteq> None"
begin

lemma exists_iff_get:
  "inv s \<Longrightarrow> key_fits k \<Longrightarrow> fst (b_exists B clk k s) \<longleftrightarrow> fst (b_get B clk k s) \<noteq> None"
  using exists_view get by metis

end

end
