(* ===== verification/TieredStore.thy ===== *)
theory TieredStore
  imports KvStore "HOL-Library.Monad_Syntax"
begin

text \<open>
  \<open>TypedTieredStore.h\<close>: a write-back cache (L1) of ten slots in front of a byte store (L2). The slots are
  an array; a hash table of bucket heads and the \<open>hash_next\<close> fields chains them by key, and \<open>prev\<close> and
  \<open>next\<close> link them in the order of use. Indices are natural numbers, \<open>INVALID\<close> is 0xFFFF, an index
  computed as \<open>int16_t\<close> with -1 for "none" is an option. The two loops that follow chains would not end
  on a cyclic chain: they are partial functions, and every operation that uses them has the result
  \<open>None\<close> when it does not return.
\<close>

section \<open>State\<close>

definition L1_CACHE_SIZE :: nat where "L1_CACHE_SIZE = 10"

definition L1_HASH_BUCKETS :: nat where
  "L1_HASH_BUCKETS =
     (if L1_CACHE_SIZE \<le> 5 then 11 else if L1_CACHE_SIZE \<le> 10 then 23 else if L1_CACHE_SIZE \<le> 20 then 47
      else if L1_CACHE_SIZE \<le> 50 then 101 else if L1_CACHE_SIZE \<le> 100 then 211
      else L1_CACHE_SIZE * 2 + 1)"

definition INVALID :: nat where "INVALID = 0xFFFF"

record ('k, 'v) slot =
  sl_key :: 'k
  sl_value :: 'v
  sl_expires_at :: u32
  sl_priority :: u8
  sl_prev :: nat
  sl_next :: nat
  sl_hash_next :: nat
  sl_valid :: bool
  sl_dirty :: bool
  sl_in_l2 :: bool

record ('k, 'v, 's) tier =
  t_slots :: "('k, 'v) slot list"
  t_buckets :: "nat list"
  t_head :: nat
  t_tail :: nat
  t_store :: 's

text \<open>The template parameters: the store below, the codecs, the hash function, and the default-constructed
  key and value.\<close>

record ('k, 'v, 's) tier_params =
  tp_store :: "'s backend"
  tp_key :: "'k codec"
  tp_value :: "'v codec"
  tp_hash :: "'k \<Rightarrow> nat"
  tp_key0 :: 'k
  tp_value0 :: 'v

definition empty_slot :: "('k, 'v, 's) tier_params \<Rightarrow> ('k, 'v) slot" where
  "empty_slot C = \<lparr>sl_key = tp_key0 C, sl_value = tp_value0 C, sl_expires_at = 0, sl_priority = 0,
     sl_prev = INVALID, sl_next = INVALID, sl_hash_next = INVALID, sl_valid = False, sl_dirty = False,
     sl_in_l2 = False\<rparr>"

definition reset_l1 :: "('k, 'v, 's) tier_params \<Rightarrow> ('k, 'v, 's) tier \<Rightarrow> ('k, 'v, 's) tier" where
  "reset_l1 C t = t\<lparr>t_slots := replicate L1_CACHE_SIZE (empty_slot C), t_head := INVALID, t_tail := INVALID,
     t_buckets := replicate L1_HASH_BUCKETS INVALID\<rparr>"

definition tier_new :: "('k, 'v, 's) tier_params \<Rightarrow> 's \<Rightarrow> ('k, 'v, 's) tier" where
  "tier_new C st = reset_l1 C \<lparr>t_slots = [], t_buckets = [], t_head = INVALID, t_tail = INVALID, t_store = st\<rparr>"

definition tier_valid :: "('k, 'v, 's) tier_params \<Rightarrow> ('k, 'v, 's) tier \<Rightarrow> bool" where
  "tier_valid C t = b_valid (tp_store C) (t_store t)"

definition upd_slot :: "nat \<Rightarrow> (('k, 'v) slot \<Rightarrow> ('k, 'v) slot) \<Rightarrow> ('k, 'v, 's) tier \<Rightarrow> ('k, 'v, 's) tier" where
  "upd_slot i f t = t\<lparr>t_slots := (t_slots t)[i := f (t_slots t ! i)]\<rparr>"

section \<open>Time to live\<close>

definition expires_at :: "clock \<Rightarrow> u32 \<Rightarrow> u32" where
  "expires_at clk ttl = (if ttl = 0 then 0 else clk_time clk + ttl)"

definition slot_expired :: "clock \<Rightarrow> ('k, 'v) slot \<Rightarrow> bool" where
  "slot_expired clk s \<longleftrightarrow> sl_expires_at s \<noteq> 0 \<and> clk_time clk \<ge> sl_expires_at s"

definition remaining_ttl :: "clock \<Rightarrow> ('k, 'v) slot \<Rightarrow> u32" where
  "remaining_ttl clk s =
     (if sl_expires_at s = 0 then 0
      else let now = clk_time clk in if sl_expires_at s > now then sl_expires_at s - now else 1)"

section \<open>The hash table\<close>

definition l1_bucket :: "('k, 'v, 's) tier_params \<Rightarrow> 'k \<Rightarrow> nat" where
  "l1_bucket C key = tp_hash C key mod L1_HASH_BUCKETS"

partial_function (option) find_from :: "('k, 'v) slot list \<Rightarrow> 'k \<Rightarrow> nat \<Rightarrow> nat option option" where
  "find_from ss key idx =
     (if idx = INVALID then Some None
      else if sl_valid (ss ! idx) \<and> sl_key (ss ! idx) = key then Some (Some idx)
      else find_from ss key (sl_hash_next (ss ! idx)))"

definition find_l1 :: "('k, 'v, 's) tier_params \<Rightarrow> 'k \<Rightarrow> ('k, 'v, 's) tier \<Rightarrow> nat option option" where
  "find_l1 C key t = find_from (t_slots t) key (t_buckets t ! l1_bucket C key)"

definition link_l1_hash :: "('k, 'v, 's) tier_params \<Rightarrow> nat \<Rightarrow> ('k, 'v, 's) tier \<Rightarrow> ('k, 'v, 's) tier" where
  "link_l1_hash C slot t =
     (let bucket = l1_bucket C (sl_key (t_slots t ! slot));
          t = upd_slot slot (\<lambda>s. s\<lparr>sl_hash_next := t_buckets t ! bucket\<rparr>) t
      in t\<lparr>t_buckets := (t_buckets t)[bucket := slot]\<rparr>)"

text \<open>The loop of \<open>unlink_l1_hash_\<close>: the predecessor of the slot in its chain, \<open>INVALID\<close> when it is the
  first; no result when the slot is not in the chain.\<close>

partial_function (option) find_prev :: "('k, 'v) slot list \<Rightarrow> nat \<Rightarrow> nat \<Rightarrow> nat \<Rightarrow> nat option option" where
  "find_prev ss slot prev idx =
     (if idx = INVALID then Some None
      else if idx = slot then Some (Some prev)
      else find_prev ss slot idx (sl_hash_next (ss ! idx)))"

definition unlink_l1_hash :: "('k, 'v, 's) tier_params \<Rightarrow> nat \<Rightarrow> ('k, 'v, 's) tier \<Rightarrow> ('k, 'v, 's) tier option" where
  "unlink_l1_hash C slot t =
     (let bucket = l1_bucket C (sl_key (t_slots t ! slot)) in
      do {
        found \<leftarrow> find_prev (t_slots t) slot INVALID (t_buckets t ! bucket);
        Some (case found of
          None \<Rightarrow> t
        | Some prev \<Rightarrow>
            let nxt = sl_hash_next (t_slots t ! slot);
                t = (if prev = INVALID then t\<lparr>t_buckets := (t_buckets t)[bucket := nxt]\<rparr>
                     else upd_slot prev (\<lambda>s. s\<lparr>sl_hash_next := nxt\<rparr>) t)
            in upd_slot slot (\<lambda>s. s\<lparr>sl_hash_next := INVALID\<rparr>) t)
      })"

section \<open>The order of use\<close>

definition link_lru_front :: "nat \<Rightarrow> ('k, 'v, 's) tier \<Rightarrow> ('k, 'v, 's) tier" where
  "link_lru_front slot t =
     (let t = upd_slot slot (\<lambda>s. s\<lparr>sl_prev := INVALID, sl_next := t_head t\<rparr>) t;
          t = (if t_head t \<noteq> INVALID then upd_slot (t_head t) (\<lambda>s. s\<lparr>sl_prev := slot\<rparr>) t else t);
          t = t\<lparr>t_head := slot\<rparr>
      in if t_tail t = INVALID then t\<lparr>t_tail := slot\<rparr> else t)"

definition unlink_lru :: "nat \<Rightarrow> ('k, 'v, 's) tier \<Rightarrow> ('k, 'v, 's) tier" where
  "unlink_lru slot t =
     (let prev = sl_prev (t_slots t ! slot); nxt = sl_next (t_slots t ! slot);
          t = (if prev \<noteq> INVALID then upd_slot prev (\<lambda>s. s\<lparr>sl_next := nxt\<rparr>) t else t\<lparr>t_head := nxt\<rparr>);
          t = (if nxt \<noteq> INVALID then upd_slot nxt (\<lambda>s. s\<lparr>sl_prev := prev\<rparr>) t else t\<lparr>t_tail := prev\<rparr>)
      in upd_slot slot (\<lambda>s. s\<lparr>sl_prev := INVALID, sl_next := INVALID\<rparr>) t)"

definition touch_l1 :: "nat \<Rightarrow> ('k, 'v, 's) tier \<Rightarrow> ('k, 'v, 's) tier" where
  "touch_l1 slot t = (if slot = t_head t then t else link_lru_front slot (unlink_lru slot t))"

section \<open>Slots\<close>

definition free_l1_slot :: "('k, 'v, 's) tier \<Rightarrow> nat option" where
  "free_l1_slot t = List.find (\<lambda>i. \<not> sl_valid (t_slots t ! i)) [0..<L1_CACHE_SIZE]"

definition l2_exists :: "('k, 'v, 's) tier_params \<Rightarrow> clock \<Rightarrow> ('k, 'v) slot \<Rightarrow> ('k, 'v, 's) tier \<Rightarrow>
    bool \<times> ('k, 'v, 's) tier" where
  "l2_exists C clk s t = (case b_exists (tp_store C) clk (enc (tp_key C) (sl_key s)) (t_store t) of
     (b, st) \<Rightarrow> (b, t\<lparr>t_store := st\<rparr>))"

definition flush_l1_slot :: "('k, 'v, 's) tier_params \<Rightarrow> clock \<Rightarrow> nat \<Rightarrow> ('k, 'v, 's) tier \<Rightarrow>
    bool \<times> ('k, 'v, 's) tier" where
  "flush_l1_slot C clk slot t =
     (let s = t_slots t ! slot in
      if \<not> sl_valid s \<or> \<not> sl_dirty s then (True, t)
      else case b_put (tp_store C) clk (enc (tp_key C) (sl_key s)) (enc (tp_value C) (sl_value s))
                  (remaining_ttl clk s) (clk_time clk) (sl_priority s) (t_store t) of
          (False, st) \<Rightarrow> (False, t\<lparr>t_store := st\<rparr>)
        | (True, st) \<Rightarrow>
            (True, upd_slot slot (\<lambda>s. s\<lparr>sl_dirty := False, sl_in_l2 := True\<rparr>) (t\<lparr>t_store := st\<rparr>)))"

definition remove_l1_slot :: "('k, 'v, 's) tier_params \<Rightarrow> nat \<Rightarrow> ('k, 'v, 's) tier \<Rightarrow>
    ('k, 'v, 's) tier option" where
  "remove_l1_slot C slot t =
     (if \<not> sl_valid (t_slots t ! slot) then Some t
      else do {
        t \<leftarrow> unlink_l1_hash C slot t;
        Some (upd_slot slot (\<lambda>_. empty_slot C) (unlink_lru slot t))
      })"

definition expire_l1_slot :: "('k, 'v, 's) tier_params \<Rightarrow> clock \<Rightarrow> nat \<Rightarrow> ('k, 'v, 's) tier \<Rightarrow>
    ('k, 'v, 's) tier option" where
  "expire_l1_slot C clk slot t =
     (let in_l2 = sl_in_l2 (t_slots t ! slot); key = sl_key (t_slots t ! slot) in
      do {
        t \<leftarrow> remove_l1_slot C slot t;
        Some (if in_l2 then t\<lparr>t_store := snd (b_remove (tp_store C) clk (enc (tp_key C) key) (t_store t))\<rparr> else t)
      })"

definition allocate_l1_slot :: "('k, 'v, 's) tier_params \<Rightarrow> clock \<Rightarrow> ('k, 'v, 's) tier \<Rightarrow>
    (nat option \<times> ('k, 'v, 's) tier) option" where
  "allocate_l1_slot C clk t =
     (case free_l1_slot t of
        Some i \<Rightarrow> Some (Some i, t)
      | None \<Rightarrow>
        if t_tail t = INVALID then Some (None, t)
        else
          let evict = t_tail t in
          if slot_expired clk (t_slots t ! evict) then
            do { t \<leftarrow> expire_l1_slot C clk evict t; Some (Some evict, t) }
          else case flush_l1_slot C clk evict t of
              (False, t) \<Rightarrow> Some (None, t)
            | (True, t) \<Rightarrow> do { t \<leftarrow> remove_l1_slot C evict t; Some (Some evict, t) })"

primrec for_slots :: "nat list \<Rightarrow> (nat \<Rightarrow> 't \<Rightarrow> 't option) \<Rightarrow> 't \<Rightarrow> 't option" where
  "for_slots [] f t = Some t"
| "for_slots (i # is) f t = do { t \<leftarrow> f i t; for_slots is f t }"

definition prune_expired_l1 :: "('k, 'v, 's) tier_params \<Rightarrow> clock \<Rightarrow> ('k, 'v, 's) tier \<Rightarrow>
    ('k, 'v, 's) tier option" where
  "prune_expired_l1 C clk t = for_slots [0..<L1_CACHE_SIZE]
     (\<lambda>i t. if sl_valid (t_slots t ! i) \<and> slot_expired clk (t_slots t ! i)
            then expire_l1_slot C clk i t else Some t) t"

section \<open>Operations\<close>

definition tier_put :: "('k, 'v, 's) tier_params \<Rightarrow> clock \<Rightarrow> 'k \<Rightarrow> 'v \<Rightarrow> u32 \<Rightarrow> u8 \<Rightarrow> ('k, 'v, 's) tier \<Rightarrow>
    (bool \<times> ('k, 'v, 's) tier) option" where
  "tier_put C clk key val ttl priority t =
     (if \<not> tier_valid C t then Some (False, t)
      else do {
        t \<leftarrow> prune_expired_l1 C clk t;
        l1 \<leftarrow> find_l1 C key t;
        case l1 of
          Some i \<Rightarrow> Some (True, touch_l1 i (upd_slot i (\<lambda>s. s\<lparr>sl_value := val,
            sl_expires_at := expires_at clk ttl, sl_priority := priority, sl_dirty := True\<rparr>) t))
        | None \<Rightarrow> do {
            (slot, t) \<leftarrow> allocate_l1_slot C clk t;
            case slot of
              None \<Rightarrow> Some (False, t)
            | Some i \<Rightarrow>
                let (b, st) = b_exists (tp_store C) clk (enc (tp_key C) key) (t_store t);
                    t = upd_slot i (\<lambda>s. s\<lparr>sl_key := key, sl_value := val, sl_expires_at := expires_at clk ttl,
                          sl_priority := priority, sl_dirty := True, sl_valid := True, sl_in_l2 := b\<rparr>)
                          (t\<lparr>t_store := st\<rparr>)
                in Some (True, link_lru_front i (link_l1_hash C i t))
          }
      })"

definition tier_get :: "('k, 'v, 's) tier_params \<Rightarrow> clock \<Rightarrow> 'k \<Rightarrow> ('k, 'v, 's) tier \<Rightarrow>
    ('v option \<times> ('k, 'v, 's) tier) option" where
  "tier_get C clk key t =
     (if \<not> tier_valid C t then Some (None, t)
      else do {
        l1 \<leftarrow> find_l1 C key t;
        case l1 of
          Some i \<Rightarrow>
            if slot_expired clk (t_slots t ! i) then do { t \<leftarrow> expire_l1_slot C clk i t; Some (None, t) }
            else Some (Some (sl_value (t_slots t ! i)), touch_l1 i t)
        | None \<Rightarrow>
          (case b_get (tp_store C) clk (enc (tp_key C) key) (t_store t) of
            (None, st) \<Rightarrow> Some (None, t\<lparr>t_store := st\<rparr>)
          | (Some raw_value, st) \<Rightarrow>
            (case dec (tp_value C) raw_value of
              None \<Rightarrow> Some (None, t\<lparr>t_store := st\<rparr>)
            | Some decoded \<Rightarrow> do {
                (slot, t) \<leftarrow> allocate_l1_slot C clk (t\<lparr>t_store := st\<rparr>);
                case slot of
                  None \<Rightarrow> Some (Some decoded, t)
                | Some i \<Rightarrow>
                    let t = upd_slot i (\<lambda>s. s\<lparr>sl_key := key, sl_value := decoded, sl_dirty := False,
                              sl_valid := True, sl_in_l2 := True\<rparr>) t
                    in Some (Some decoded, link_lru_front i (link_l1_hash C i t))
              }))
      })"

definition tier_remove :: "('k, 'v, 's) tier_params \<Rightarrow> clock \<Rightarrow> 'k \<Rightarrow> ('k, 'v, 's) tier \<Rightarrow>
    (bool \<times> ('k, 'v, 's) tier) option" where
  "tier_remove C clk key t =
     (if \<not> tier_valid C t then Some (False, t)
      else do {
        l1 \<leftarrow> find_l1 C key t;
        (in_l2, t) \<leftarrow> (case l1 of
            Some i \<Rightarrow> do { t' \<leftarrow> remove_l1_slot C i t; Some (sl_in_l2 (t_slots t ! i), t') }
          | None \<Rightarrow> Some (case b_exists (tp_store C) clk (enc (tp_key C) key) (t_store t) of
              (b, st) \<Rightarrow> (b, t\<lparr>t_store := st\<rparr>)));
        Some (if in_l2 then
            case b_remove (tp_store C) clk (enc (tp_key C) key) (t_store t) of (ok, st) \<Rightarrow> (ok, t\<lparr>t_store := st\<rparr>)
          else (True, t))
      })"

definition tier_exists :: "('k, 'v, 's) tier_params \<Rightarrow> clock \<Rightarrow> 'k \<Rightarrow> ('k, 'v, 's) tier \<Rightarrow>
    (bool \<times> ('k, 'v, 's) tier) option" where
  "tier_exists C clk key t =
     (if \<not> tier_valid C t then Some (False, t)
      else do {
        l1 \<leftarrow> find_l1 C key t;
        case l1 of
          Some i \<Rightarrow>
            if slot_expired clk (t_slots t ! i) then do { t \<leftarrow> expire_l1_slot C clk i t; Some (False, t) }
            else Some (True, t)
        | None \<Rightarrow> Some (case b_exists (tp_store C) clk (enc (tp_key C) key) (t_store t) of
            (b, st) \<Rightarrow> (b, t\<lparr>t_store := st\<rparr>))
      })"

definition tier_size :: "('k, 'v, 's) tier_params \<Rightarrow> ('k, 'v, 's) tier \<Rightarrow> nat" where
  "tier_size C t =
     (if \<not> tier_valid C t then 0
      else b_size (tp_store C) (t_store t) +
        length (filter (\<lambda>i. sl_valid (t_slots t ! i) \<and> \<not> sl_in_l2 (t_slots t ! i)) [0..<L1_CACHE_SIZE]))"

definition sync_slot :: "('k, 'v, 's) tier_params \<Rightarrow> clock \<Rightarrow> nat \<Rightarrow> bool \<times> ('k, 'v, 's) tier \<Rightarrow>
    (bool \<times> ('k, 'v, 's) tier) option" where
  "sync_slot C clk i p = (case p of (ok, t) \<Rightarrow>
     let s = t_slots t ! i in
     if \<not> sl_valid s \<or> \<not> sl_dirty s then Some (ok, t)
     else
       let (stays, t) = (if sl_in_l2 s then l2_exists C clk s t else (True, t)) in
       if \<not> stays then do { t \<leftarrow> remove_l1_slot C i t; Some (ok, t) }
       else (case flush_l1_slot C clk i t of (b, t) \<Rightarrow> Some (ok \<and> b, t)))"

definition tier_sync :: "('k, 'v, 's) tier_params \<Rightarrow> clock \<Rightarrow> ('k, 'v, 's) tier \<Rightarrow>
    (bool \<times> ('k, 'v, 's) tier) option" where
  "tier_sync C clk t =
     (if \<not> tier_valid C t then Some (False, t)
      else do {
        t \<leftarrow> prune_expired_l1 C clk t;
        for_slots (rev [0..<L1_CACHE_SIZE]) (sync_slot C clk) (True, t)
      })"

definition tier_clear :: "('k, 'v, 's) tier_params \<Rightarrow> ('k, 'v, 's) tier \<Rightarrow> ('k, 'v, 's) tier" where
  "tier_clear C t =
     (if \<not> tier_valid C t then t
      else let t = reset_l1 C t in t\<lparr>t_store := b_clear (tp_store C) (t_store t)\<rparr>)"

definition cache_size :: "('k, 'v, 's) tier \<Rightarrow> nat" where
  "cache_size t = length (filter (\<lambda>i. sl_valid (t_slots t ! i)) [0..<L1_CACHE_SIZE])"

definition dirty_count :: "('k, 'v, 's) tier \<Rightarrow> nat" where
  "dirty_count t =
     length (filter (\<lambda>i. sl_valid (t_slots t ! i) \<and> sl_dirty (t_slots t ! i)) [0..<L1_CACHE_SIZE])"

section \<open>Iterator\<close>

text \<open>The iterator first follows the iterator of the store below, showing the cached entry for a key
  that is cached, and then the slots that are not in the store below. It looks at the cache at every
  step.\<close>

datatype tier_phase = PhaseL2 | PhaseL1

record ('k, 'v) tier_iterator =
  tit_l2 :: "(bytes \<times> bytes) list"
  tit_slot :: nat
  tit_phase :: tier_phase
  tit_at_end :: bool
  tit_current :: "'k \<times> 'v"

fun load_l2 :: "('k, 'v, 's) tier_params \<Rightarrow> ('k, 'v, 's) tier \<Rightarrow> (bytes \<times> bytes) list \<Rightarrow>
    ((bytes \<times> bytes) list \<times> ('k \<times> 'v) option) option" where
  "load_l2 C t [] = Some ([], None)"
| "load_l2 C t ((raw_key, raw_value) # rest) =
     (case dec (tp_key C) raw_key of
        None \<Rightarrow> load_l2 C t rest
      | Some key \<Rightarrow> do {
          l1 \<leftarrow> find_l1 C key t;
          case l1 of
            Some i \<Rightarrow> Some ((raw_key, raw_value) # rest, Some (sl_key (t_slots t ! i), sl_value (t_slots t ! i)))
          | None \<Rightarrow>
            (case dec (tp_value C) raw_value of
               None \<Rightarrow> load_l2 C t rest
             | Some val \<Rightarrow> Some ((raw_key, raw_value) # rest, Some (key, val)))
        })"

definition load_l1 :: "('k, 'v, 's) tier \<Rightarrow> ('k, 'v) tier_iterator \<Rightarrow> ('k, 'v) tier_iterator" where
  "load_l1 t it =
     (case List.find (\<lambda>i. sl_valid (t_slots t ! i) \<and> \<not> sl_in_l2 (t_slots t ! i)) [tit_slot it..<L1_CACHE_SIZE] of
        None \<Rightarrow> it\<lparr>tit_slot := max (tit_slot it) L1_CACHE_SIZE, tit_at_end := True\<rparr>
      | Some i \<Rightarrow> it\<lparr>tit_slot := i, tit_at_end := False,
                     tit_current := (sl_key (t_slots t ! i), sl_value (t_slots t ! i))\<rparr>)"

definition load_next :: "('k, 'v, 's) tier_params \<Rightarrow> ('k, 'v, 's) tier \<Rightarrow> ('k, 'v) tier_iterator \<Rightarrow>
    ('k, 'v) tier_iterator option" where
  "load_next C t it =
     (case tit_phase it of
        PhaseL1 \<Rightarrow> Some (load_l1 t it)
      | PhaseL2 \<Rightarrow> do {
          (rest, cur) \<leftarrow> load_l2 C t (tit_l2 it);
          Some (case cur of
            Some c \<Rightarrow> it\<lparr>tit_l2 := rest, tit_current := c, tit_at_end := False\<rparr>
          | None \<Rightarrow> load_l1 t (it\<lparr>tit_l2 := rest, tit_phase := PhaseL1\<rparr>))
        })"

definition tier_end :: "('k, 'v, 's) tier_params \<Rightarrow> ('k, 'v) tier_iterator" where
  "tier_end C = \<lparr>tit_l2 = [], tit_slot = 0, tit_phase = PhaseL2, tit_at_end = True,
     tit_current = (tp_key0 C, tp_value0 C)\<rparr>"

definition tier_begin :: "('k, 'v, 's) tier_params \<Rightarrow> clock \<Rightarrow> ('k, 'v, 's) tier \<Rightarrow>
    (('k, 'v) tier_iterator \<times> ('k, 'v, 's) tier) option" where
  "tier_begin C clk t =
     (if \<not> tier_valid C t then Some (tier_end C, t)
      else do {
        t \<leftarrow> prune_expired_l1 C clk t;
        (let (es, st) = b_entries (tp_store C) (t_store t); t = t\<lparr>t_store := st\<rparr> in do {
          it \<leftarrow> load_next C t ((tier_end C)\<lparr>tit_l2 := es, tit_slot := 0\<rparr>);
          Some (it, t)
        })
      })"

definition tier_next :: "('k, 'v, 's) tier_params \<Rightarrow> ('k, 'v, 's) tier \<Rightarrow> ('k, 'v) tier_iterator \<Rightarrow>
    ('k, 'v) tier_iterator option" where
  "tier_next C t it =
     (if tit_at_end it then Some it
      else load_next C t
        (if tit_phase it = PhaseL2 then it\<lparr>tit_l2 := tl (tit_l2 it)\<rparr> else it\<lparr>tit_slot := tit_slot it + 1\<rparr>))"

text \<open>Two iterators of the same store.\<close>

definition tier_iterator_neq :: "('k, 'v) tier_iterator \<Rightarrow> ('k, 'v) tier_iterator \<Rightarrow> bool" where
  "tier_iterator_neq a b \<longleftrightarrow>
     (if tit_at_end a \<or> tit_at_end b then tit_at_end a \<noteq> tit_at_end b
      else if tit_phase a \<noteq> tit_phase b then True
      else if tit_phase a = PhaseL2 then tit_l2 a \<noteq> tit_l2 b
      else tit_slot a \<noteq> tit_slot b)"

end
