(* ===== verification/TieredLists.thy ===== *)
theory TieredLists
  imports TieredStore
begin

text \<open>
  The linked structures of the cache as lists: a chain of the hash table is the list of the slots on it,
  and the order of use is a doubly linked list. Linking a slot is \<open>Cons\<close>, unlinking it is \<open>remove1\<close>, and
  the two loops of the code end and compute what the list says.
\<close>

section \<open>Chains\<close>

fun chain :: "('k, 'v) slot list \<Rightarrow> nat \<Rightarrow> nat list \<Rightarrow> bool" where
  "chain ss h [] \<longleftrightarrow> h = INVALID"
| "chain ss h (x # xs) \<longleftrightarrow> h = x \<and> x \<noteq> INVALID \<and> chain ss (sl_hash_next (ss ! x)) xs"

lemma chain_cong:
  "(\<And>i. i \<in> set xs \<Longrightarrow> sl_hash_next (ss' ! i) = sl_hash_next (ss ! i)) \<Longrightarrow> chain ss' h xs = chain ss h xs"
  by (induction xs arbitrary: h) simp_all

lemma chain_update_other [simp]:
  "i \<notin> set xs \<Longrightarrow> chain (ss[i := x]) h xs = chain ss h xs"
  by (rule chain_cong) (metis nth_list_update_neq)

text \<open>The search of \<open>find_l1_\<close> along a chain ends, with the first slot of the key.\<close>

lemma find_from_chain:
  "chain ss h xs \<Longrightarrow> find_from ss key h = Some (List.find (\<lambda>i. sl_valid (ss ! i) \<and> sl_key (ss ! i) = key) xs)"
proof (induction xs arbitrary: h)
  case Nil
  then show ?case by (subst find_from.simps) simp
next
  case (Cons x xs)
  then show ?case by (subst find_from.simps) auto
qed

lemma find_prev_chain:
  "chain ss h (as @ x # bs) \<Longrightarrow> x \<notin> set as \<Longrightarrow>
   find_prev ss x p h = Some (Some (if as = [] then p else last as))"
proof (induction as arbitrary: p h)
  case Nil
  then show ?case by (subst find_prev.simps) simp
next
  case (Cons a as)
  then show ?case by (subst find_prev.simps) auto
qed

lemma chain_append_next:
  "chain ss h (as @ x # bs) \<Longrightarrow> chain ss (sl_hash_next (ss ! x)) bs"
  by (induction as arbitrary: h) auto

text \<open>Bypassing a slot in the middle of a chain.\<close>

lemma chain_bypass:
  assumes "chain ss h (as @ a # x # bs)" "distinct (as @ a # x # bs)" "a < length ss"
  shows "chain (ss[a := (ss ! a)\<lparr>sl_hash_next := sl_hash_next (ss ! x)\<rparr>]) h (as @ a # bs)"
  using assms
proof (induction as arbitrary: h)
  case Nil
  then have "a \<notin> set bs" by auto
  with Nil show ?case by simp
next
  case (Cons y as)
  then show ?case by auto
qed

section \<open>The doubly linked list\<close>

text \<open>A segment from \<open>h\<close> with predecessor \<open>p\<close>, whose last slot points to \<open>e\<close>.\<close>

fun dseg :: "('k, 'v) slot list \<Rightarrow> nat \<Rightarrow> nat \<Rightarrow> nat list \<Rightarrow> nat \<Rightarrow> bool" where
  "dseg ss p h [] e \<longleftrightarrow> h = e"
| "dseg ss p h (x # xs) e \<longleftrightarrow> h = x \<and> sl_prev (ss ! x) = p \<and> dseg ss x (sl_next (ss ! x)) xs e"

definition first :: "nat list \<Rightarrow> nat \<Rightarrow> nat" where
  "first xs e = (case xs of [] \<Rightarrow> e | x # _ \<Rightarrow> x)"

definition final :: "nat \<Rightarrow> nat list \<Rightarrow> nat" where
  "final p xs = (if xs = [] then p else last xs)"

lemma first_simps [simp]: "first [] e = e" "first (x # xs) e = x" "first (xs @ ys) e = first xs (first ys e)"
  by (simp_all add: first_def split: list.split)

lemma final_simps [simp]: "final p [] = p" "final p (x # xs) = final x xs" "final p (xs @ [x]) = x"
  by (simp_all add: final_def)

lemma dseg_append:
  "dseg ss p h (as @ bs) e \<longleftrightarrow> dseg ss p h as (first bs e) \<and> dseg ss (final p as) (first bs e) bs e"
proof (induction as arbitrary: p h)
  case Nil
  then show ?case by (cases bs) auto
qed auto

lemma dseg_cong:
  "(\<And>i. i \<in> set xs \<Longrightarrow> sl_prev (ss' ! i) = sl_prev (ss ! i) \<and> sl_next (ss' ! i) = sl_next (ss ! i)) \<Longrightarrow>
   dseg ss' p h xs e = dseg ss p h xs e"
  by (induction xs arbitrary: p h) simp_all

lemma dseg_update_other [simp]:
  "i \<notin> set xs \<Longrightarrow> dseg (ss[i := x]) p h xs e = dseg ss p h xs e"
  by (rule dseg_cong) (metis nth_list_update_neq)

lemma dseg_first: "dseg ss p h xs e \<Longrightarrow> h = first xs e"
  by (cases xs) simp_all

text \<open>Redirecting the end of a segment, and the predecessor of its start.\<close>

lemma dseg_set_next:
  assumes "dseg ss p h (as @ [a]) e" "distinct (as @ [a])" "a < length ss"
  shows "dseg (ss[a := (ss ! a)\<lparr>sl_next := e'\<rparr>]) p h (as @ [a]) e'"
  using assms by (auto simp: dseg_append)

lemma dseg_set_prev:
  assumes "dseg ss p b (b # bs) e" "distinct (b # bs)" "b < length ss"
  shows "dseg (ss[b := (ss ! b)\<lparr>sl_prev := p'\<rparr>]) p' b (b # bs) e"
  using assms by auto

text \<open>The order of use: all slots are slots of the array, the head is the first and the tail the last.\<close>

definition lru_list :: "('k, 'v, 's) tier \<Rightarrow> nat list \<Rightarrow> bool" where
  "lru_list t L \<longleftrightarrow> length (t_slots t) = L1_CACHE_SIZE \<and> distinct L \<and> (\<forall>i \<in> set L. i < L1_CACHE_SIZE) \<and>
     dseg (t_slots t) INVALID (t_head t) L INVALID \<and> t_tail t = final INVALID L"

lemma index_valid: "i < L1_CACHE_SIZE \<Longrightarrow> i \<noteq> INVALID"
  by (simp add: L1_CACHE_SIZE_def INVALID_def)

lemma upd_slot_simps [simp]:
  "length (t_slots (upd_slot i f t)) = length (t_slots t)" "t_head (upd_slot i f t) = t_head t"
  "t_tail (upd_slot i f t) = t_tail t" "t_buckets (upd_slot i f t) = t_buckets t"
  "t_store (upd_slot i f t) = t_store t" "t_slots (upd_slot i f t) = (t_slots t)[i := f (t_slots t ! i)]"
  by (simp_all add: upd_slot_def)

lemma lru_head: "lru_list t L \<Longrightarrow> t_head t = first L INVALID"
  by (auto simp: lru_list_def dest: dseg_first)

lemma lru_link:
  assumes L: "lru_list t L" and i: "i < L1_CACHE_SIZE" "i \<notin> set L"
  shows "lru_list (link_lru_front i t) (i # L)"
proof (cases L)
  case Nil
  with L i show ?thesis
    by (simp add: lru_list_def link_lru_front_def Let_def)
next
  case (Cons b bs)
  have h: "t_head t = b" using lru_head [OF L] Cons by simp
  have b: "b < L1_CACHE_SIZE" "b \<noteq> i" "b \<noteq> INVALID" and len: "length (t_slots t) = L1_CACHE_SIZE"
    and d: "distinct (b # bs)" and tl: "t_tail t = final b bs" and seg: "dseg (t_slots t) INVALID b (b # bs) INVALID"
    using L i Cons index_valid by (auto simp: lru_list_def)
  have tl_valid: "t_tail t \<noteq> INVALID"
    using L Cons index_valid unfolding tl by (cases bs rule: rev_cases) (auto simp: lru_list_def)
  let ?ss = "(t_slots t)[i := (t_slots t ! i)\<lparr>sl_prev := INVALID, sl_next := b\<rparr>]"
  have "dseg ?ss INVALID b (b # bs) INVALID" using seg i Cons by (subst dseg_update_other) auto
  then have "dseg (?ss[b := (?ss ! b)\<lparr>sl_prev := i\<rparr>]) i b (b # bs) INVALID"
    using d b len by (intro dseg_set_prev) simp_all
  moreover have "?ss[b := (?ss ! b)\<lparr>sl_prev := i\<rparr>] ! i = (t_slots t ! i)\<lparr>sl_prev := INVALID, sl_next := b\<rparr>"
    using b(2) i(1) len by simp
  ultimately show ?thesis
    using L i Cons b tl_valid tl h len unfolding lru_list_def link_lru_front_def Let_def by auto
qed

lemma lru_unlink:
  assumes L: "lru_list t L" and i: "i \<in> set L"
  shows "lru_list (unlink_lru i t) (remove1 i L)"
proof -
  from i obtain as bs where split: "L = as @ i # bs" "i \<notin> set as" by (meson split_list_first)
  have d: "distinct (as @ i # bs)" and len: "length (t_slots t) = L1_CACHE_SIZE"
    and bound: "\<forall>j \<in> set as \<union> set bs. j < L1_CACHE_SIZE \<and> j \<noteq> INVALID \<and> j \<noteq> i" "i < L1_CACHE_SIZE"
    and tl: "t_tail t = final i bs"
    and as: "dseg (t_slots t) INVALID (t_head t) as i"
    and ix: "sl_prev (t_slots t ! i) = final INVALID as"
    and bs: "dseg (t_slots t) i (sl_next (t_slots t ! i)) bs INVALID"
    using L index_valid unfolding lru_list_def split(1) by (auto simp: dseg_append final_def)
  have nx: "sl_next (t_slots t ! i) = first bs INVALID" using bs by (rule dseg_first)
  let ?p = "final INVALID as" and ?n = "first bs INVALID"
  define t1 where "t1 = (if ?p \<noteq> INVALID then upd_slot ?p (\<lambda>s. s\<lparr>sl_next := ?n\<rparr>) t else t\<lparr>t_head := ?n\<rparr>)"
  define t2 where "t2 = (if ?n \<noteq> INVALID then upd_slot ?n (\<lambda>s. s\<lparr>sl_prev := ?p\<rparr>) t1 else t1\<lparr>t_tail := ?p\<rparr>)"
  have u: "unlink_lru i t = upd_slot i (\<lambda>s. s\<lparr>sl_prev := INVALID, sl_next := INVALID\<rparr>) t2"
    by (simp add: unlink_lru_def Let_def ix nx t1_def t2_def)
  have len1: "length (t_slots t1) = L1_CACHE_SIZE" using len by (simp add: t1_def)
  have s1: "dseg (t_slots t1) INVALID (t_head t1) as ?n \<and> dseg (t_slots t1) i ?n bs INVALID \<and> t_tail t1 = t_tail t"
  proof (cases as rule: rev_cases)
    case Nil
    with bs nx show ?thesis by (simp add: t1_def)
  next
    case (snoc as' a)
    have "a \<noteq> INVALID" "a \<notin> set bs" "a < length (t_slots t)" "distinct (as' @ [a])"
      using bound d len snoc by auto
    with snoc as bs nx dseg_set_next [of "t_slots t" INVALID "t_head t" as' a i ?n] show ?thesis
      by (simp add: t1_def)
  qed
  have s2: "dseg (t_slots t2) INVALID (t_head t2) as ?n \<and> dseg (t_slots t2) ?p ?n bs INVALID \<and>
      t_tail t2 = final ?p bs"
  proof (cases bs)
    case Nil
    with s1 show ?thesis by (simp add: t2_def)
  next
    case (Cons b bs')
    have b: "b \<noteq> INVALID" "b \<notin> set as" "b < length (t_slots t1)" "distinct (b # bs')"
      using bound d len1 Cons by auto
    have "dseg ((t_slots t1)[b := (t_slots t1 ! b)\<lparr>sl_prev := ?p\<rparr>]) ?p b (b # bs') INVALID"
      using s1 Cons b by (intro dseg_set_prev [of _ i]) simp_all
    with s1 Cons b tl show ?thesis by (simp add: t2_def)
  qed
  have "i \<notin> set as" "i \<notin> set bs" using d by auto
  with s2 have "dseg (t_slots (unlink_lru i t)) INVALID (t_head (unlink_lru i t)) (as @ bs) INVALID"
    by (simp add: u dseg_append)
  moreover have "t_tail (unlink_lru i t) = final INVALID (as @ bs)"
    using s2 by (auto simp: u final_def)
  moreover have "length (t_slots (unlink_lru i t)) = L1_CACHE_SIZE" using len1 by (simp add: u t2_def)
  moreover have "remove1 i L = as @ bs" using split by (simp add: remove1_append)
  ultimately show ?thesis using bound d by (auto simp: lru_list_def)
qed

end
