(* ===== verification/TieredInvariant.thy ===== *)
theory TieredInvariant
  imports TieredLists
begin

text \<open>
  The invariant of the cache: the order of use lists exactly the valid slots, each chain of the hash table
  lists exactly the valid slots of its bucket, no key is cached twice, and an invalid slot is blank. Under
  it every loop ends and the cache is a finite map from keys to entries.
\<close>

section \<open>What the links leave alone\<close>

text \<open>A slot without its links.\<close>

definition core :: "('k, 'v) slot \<Rightarrow> ('k, 'v) slot" where
  "core s = s\<lparr>sl_prev := 0, sl_next := 0, sl_hash_next := 0\<rparr>"

lemma core_fields:
  assumes "core a = core b"
  shows "sl_key a = sl_key b" "sl_value a = sl_value b" "sl_expires_at a = sl_expires_at b"
    "sl_priority a = sl_priority b" "sl_valid a = sl_valid b" "sl_dirty a = sl_dirty b" "sl_in_l2 a = sl_in_l2 b"
  using assms by (cases a; cases b; simp add: core_def)+

lemma core_links [simp]:
  "core (s\<lparr>sl_prev := p\<rparr>) = core s" "core (s\<lparr>sl_next := n\<rparr>) = core s" "core (s\<lparr>sl_hash_next := h\<rparr>) = core s"
  by (simp_all add: core_def)

lemma core_proj [simp]:
  "sl_key (core s) = sl_key s" "sl_value (core s) = sl_value s" "sl_expires_at (core s) = sl_expires_at s"
  "sl_priority (core s) = sl_priority s" "sl_valid (core s) = sl_valid s" "sl_dirty (core s) = sl_dirty s"
  "sl_in_l2 (core s) = sl_in_l2 s"
  by (simp_all add: core_def)

lemma upd_slot_keep:
  "(\<And>s. X (f s) = X s) \<Longrightarrow> X (t_slots (upd_slot i f t) ! j) = X (t_slots t ! j)"
  by (cases "i < length (t_slots t)") (simp_all add: nth_list_update list_update_beyond)

definition same_slots :: "(('k, 'v) slot \<Rightarrow> 'x) \<Rightarrow> ('k, 'v, 's) tier \<Rightarrow> ('k, 'v, 's) tier \<Rightarrow> bool" where
  "same_slots X t t' \<longleftrightarrow> length (t_slots t') = length (t_slots t) \<and> (\<forall>j. X (t_slots t' ! j) = X (t_slots t ! j))"

lemma same_slots_refl [simp]: "same_slots X t t"
  by (simp add: same_slots_def)

lemma same_slots_trans: "same_slots X a b \<Longrightarrow> same_slots X b c \<Longrightarrow> same_slots X a c"
  by (simp add: same_slots_def)

lemma same_slots_upd: "(\<And>s. X (f s) = X s) \<Longrightarrow> same_slots X t (upd_slot i f t)"
  unfolding same_slots_def using upd_slot_keep [of X f] by fastforce

lemma same_slots_fields [simp]:
  "same_slots X t (u\<lparr>t_head := h\<rparr>) = same_slots X t u" "same_slots X t (u\<lparr>t_tail := h\<rparr>) = same_slots X t u"
  "same_slots X t (u\<lparr>t_buckets := b\<rparr>) = same_slots X t u" "same_slots X t (u\<lparr>t_store := st\<rparr>) = same_slots X t u"
  "same_slots X (u\<lparr>t_store := st\<rparr>) t = same_slots X u t"
  by (simp_all add: same_slots_def)

lemma link_lru_frame:
  "t_buckets (link_lru_front i t) = t_buckets t" "t_store (link_lru_front i t) = t_store t"
  "(\<And>s p. X (s\<lparr>sl_prev := p\<rparr>) = X s) \<Longrightarrow> (\<And>s n. X (s\<lparr>sl_next := n\<rparr>) = X s) \<Longrightarrow>
     same_slots X t (link_lru_front i t)"
  by (simp_all add: link_lru_front_def Let_def)
    (auto intro!: same_slots_upd intro: same_slots_trans [OF same_slots_upd same_slots_upd])

lemma unlink_lru_frame:
  "t_buckets (unlink_lru i t) = t_buckets t" "t_store (unlink_lru i t) = t_store t"
  "(\<And>s p. X (s\<lparr>sl_prev := p\<rparr>) = X s) \<Longrightarrow> (\<And>s n. X (s\<lparr>sl_next := n\<rparr>) = X s) \<Longrightarrow>
     same_slots X t (unlink_lru i t)"
proof -
  show "t_buckets (unlink_lru i t) = t_buckets t" "t_store (unlink_lru i t) = t_store t"
    by (simp_all add: unlink_lru_def Let_def)
  assume X: "\<And>s p. X (s\<lparr>sl_prev := p\<rparr>) = X s" "\<And>s n. X (s\<lparr>sl_next := n\<rparr>) = X s"
  define p n where "p = sl_prev (t_slots t ! i)" and "n = sl_next (t_slots t ! i)"
  define t1 where "t1 = (if p \<noteq> INVALID then upd_slot p (\<lambda>s. s\<lparr>sl_next := n\<rparr>) t else t\<lparr>t_head := n\<rparr>)"
  define t2 where "t2 = (if n \<noteq> INVALID then upd_slot n (\<lambda>s. s\<lparr>sl_prev := p\<rparr>) t1 else t1\<lparr>t_tail := p\<rparr>)"
  have "same_slots X t t1" using X by (simp add: same_slots_upd t1_def)
  moreover have "same_slots X t1 t2" using X by (simp add: same_slots_upd t2_def)
  moreover have "same_slots X t2 (upd_slot i (\<lambda>s. s\<lparr>sl_prev := INVALID, sl_next := INVALID\<rparr>) t2)"
    using X by (intro same_slots_upd) simp
  moreover have "unlink_lru i t = upd_slot i (\<lambda>s. s\<lparr>sl_prev := INVALID, sl_next := INVALID\<rparr>) t2"
    unfolding unlink_lru_def Let_def t2_def t1_def p_def n_def ..
  ultimately show "same_slots X t (unlink_lru i t)" using same_slots_trans by metis
qed

lemma link_hash_frame:
  "t_head (link_l1_hash C i t) = t_head t" "t_tail (link_l1_hash C i t) = t_tail t"
  "t_store (link_l1_hash C i t) = t_store t"
  "(\<And>s h. X (s\<lparr>sl_hash_next := h\<rparr>) = X s) \<Longrightarrow> same_slots X t (link_l1_hash C i t)"
  by (simp_all add: link_l1_hash_def Let_def same_slots_upd)

lemma empty_slot_invalid [simp]: "\<not> sl_valid (empty_slot C)"
  by (simp add: empty_slot_def)

section \<open>The hash table\<close>

lemma bucket_less: "l1_bucket C key < L1_HASH_BUCKETS"
  by (simp add: l1_bucket_def L1_HASH_BUCKETS_def L1_CACHE_SIZE_def)

definition hash_lists :: "('k, 'v, 's) tier_params \<Rightarrow> ('k, 'v, 's) tier \<Rightarrow> (nat \<Rightarrow> nat list) \<Rightarrow> bool" where
  "hash_lists C t H \<longleftrightarrow> length (t_slots t) = L1_CACHE_SIZE \<and> length (t_buckets t) = L1_HASH_BUCKETS \<and>
     (\<forall>b < L1_HASH_BUCKETS. chain (t_slots t) (t_buckets t ! b) (H b) \<and> distinct (H b) \<and>
       (\<forall>i \<in> set (H b). i < L1_CACHE_SIZE \<and> l1_bucket C (sl_key (t_slots t ! i)) = b))"

lemma hash_update_other:
  assumes "hash_lists C t H" "\<And>c. c < L1_HASH_BUCKETS \<Longrightarrow> i \<notin> set (H c)"
  shows "hash_lists C (upd_slot i f t) H"
proof -
  have "j \<noteq> i" if "c < L1_HASH_BUCKETS" "j \<in> set (H c)" for c j using assms(2) that by metis
  then have "sl_key ((t_slots t)[i := x] ! j) = sl_key (t_slots t ! j)" if "c < L1_HASH_BUCKETS" "j \<in> set (H c)" for c j x
    using that by (metis nth_list_update_neq)
  with assms show ?thesis by (simp add: hash_lists_def)
qed

lemma hash_link:
  assumes H: "hash_lists C t H" and i: "i < L1_CACHE_SIZE" "\<forall>b < L1_HASH_BUCKETS. i \<notin> set (H b)"
  shows "hash_lists C (link_l1_hash C i t)
    (H(l1_bucket C (sl_key (t_slots t ! i)) := i # H (l1_bucket C (sl_key (t_slots t ! i)))))"
proof -
  let ?b = "l1_bucket C (sl_key (t_slots t ! i))" and ?t = "link_l1_hash C i t"
  have b: "?b < L1_HASH_BUCKETS" by (rule bucket_less)
  have len: "length (t_slots t) = L1_CACHE_SIZE" "length (t_buckets t) = L1_HASH_BUCKETS"
    using H by (simp_all add: hash_lists_def)
  have t: "t_slots ?t = (t_slots t)[i := (t_slots t ! i)\<lparr>sl_hash_next := t_buckets t ! ?b\<rparr>]"
    "t_buckets ?t = (t_buckets t)[?b := i]"
    by (simp_all add: link_l1_hash_def Let_def)
  have key: "sl_key (t_slots ?t ! j) = sl_key (t_slots t ! j)" for j
    using i(1) len by (cases "j = i") (simp_all add: t)
  have "chain (t_slots ?t) (t_buckets ?t ! c) ((H(?b := i # H ?b)) c) \<and> distinct ((H(?b := i # H ?b)) c) \<and>
      (\<forall>j \<in> set ((H(?b := i # H ?b)) c). j < L1_CACHE_SIZE \<and> l1_bucket C (sl_key (t_slots ?t ! j)) = c)"
    if c: "c < L1_HASH_BUCKETS" for c
  proof -
    have old: "chain (t_slots t) (t_buckets t ! c) (H c)" "distinct (H c)" "i \<notin> set (H c)"
      "\<forall>j \<in> set (H c). j < L1_CACHE_SIZE \<and> l1_bucket C (sl_key (t_slots t ! j)) = c"
      using H i(2) c by (simp_all add: hash_lists_def)
    then have ch: "chain (t_slots ?t) (t_buckets t ! c) (H c)" by (simp add: t(1))
    show ?thesis
    proof (cases "c = ?b")
      case True
      have "chain (t_slots ?t) i (i # H c)"
        using ch True i(1) index_valid [OF i(1)] len by (simp add: t(1))
      with True old b i(1) len key show ?thesis by (simp add: t(2))
    next
      case False
      with ch old b key show ?thesis by (simp add: t(2))
    qed
  qed
  then show ?thesis using len by (simp add: hash_lists_def t)
qed

lemma hash_unlink:
  assumes H: "hash_lists C t H" and i: "i \<in> set (H b)" "b < L1_HASH_BUCKETS"
  obtains t' where "unlink_l1_hash C i t = Some t'" "hash_lists C t' (H(b := remove1 i (H b)))"
    "t_head t' = t_head t" "t_tail t' = t_tail t" "t_store t' = t_store t"
    "same_slots core t t'" "same_slots sl_prev t t'" "same_slots sl_next t t'"
proof -
  have len: "length (t_slots t) = L1_CACHE_SIZE" "length (t_buckets t) = L1_HASH_BUCKETS"
    and ch: "chain (t_slots t) (t_buckets t ! b) (H b)" "distinct (H b)"
    and bk: "l1_bucket C (sl_key (t_slots t ! i)) = b" "\<forall>j \<in> set (H b). j < L1_CACHE_SIZE \<and> j \<noteq> INVALID"
    using H i index_valid by (auto simp: hash_lists_def)
  obtain as bs where split: "H b = as @ i # bs" "i \<notin> set as" using i(1) by (meson split_list_first)
  let ?prev = "if as = [] then INVALID else last as" and ?nxt = "sl_hash_next (t_slots t ! i)"
  define t1 where "t1 = (if ?prev = INVALID then t\<lparr>t_buckets := (t_buckets t)[b := ?nxt]\<rparr>
    else upd_slot ?prev (\<lambda>s. s\<lparr>sl_hash_next := ?nxt\<rparr>) t)"
  define t2 where "t2 = upd_slot i (\<lambda>s. s\<lparr>sl_hash_next := INVALID\<rparr>) t1"
  have "find_prev (t_slots t) i INVALID (t_buckets t ! b) = Some (Some ?prev)"
    using ch(1) split by (simp add: find_prev_chain)
  then have r: "unlink_l1_hash C i t = Some t2"
    by (simp add: unlink_l1_hash_def Let_def bk(1) t1_def t2_def)
  have nxt: "chain (t_slots t) ?nxt bs" using ch(1) split(1) chain_append_next by metis
  have rm: "remove1 i (H b) = as @ bs" using split by (simp add: remove1_append)
  have last: "last as \<noteq> INVALID" if "as \<noteq> []" using bk(2) split(1) that by simp
  have chain1: "chain (t_slots t1) (t_buckets t1 ! b) (as @ bs)"
  proof (cases as rule: rev_cases)
    case Nil
    with nxt i(2) len show ?thesis by (simp add: t1_def)
  next
    case (snoc as' a)
    have "a < length (t_slots t)" "a \<noteq> INVALID" using bk(2) split(1) snoc len by auto
    with chain_bypass [of "t_slots t" "t_buckets t ! b" as' a i bs] ch split(1) snoc show ?thesis
      by (simp add: t1_def)
  qed
  have out: "i \<notin> set (as @ bs)" using ch(2) split(1) by simp
  then have "chain (t_slots t2) (t_buckets t2 ! b) (as @ bs)" using chain1 by (simp add: t2_def)
  moreover have "chain (t_slots t2) (t_buckets t2 ! c) (H c)" if c: "c < L1_HASH_BUCKETS" "c \<noteq> b" for c
  proof -
    have bc: "\<forall>j \<in> set (H c). l1_bucket C (sl_key (t_slots t ! j)) = c"
      "\<forall>j \<in> set (H b). l1_bucket C (sl_key (t_slots t ! j)) = b"
      using H c i(2) by (simp_all add: hash_lists_def)
    then have "i \<notin> set (H c)" using c(2) bk(1) by metis
    moreover have "last as \<notin> set (H c)" if "as \<noteq> []"
    proof -
      have "last as \<in> set (H b)" using split(1) that by simp
      then show ?thesis using bc c(2) by metis
    qed
    moreover have "chain (t_slots t) (t_buckets t ! c) (H c)" using H c by (simp add: hash_lists_def)
    ultimately show ?thesis using c last by (simp add: t2_def t1_def)
  qed
  moreover have s: "same_slots X t t2" if "\<And>s h. X (s\<lparr>sl_hash_next := h\<rparr>) = X s" for X :: "('a, 'b) slot \<Rightarrow> 'y"
  proof -
    have "same_slots X t t1" using that by (simp add: same_slots_upd t1_def)
    moreover have "same_slots X t1 t2" using that by (simp add: same_slots_upd t2_def)
    ultimately show ?thesis by (rule same_slots_trans)
  qed
  moreover from s [of sl_key] have key: "sl_key (t_slots t2 ! j) = sl_key (t_slots t ! j)" for j
    by (simp add: same_slots_def)
  moreover have "length (t_buckets t2) = L1_HASH_BUCKETS" "length (t_slots t2) = L1_CACHE_SIZE"
    using len by (simp_all add: t2_def t1_def)
  ultimately have "hash_lists C t2 (H(b := remove1 i (H b)))"
    using H i(2) split(1) ch(2) unfolding hash_lists_def rm by (simp add: rm)
  with r s [of core] s [of sl_prev] s [of sl_next] show thesis by (intro that) (simp_all add: t2_def t1_def)
qed

section \<open>The invariant\<close>

definition valid_slots :: "('k, 'v, 's) tier \<Rightarrow> nat set" where
  "valid_slots t = {i. i < L1_CACHE_SIZE \<and> sl_valid (t_slots t ! i)}"

definition slot_key :: "('k, 'v, 's) tier \<Rightarrow> nat \<Rightarrow> 'k" where
  "slot_key t i = sl_key (t_slots t ! i)"

definition l1_linked :: "('k, 'v, 's) tier_params \<Rightarrow> ('k, 'v, 's) tier \<Rightarrow> nat list \<Rightarrow> (nat \<Rightarrow> nat list) \<Rightarrow> bool" where
  "l1_linked C t L H \<longleftrightarrow> lru_list t L \<and> hash_lists C t H \<and> set L = valid_slots t \<and>
     (\<forall>b < L1_HASH_BUCKETS. set (H b) = {i \<in> valid_slots t. l1_bucket C (slot_key t i) = b})"

definition l1_ok :: "('k, 'v, 's) tier_params \<Rightarrow> ('k, 'v, 's) tier \<Rightarrow> bool" where
  "l1_ok C t \<longleftrightarrow> (\<exists>L H. l1_linked C t L H) \<and> inj_on (slot_key t) (valid_slots t) \<and>
     (\<forall>i < L1_CACHE_SIZE. \<not> sl_valid (t_slots t ! i) \<longrightarrow> core (t_slots t ! i) = core (empty_slot C))"

lemma l1_ok_length: "l1_ok C t \<Longrightarrow> length (t_slots t) = L1_CACHE_SIZE"
  by (auto simp: l1_ok_def l1_linked_def lru_list_def)

text \<open>The cache as a map: an entry is a slot without its links.\<close>

definition cached :: "('k, 'v, 's) tier \<Rightarrow> 'k \<Rightarrow> ('k, 'v) slot option" where
  "cached t key = map_option (\<lambda>i. core (t_slots t ! i))
     (List.find (\<lambda>i. sl_valid (t_slots t ! i) \<and> sl_key (t_slots t ! i) = key) [0..<L1_CACHE_SIZE])"

lemma cached_None: "cached t key = None \<longleftrightarrow> (\<forall>i \<in> valid_slots t. slot_key t i \<noteq> key)"
  by (auto simp: cached_def find_None_iff valid_slots_def slot_key_def)

lemma cached_slot:
  assumes "inj_on (slot_key t) (valid_slots t)" "i \<in> valid_slots t"
  shows "cached t (slot_key t i) = Some (core (t_slots t ! i))"
proof -
  let ?P = "\<lambda>j. sl_valid (t_slots t ! j) \<and> sl_key (t_slots t ! j) = slot_key t i"
  from assms(2) obtain j where j: "List.find ?P [0..<L1_CACHE_SIZE] = Some j"
    by (cases "List.find ?P [0..<L1_CACHE_SIZE]") (auto simp: find_None_iff valid_slots_def slot_key_def)
  then have "j \<in> valid_slots t" "slot_key t j = slot_key t i"
    by (auto simp: find_Some_iff valid_slots_def slot_key_def)
  with assms have "j = i" by (meson inj_onD)
  with j show ?thesis by (simp add: cached_def)
qed

lemma cached_cases:
  assumes "inj_on (slot_key t) (valid_slots t)" "cached t key = Some s"
  obtains i where "i \<in> valid_slots t" "slot_key t i = key" "s = core (t_slots t ! i)"
  using assms(2) by (auto simp: cached_def find_Some_iff valid_slots_def slot_key_def)

lemma cached_same_slots:
  assumes "same_slots core t t'"
  shows "cached t' = cached t" "valid_slots t' = valid_slots t" "slot_key t' = slot_key t"
proof -
  have "core (t_slots t' ! j) = core (t_slots t ! j)" for j using assms by (simp add: same_slots_def)
  note c = this core_fields [OF this]
  show "cached t' = cached t" by (rule ext) (simp add: cached_def c)
  show "valid_slots t' = valid_slots t" by (simp add: valid_slots_def c)
  show "slot_key t' = slot_key t" by (rule ext) (simp add: slot_key_def c)
qed

text \<open>\<open>find_l1_\<close> ends and finds the slot of a cached key.\<close>

lemma find_l1_ok:
  assumes "l1_ok C t"
  obtains (hit) i where "find_l1 C key t = Some (Some i)" "i \<in> valid_slots t" "slot_key t i = key"
      "cached t key = Some (core (t_slots t ! i))"
  | (miss) "find_l1 C key t = Some None" "cached t key = None"
proof -
  obtain L H where LH: "l1_linked C t L H" and inj: "inj_on (slot_key t) (valid_slots t)"
    using assms by (auto simp: l1_ok_def)
  let ?b = "l1_bucket C key" and ?P = "\<lambda>i. sl_valid (t_slots t ! i) \<and> sl_key (t_slots t ! i) = key"
  have b: "?b < L1_HASH_BUCKETS" by (rule bucket_less)
  have ch: "chain (t_slots t) (t_buckets t ! ?b) (H ?b)" and
    set: "set (H ?b) = {i \<in> valid_slots t. l1_bucket C (slot_key t i) = ?b}"
    using LH b by (simp_all add: l1_linked_def hash_lists_def)
  have f: "find_l1 C key t = Some (List.find ?P (H ?b))"
    using find_from_chain [OF ch] by (simp add: find_l1_def)
  show thesis
  proof (cases "List.find ?P (H ?b)")
    case None
    then have "\<forall>i \<in> valid_slots t. slot_key t i \<noteq> key"
      using set by (auto simp: find_None_iff valid_slots_def slot_key_def)
    with None f show thesis by (intro miss) (simp_all add: cached_None)
  next
    case (Some i)
    then have "i \<in> set (H ?b)" "slot_key t i = key" by (auto simp: find_Some_iff slot_key_def)
    with set have i: "i \<in> valid_slots t" "slot_key t i = key" by simp_all
    with cached_slot [OF inj i(1)] Some f show thesis by (intro hit) simp_all
  qed
qed

section \<open>The invariant and the links\<close>

lemma lru_list_cong:
  assumes "same_slots sl_prev t t'" "same_slots sl_next t t'" "t_head t' = t_head t" "t_tail t' = t_tail t"
  shows "lru_list t' L = lru_list t L"
proof -
  have "dseg (t_slots t') p h L e = dseg (t_slots t) p h L e" for p h e
    by (rule dseg_cong) (use assms in \<open>simp add: same_slots_def\<close>)
  then show ?thesis using assms by (simp add: lru_list_def same_slots_def)
qed

lemma hash_lists_cong:
  assumes "same_slots sl_hash_next t t'" "same_slots sl_key t t'" "t_buckets t' = t_buckets t"
  shows "hash_lists C t' H = hash_lists C t H"
proof -
  have "chain (t_slots t') h xs = chain (t_slots t) h xs" for h xs
    by (rule chain_cong) (use assms in \<open>simp add: same_slots_def\<close>)
  then show ?thesis using assms by (simp add: hash_lists_def same_slots_def)
qed

lemma same_slots_core: "same_slots core t t' \<Longrightarrow> same_slots sl_key t t'"
  unfolding same_slots_def using core_fields(1) by blast

lemma touch_ok:
  assumes ok: "l1_ok C t" and i: "i \<in> valid_slots t"
  shows "l1_ok C (touch_l1 i t)" "same_slots core t (touch_l1 i t)" "t_store (touch_l1 i t) = t_store t"
proof -
  obtain L H where LH: "l1_linked C t L H" using ok by (auto simp: l1_ok_def)
  have L: "lru_list t L" "i \<in> set L" "distinct L" using LH i by (auto simp: l1_linked_def lru_list_def)
  let ?u = "unlink_lru i t" let ?t = "link_lru_front i ?u"
  have core: "same_slots core t ?t" "same_slots sl_hash_next t ?t"
    by (rule same_slots_trans [OF unlink_lru_frame(3) link_lru_frame(3)], simp_all)+
  have "lru_list ?t (i # remove1 i L)"
    using lru_unlink [OF L(1,2)] i L(3) by (intro lru_link) (simp_all add: valid_slots_def)
  moreover have "hash_lists C ?t H"
    using hash_lists_cong [OF core(2) same_slots_core [OF core(1)]] LH
    by (simp add: l1_linked_def link_lru_frame unlink_lru_frame)
  moreover have "set (i # remove1 i L) = set L" using L(2,3) by auto
  ultimately have "l1_linked C ?t (i # remove1 i L) H"
    using LH cached_same_slots [OF core(1)] by (simp add: l1_linked_def)
  then have "l1_ok C ?t" using ok cached_same_slots [OF core(1)] core(1) unfolding l1_ok_def
    by (auto simp: same_slots_def valid_slots_def dest: core_fields)
  with ok core show "l1_ok C (touch_l1 i t)" "same_slots core t (touch_l1 i t)" "t_store (touch_l1 i t) = t_store t"
    by (simp_all add: touch_l1_def link_lru_frame unlink_lru_frame)
qed

text \<open>Changing the data of a cached slot.\<close>

lemma update_ok:
  assumes ok: "l1_ok C t" and i: "i \<in> valid_slots t"
    and f: "sl_key (f (t_slots t ! i)) = slot_key t i" "sl_valid (f (t_slots t ! i))"
      "sl_prev (f (t_slots t ! i)) = sl_prev (t_slots t ! i)" "sl_next (f (t_slots t ! i)) = sl_next (t_slots t ! i)"
      "sl_hash_next (f (t_slots t ! i)) = sl_hash_next (t_slots t ! i)"
  shows "l1_ok C (upd_slot i f t)" "valid_slots (upd_slot i f t) = valid_slots t"
    "cached (upd_slot i f t) = (cached t)(slot_key t i \<mapsto> core (f (t_slots t ! i)))"
proof -
  let ?t = "upd_slot i f t"
  obtain L H where LH: "l1_linked C t L H" and inj: "inj_on (slot_key t) (valid_slots t)"
    using ok by (auto simp: l1_ok_def)
  have len: "i < length (t_slots t)" using i l1_ok_length [OF ok] by (simp add: valid_slots_def)
  have nth: "t_slots ?t ! j = (if j = i then f (t_slots t ! i) else t_slots t ! j)" for j
    using len by (simp add: nth_list_update)
  have same: "same_slots sl_prev t ?t" "same_slots sl_next t ?t" "same_slots sl_hash_next t ?t" "same_slots sl_key t ?t"
    using f by (simp_all add: same_slots_def nth slot_key_def del: upd_slot_simps(6))
  have keys: "slot_key ?t = slot_key t" using f(1) by (auto simp: slot_key_def nth fun_eq_iff simp del: upd_slot_simps(6))
  show vs: "valid_slots ?t = valid_slots t"
    using f(2) i by (auto simp: valid_slots_def nth simp del: upd_slot_simps(6))
  have "l1_linked C ?t L H"
    using LH lru_list_cong [OF same(1,2), of L] hash_lists_cong [OF same(3,4), of C H] keys vs
    by (simp add: l1_linked_def del: upd_slot_simps(6))
  moreover have "\<forall>j < L1_CACHE_SIZE. \<not> sl_valid (t_slots ?t ! j) \<longrightarrow> core (t_slots ?t ! j) = core (empty_slot C)"
    using ok f(2) by (auto simp: l1_ok_def nth simp del: upd_slot_simps(6))
  ultimately show ok': "l1_ok C ?t" using inj keys vs unfolding l1_ok_def by (auto simp del: upd_slot_simps(6))
  have inj': "inj_on (slot_key ?t) (valid_slots ?t)" using inj keys vs by simp
  show "cached ?t = (cached t)(slot_key t i \<mapsto> core (f (t_slots t ! i)))"
  proof
    fix key
    show "cached ?t key = ((cached t)(slot_key t i \<mapsto> core (f (t_slots t ! i)))) key"
    proof (cases "key = slot_key t i")
      case True
      with cached_slot [OF inj', of i] i keys vs show ?thesis by (simp add: nth del: upd_slot_simps(6))
    next
      case False
      show ?thesis
      proof (cases "cached t key")
        case None
        with keys vs have "cached ?t key = None" unfolding cached_None by simp
        with None False show ?thesis by simp
      next
        case (Some s)
        then obtain j where j: "j \<in> valid_slots t" "slot_key t j = key" "s = core (t_slots t ! j)"
          by (rule cached_cases [OF inj])
        then have "j \<noteq> i" using False by auto
        with cached_slot [OF inj', of j] j keys vs False Some show ?thesis
          by (simp add: nth del: upd_slot_simps(6))
      qed
    qed
  qed
qed

text \<open>Removing a cached slot.\<close>

lemma remove_l1_slot_ok:
  assumes ok: "l1_ok C t" and i: "i \<in> valid_slots t"
  obtains t' where "remove_l1_slot C i t = Some t'" "l1_ok C t'" "t_store t' = t_store t"
    "valid_slots t' = valid_slots t - {i}" "cached t' = (cached t)(slot_key t i := None)"
    "\<forall>j. j \<noteq> i \<longrightarrow> core (t_slots t' ! j) = core (t_slots t ! j)" "core (t_slots t' ! i) = core (empty_slot C)"
proof -
  obtain L H where LH: "l1_linked C t L H" and inj: "inj_on (slot_key t) (valid_slots t)"
    using ok by (auto simp: l1_ok_def)
  let ?b = "l1_bucket C (slot_key t i)"
  have b: "?b < L1_HASH_BUCKETS" by (rule bucket_less)
  have Hb: "i \<in> set (H ?b)" and iL: "i \<in> set L" "distinct L" and H: "hash_lists C t H" and L: "lru_list t L"
    using LH i b by (auto simp: l1_linked_def lru_list_def)
  have i10: "i < L1_CACHE_SIZE" "sl_valid (t_slots t ! i)" using i by (simp_all add: valid_slots_def)
  obtain t1 where t1: "unlink_l1_hash C i t = Some t1" "hash_lists C t1 (H(?b := remove1 i (H ?b)))"
    "t_head t1 = t_head t" "t_tail t1 = t_tail t" "t_store t1 = t_store t"
    "same_slots core t t1" "same_slots sl_prev t t1" "same_slots sl_next t t1"
    by (rule hash_unlink [OF H Hb b])
  let ?t2 = "unlink_lru i t1" let ?t3 = "upd_slot i (\<lambda>_. empty_slot C) ?t2"
  let ?H = "H(?b := remove1 i (H ?b))" and ?L = "remove1 i L"
  have L2: "lru_list ?t2 ?L"
    using lru_list_cong [OF t1(7,8,3,4)] L iL by (intro lru_unlink) simp_all
  have c2: "same_slots core t ?t2"
    by (rule same_slots_trans [OF t1(6) unlink_lru_frame(3)]) simp_all
  have H2: "hash_lists C ?t2 ?H"
    using hash_lists_cong [of t1 ?t2 C ?H, OF unlink_lru_frame(3) unlink_lru_frame(3)] t1(2)
    by (simp add: unlink_lru_frame)
  have len: "i < length (t_slots ?t2)" using L2 i10 by (simp add: lru_list_def)
  have out: "i \<notin> set ?L" "\<And>c. c < L1_HASH_BUCKETS \<Longrightarrow> i \<notin> set (?H c)"
    using iL LH b H by (auto simp: l1_linked_def hash_lists_def)
  have nth: "t_slots ?t3 ! j = (if j = i then empty_slot C else t_slots ?t2 ! j)" for j
    using len by (simp add: nth_list_update)
  have core: "core (t_slots ?t2 ! j) = core (t_slots t ! j)" for j using c2 by (simp add: same_slots_def)
  note cf = core_fields [OF core]
  have L3: "lru_list ?t3 ?L" using L2 out(1) by (simp add: lru_list_def)
  have H3: "hash_lists C ?t3 ?H"
    using H2 out(2) by (rule hash_update_other)
  have vs: "valid_slots ?t3 = valid_slots t - {i}"
    using cf by (auto simp: valid_slots_def nth simp del: upd_slot_simps(6))
  have keys: "slot_key ?t3 j = slot_key t j" if "j \<noteq> i" for j
    using that cf by (simp add: slot_key_def nth del: upd_slot_simps(6))
  have "set ?L = valid_slots ?t3" using LH iL(2) by (simp add: vs l1_linked_def set_remove1_eq)
  moreover have "set (?H c) = {j \<in> valid_slots ?t3. l1_bucket C (slot_key ?t3 j) = c}" if c: "c < L1_HASH_BUCKETS" for c
  proof -
    have "set (H c) = {j \<in> valid_slots t. l1_bucket C (slot_key t j) = c}" "distinct (H c)"
      using LH H c by (simp_all add: l1_linked_def hash_lists_def)
    then have "set (?H c) = {j \<in> valid_slots t. l1_bucket C (slot_key t j) = c} - {i}"
      using i by (cases "c = ?b") (simp_all add: set_remove1_eq)
    moreover have "l1_bucket C (slot_key ?t3 j) = c \<longleftrightarrow> l1_bucket C (slot_key t j) = c" if "j \<noteq> i" for j
      using keys [OF that] by simp
    ultimately show ?thesis unfolding vs by blast
  qed
  ultimately have "l1_linked C ?t3 ?L ?H" using L3 H3 by (simp add: l1_linked_def)
  moreover have inj3: "inj_on (slot_key ?t3) (valid_slots ?t3)"
    using inj keys vs by (auto simp: inj_on_def)
  moreover have "\<forall>j < L1_CACHE_SIZE. \<not> sl_valid (t_slots ?t3 ! j) \<longrightarrow> core (t_slots ?t3 ! j) = core (empty_slot C)"
    using ok cf core by (auto simp: l1_ok_def nth simp del: upd_slot_simps(6))
  ultimately have ok3: "l1_ok C ?t3" unfolding l1_ok_def by blast
  have "cached ?t3 key = ((cached t)(slot_key t i := None)) key" for key
  proof (cases "\<exists>j \<in> valid_slots t. slot_key t j = key \<and> j \<noteq> i")
    case True
    then obtain j where j: "j \<in> valid_slots t" "slot_key t j = key" "j \<noteq> i" by blast
    then have "slot_key t i \<noteq> key" using inj i by (metis inj_onD)
    with cached_slot [OF inj3, of j] cached_slot [OF inj j(1)] j keys vs core show ?thesis
      by (simp add: nth del: upd_slot_simps(6))
  next
    case False
    then have "cached ?t3 key = None" using keys vs by (auto simp: cached_None)
    moreover have "cached t key = None" if "key \<noteq> slot_key t i" using False that by (auto simp: cached_None)
    ultimately show ?thesis by simp
  qed
  then have "cached ?t3 = (cached t)(slot_key t i := None)" by blast
  moreover have "remove_l1_slot C i t = Some ?t3" using i10 by (simp add: remove_l1_slot_def t1(1))
  moreover have "t_store ?t3 = t_store t" by (simp add: unlink_lru_frame t1(5))
  ultimately show thesis using ok3 vs core
    by (intro that [of ?t3]) (simp_all add: nth del: upd_slot_simps(6))
qed

text \<open>Filling a free slot.\<close>

lemma insert_ok:
  assumes ok: "l1_ok C t" and i: "i < L1_CACHE_SIZE" "\<not> sl_valid (t_slots t ! i)"
    and f: "sl_key (f (t_slots t ! i)) = key" "sl_valid (f (t_slots t ! i))"
    and fresh: "cached t key = None"
  defines "t' \<equiv> link_lru_front i (link_l1_hash C i (upd_slot i f t))"
  shows "l1_ok C t'" "cached t' = (cached t)(key \<mapsto> core (f (t_slots t ! i)))" "t_store t' = t_store t"
    "valid_slots t' = insert i (valid_slots t)"
proof -
  obtain L H where LH: "l1_linked C t L H" and inj: "inj_on (slot_key t) (valid_slots t)"
    using ok by (auto simp: l1_ok_def)
  have out: "i \<notin> valid_slots t" using i(2) by (simp add: valid_slots_def)
  have L: "lru_list t L" "i \<notin> set L" and H: "hash_lists C t H" "\<And>c. c < L1_HASH_BUCKETS \<Longrightarrow> i \<notin> set (H c)"
    using LH out by (auto simp: l1_linked_def)
  have len: "i < length (t_slots t)" using i l1_ok_length [OF ok] by simp
  let ?t1 = "upd_slot i f t" let ?t2 = "link_l1_hash C i ?t1" let ?b = "l1_bucket C key"
  have n1: "t_slots ?t1 ! j = (if j = i then f (t_slots t ! i) else t_slots t ! j)" for j
    using len by (simp add: nth_list_update)
  have L1: "lru_list ?t1 L" using L by (simp add: lru_list_def)
  have H1: "hash_lists C ?t1 H" using H by (rule hash_update_other)
  have H2: "hash_lists C ?t2 (H(?b := i # H ?b))"
    using hash_link [OF H1 i(1)] H(2) f(1) by (simp add: n1 del: upd_slot_simps(6))
  have L2: "lru_list ?t2 L"
    using lru_list_cong [of ?t1 ?t2 L, OF link_hash_frame(4) link_hash_frame(4)] L1 by (simp add: link_hash_frame)
  have L3: "lru_list t' (i # L)" unfolding t'_def using lru_link [OF L2 i(1) L(2)] .
  have H3: "hash_lists C t' (H(?b := i # H ?b))"
    unfolding t'_def
    using hash_lists_cong [of ?t2 "link_lru_front i ?t2" C, OF link_lru_frame(3) link_lru_frame(3)] H2
    by (simp add: link_lru_frame)
  have same: "same_slots core ?t1 t'"
    unfolding t'_def by (rule same_slots_trans [OF link_hash_frame(4) link_lru_frame(3)]) simp_all
  note cs = cached_same_slots [OF same]
  have keys: "slot_key t' j = (if j = i then key else slot_key t j)" for j
    unfolding cs using f(1) by (simp add: slot_key_def n1 del: upd_slot_simps(6))
  show vs: "valid_slots t' = insert i (valid_slots t)"
    unfolding cs using f(2) i(1) by (auto simp: valid_slots_def n1 simp del: upd_slot_simps(6))
  have core: "core (t_slots t' ! j) = core (if j = i then f (t_slots t ! i) else t_slots t ! j)" for j
    using same by (simp add: same_slots_def n1 del: upd_slot_simps(6))
  have "set ((H(?b := i # H ?b)) c) = {j \<in> valid_slots t'. l1_bucket C (slot_key t' j) = c}"
    if "c < L1_HASH_BUCKETS" for c
    using LH that out by (auto simp: l1_linked_def vs keys)
  with L3 H3 LH have "l1_linked C t' (i # L) (H(?b := i # H ?b))" by (simp add: l1_linked_def vs)
  moreover have inj': "inj_on (slot_key t') (valid_slots t')"
    using inj out fresh by (auto simp: inj_on_def vs keys cached_None)
  moreover have "\<forall>j < L1_CACHE_SIZE. \<not> sl_valid (t_slots t' ! j) \<longrightarrow> core (t_slots t' ! j) = core (empty_slot C)"
    using ok f(2) core core_fields(5) [OF core] by (auto simp: l1_ok_def)
  ultimately show "l1_ok C t'" unfolding l1_ok_def by blast
  show "t_store t' = t_store t" by (simp add: t'_def link_lru_frame link_hash_frame)
  show "cached t' = (cached t)(key \<mapsto> core (f (t_slots t ! i)))"
  proof
    fix k
    show "cached t' k = ((cached t)(key \<mapsto> core (f (t_slots t ! i)))) k"
    proof (cases "k = key")
      case True
      with cached_slot [OF inj', of i] keys vs core show ?thesis by simp
    next
      case False
      show ?thesis
      proof (cases "cached t k")
        case None
        with False have "cached t' k = None" unfolding cached_None by (simp add: vs keys)
        with None False show ?thesis by simp
      next
        case (Some s)
        then obtain j where j: "j \<in> valid_slots t" "slot_key t j = k" "s = core (t_slots t ! j)"
          by (rule cached_cases [OF inj])
        then have "j \<noteq> i" using out by auto
        with cached_slot [OF inj', of j] j keys vs core False Some show ?thesis by simp
      qed
    qed
  qed
qed

lemma reset_l1_ok: "l1_ok C (reset_l1 C t)" "cached (reset_l1 C t) = Map.empty" "valid_slots (reset_l1 C t) = {}"
  "t_store (reset_l1 C t) = t_store t"
proof -
  have nth: "i < L1_CACHE_SIZE \<Longrightarrow> t_slots (reset_l1 C t) ! i = empty_slot C" for i
    by (simp add: reset_l1_def)
  show vs: "valid_slots (reset_l1 C t) = {}" by (auto simp: valid_slots_def nth empty_slot_def)
  then show "cached (reset_l1 C t) = Map.empty" by (auto simp: fun_eq_iff cached_None)
  have "l1_linked C (reset_l1 C t) [] (\<lambda>_. [])"
    using vs by (simp add: l1_linked_def lru_list_def hash_lists_def) (simp add: reset_l1_def)
  with vs nth show "l1_ok C (reset_l1 C t)" unfolding l1_ok_def by (auto simp: inj_on_def)
  show "t_store (reset_l1 C t) = t_store t" by (simp add: reset_l1_def)
qed

end
