(* ===== verification/TieredOps.thy ===== *)
theory TieredOps
  imports TieredInvariant
begin

text \<open>
  The operations of the cache on its map: each returns, keeps the invariant, and changes the map as
  stated. The store below is arbitrary here.
\<close>

section \<open>Slots\<close>

lemma slot_freed: "i \<in> valid_slots t \<Longrightarrow> i \<notin> valid_slots t' \<Longrightarrow> i < L1_CACHE_SIZE \<and> \<not> sl_valid (t_slots t' ! i)"
  by (simp add: valid_slots_def)

lemma l1_ok_inj: "l1_ok C t \<Longrightarrow> inj_on (slot_key t) (valid_slots t)"
  by (simp add: l1_ok_def)

lemma l1_ok_cached: "l1_ok C t \<Longrightarrow> i \<in> valid_slots t \<Longrightarrow> cached t (slot_key t i) = Some (core (t_slots t ! i))"
  using cached_slot l1_ok_inj by metis

lemma l1_ok_store [simp]: "l1_ok C (t\<lparr>t_store := st\<rparr>) = l1_ok C t"
  "cached (t\<lparr>t_store := st\<rparr>) = cached t" "valid_slots (t\<lparr>t_store := st\<rparr>) = valid_slots t"
  "slot_key (t\<lparr>t_store := st\<rparr>) = slot_key t"
proof -
  have "same_slots core t (t\<lparr>t_store := st\<rparr>)" by simp
  note c = cached_same_slots [OF this]
  show "cached (t\<lparr>t_store := st\<rparr>) = cached t" "valid_slots (t\<lparr>t_store := st\<rparr>) = valid_slots t"
    "slot_key (t\<lparr>t_store := st\<rparr>) = slot_key t" using c by simp_all
  then show "l1_ok C (t\<lparr>t_store := st\<rparr>) = l1_ok C t"
    by (simp add: l1_ok_def l1_linked_def lru_list_def hash_lists_def)
qed

text \<open>What a slot holds, as an entry of the map.\<close>

abbreviation slot_of :: "('k, 'v, 's) tier \<Rightarrow> nat \<Rightarrow> ('k, 'v) slot" where
  "slot_of t i \<equiv> t_slots t ! i"

lemma slot_expired_core [simp]: "slot_expired clk (core s) = slot_expired clk s"
  by (simp add: slot_expired_def)

lemma expire_l1_slot_ok:
  assumes ok: "l1_ok C t" and i: "i \<in> valid_slots t"
  obtains t' where "expire_l1_slot C clk i t = Some t'" "l1_ok C t'" "valid_slots t' = valid_slots t - {i}"
    "cached t' = (cached t)(slot_key t i := None)"
    "t_store t' = (if sl_in_l2 (slot_of t i)
       then snd (b_remove (tp_store C) clk (enc (tp_key C) (slot_key t i)) (t_store t)) else t_store t)"
    "\<forall>j. j \<noteq> i \<longrightarrow> core (slot_of t' j) = core (slot_of t j)"
proof -
  obtain t' where t': "remove_l1_slot C i t = Some t'" "l1_ok C t'" "t_store t' = t_store t"
    "valid_slots t' = valid_slots t - {i}" "cached t' = (cached t)(slot_key t i := None)"
    "\<forall>j. j \<noteq> i \<longrightarrow> core (t_slots t' ! j) = core (t_slots t ! j)"
    by (rule remove_l1_slot_ok [OF ok i])
  then show thesis
    by (intro that [of "if sl_in_l2 (slot_of t i)
        then t'\<lparr>t_store := snd (b_remove (tp_store C) clk (enc (tp_key C) (slot_key t i)) (t_store t))\<rparr> else t'"])
      (simp_all add: expire_l1_slot_def slot_key_def)
qed

lemma flush_l1_slot_ok:
  assumes ok: "l1_ok C t" and i: "i \<in> valid_slots t"
  obtains ok' t' where "flush_l1_slot C clk i t = (ok', t')" "l1_ok C t'" "valid_slots t' = valid_slots t"
    "slot_key t' i = slot_key t i"
    "if sl_dirty (slot_of t i) then
       (let put = b_put (tp_store C) clk (enc (tp_key C) (slot_key t i)) (enc (tp_value C) (sl_value (slot_of t i)))
          (remaining_ttl clk (slot_of t i)) (clk_time clk) (sl_priority (slot_of t i)) (t_store t)
        in t_store t' = snd put \<and> ok' = fst put \<and>
          cached t' = (if ok' then (cached t)(slot_key t i \<mapsto>
            (core (slot_of t i))\<lparr>sl_dirty := False, sl_in_l2 := True\<rparr>) else cached t))
     else ok' \<and> t' = t"
    "\<forall>key. key \<noteq> slot_key t i \<longrightarrow> cached t' key = cached t key" "cached t' = cached t \<or> ok'"
    "\<forall>j. j \<noteq> i \<longrightarrow> core (slot_of t' j) = core (slot_of t j)" "ok' \<longrightarrow> \<not> sl_dirty (slot_of t' i)"
proof (cases "sl_dirty (slot_of t i)")
  case False
  then show thesis using ok by (intro that [of True t]) (simp_all add: flush_l1_slot_def)
next
  case True
  have v: "sl_valid (slot_of t i)" using i by (simp add: valid_slots_def)
  let ?put = "b_put (tp_store C) clk (enc (tp_key C) (slot_key t i)) (enc (tp_value C) (sl_value (slot_of t i)))
      (remaining_ttl clk (slot_of t i)) (clk_time clk) (sl_priority (slot_of t i)) (t_store t)"
  let ?t = "t\<lparr>t_store := snd ?put\<rparr>" let ?f = "\<lambda>s. s\<lparr>sl_dirty := False, sl_in_l2 := True\<rparr>"
  have u: "l1_ok C (upd_slot i ?f ?t)" "valid_slots (upd_slot i ?f ?t) = valid_slots ?t"
    "cached (upd_slot i ?f ?t) = (cached ?t)(slot_key ?t i \<mapsto> core (?f (slot_of ?t i)))"
    using ok i v by (intro update_ok; simp add: slot_key_def)+
  have key: "slot_key (upd_slot i ?f ?t) i = slot_key t i"
    using upd_slot_keep [of sl_key ?f i ?t i] by (simp add: slot_key_def del: upd_slot_simps(6))
  have core: "core (?f (slot_of ?t i)) = (core (slot_of t i))\<lparr>sl_dirty := False, sl_in_l2 := True\<rparr>"
    by (simp add: core_def)
  have "i < length (t_slots ?t)" using i l1_ok_length [OF ok] by (simp add: valid_slots_def)
  then have nth: "slot_of (upd_slot i ?f ?t) j = (if j = i then ?f (slot_of t i) else slot_of t j)" for j
    by (simp add: nth_list_update)
  have fl: "flush_l1_slot C clk i t = (if fst ?put then (True, upd_slot i ?f ?t) else (False, ?t))"
    using True v by (simp add: flush_l1_slot_def Let_def slot_key_def split: prod.split bool.split)
  show thesis
  proof (cases "fst ?put")
    case True
    with fl u key core \<open>sl_dirty (slot_of t i)\<close> show thesis
      by (intro that [of True "upd_slot i ?f ?t"]) (simp_all add: Let_def nth del: upd_slot_simps(6))
  next
    case False
    with fl ok \<open>sl_dirty (slot_of t i)\<close> show thesis by (intro that [of False ?t]) (simp_all add: Let_def)
  qed
qed

lemma l1_ok_lru:
  assumes "l1_ok C t"
  obtains L where "t_tail t = final INVALID L" "set L = valid_slots t"
  using assms unfolding l1_ok_def l1_linked_def lru_list_def by blast

lemma lru_tail_valid:
  assumes "l1_ok C t" "t_tail t \<noteq> INVALID"
  shows "t_tail t \<in> valid_slots t"
proof -
  obtain L where L: "t_tail t = final INVALID L" "set L = valid_slots t" by (rule l1_ok_lru [OF assms(1)])
  with assms(2) have "L \<noteq> []" by (cases L) simp_all
  then have "t_tail t = last L" "last L \<in> set L" using L(1) by (simp_all add: final_def)
  then show ?thesis using L(2) by simp
qed

lemma free_l1_slot_cases:
  obtains i where "free_l1_slot t = Some i" "i < L1_CACHE_SIZE" "\<not> sl_valid (slot_of t i)"
  | "free_l1_slot t = None" "valid_slots t = {..<L1_CACHE_SIZE}"
proof (cases "free_l1_slot t")
  case None
  then have "\<forall>i < L1_CACHE_SIZE. sl_valid (slot_of t i)" by (auto simp: free_l1_slot_def find_None_iff)
  then show thesis using None by (intro that(2)) (auto simp: valid_slots_def)
next
  case (Some i)
  then have "i \<in> set [0..<L1_CACHE_SIZE] \<and> \<not> sl_valid (slot_of t i)"
    unfolding free_l1_slot_def find_Some_iff by (metis nth_mem)
  then show thesis using Some by (intro that(1)) auto
qed

text \<open>The three ways to a slot: one is free; the least recently used one has expired, and is removed; or
  it is written back, and removed unless that fails.\<close>

lemma allocate_ok:
  assumes ok: "l1_ok C t"
  obtains (free) i where "allocate_l1_slot C clk t = Some (Some i, t)" "i < L1_CACHE_SIZE" "\<not> sl_valid (slot_of t i)"
  | (expired) t' where "t_tail t \<in> valid_slots t" "slot_expired clk (slot_of t (t_tail t))"
      "expire_l1_slot C clk (t_tail t) t = Some t'" "allocate_l1_slot C clk t = Some (Some (t_tail t), t')"
  | (failed) t' where "t_tail t \<in> valid_slots t" "\<not> slot_expired clk (slot_of t (t_tail t))"
      "flush_l1_slot C clk (t_tail t) t = (False, t')" "allocate_l1_slot C clk t = Some (None, t')"
  | (evicted) t1 t' where "t_tail t \<in> valid_slots t" "\<not> slot_expired clk (slot_of t (t_tail t))"
      "flush_l1_slot C clk (t_tail t) t = (True, t1)" "remove_l1_slot C (t_tail t) t1 = Some t'"
      "allocate_l1_slot C clk t = Some (Some (t_tail t), t')"
proof (cases t rule: free_l1_slot_cases)
  case (1 i)
  then show thesis by (intro free) (simp_all add: allocate_l1_slot_def)
next
  case 2
  have ne: "t_tail t \<noteq> INVALID"
  proof
    assume inv: "t_tail t = INVALID"
    obtain L where L: "t_tail t = final INVALID L" "set L = valid_slots t" by (rule l1_ok_lru [OF ok])
    have "0 \<in> set L" unfolding L(2) 2(2) by (simp add: L1_CACHE_SIZE_def)
    then have "L \<noteq> []" by (cases L) simp_all
    from last_in_set [OF this] have "last L \<in> valid_slots t" unfolding L(2) .
    then have "last L < L1_CACHE_SIZE" by (simp add: valid_slots_def)
    with index_valid [OF this] L(1) inv \<open>L \<noteq> []\<close> show False by (simp add: final_def)
  qed
  have tv: "t_tail t \<in> valid_slots t" by (rule lru_tail_valid [OF ok ne])
  show thesis
  proof (cases "slot_expired clk (slot_of t (t_tail t))")
    case True
    obtain t' where "expire_l1_slot C clk (t_tail t) t = Some t'" by (rule expire_l1_slot_ok [OF ok tv, of clk])
    with True ne 2(1) tv show thesis by (intro expired) (simp_all add: allocate_l1_slot_def)
  next
    case False
    obtain b t1 where fl: "flush_l1_slot C clk (t_tail t) t = (b, t1)" "l1_ok C t1" "valid_slots t1 = valid_slots t"
      by (rule flush_l1_slot_ok [OF ok tv, of clk])
    have "t_tail t \<in> valid_slots t1" using tv fl(3) by simp
    then obtain t' where "remove_l1_slot C (t_tail t) t1 = Some t'" by (rule remove_l1_slot_ok [OF fl(2)])
    note t' = this
    show thesis
    proof (cases b)
      case True
      with fl False ne 2(1) tv t' show thesis
        by (intro evicted [of t1 t']) (simp_all add: allocate_l1_slot_def)
    next
      assume "\<not> b"
      with fl False ne 2(1) tv show thesis by (intro failed [of t1]) (simp_all add: allocate_l1_slot_def)
    qed
  qed
qed

text \<open>Whatever happens, the invariant is kept, the slot is free, and the cache has lost at most one entry
  that was not the one of a key that is not cached.\<close>

lemma allocate_total:
  assumes ok: "l1_ok C t"
  obtains r t' where "allocate_l1_slot C clk t = Some (r, t')" "l1_ok C t'"
    "\<And>i. r = Some i \<Longrightarrow> i < L1_CACHE_SIZE \<and> \<not> sl_valid (slot_of t' i)"
    "\<And>key. cached t key = None \<Longrightarrow> cached t' key = None"
proof (cases rule: allocate_ok [OF ok, of clk])
  case (1 i)
  then show thesis using ok by (intro that) auto
next
  case (2 t')
  obtain t'' where "expire_l1_slot C clk (t_tail t) t = Some t''" "l1_ok C t''"
    "valid_slots t'' = valid_slots t - {t_tail t}" "cached t'' = (cached t)(slot_key t (t_tail t) := None)"
    by (rule expire_l1_slot_ok [OF ok 2(1)])
  with 2 slot_freed [OF 2(1), of t'] show thesis by (intro that [OF 2(4)]) auto
next
  case (3 t')
  obtain b t1 where "flush_l1_slot C clk (t_tail t) t = (b, t1)" "l1_ok C t1" "cached t1 = cached t \<or> b"
    by (rule flush_l1_slot_ok [OF ok 3(1), of clk])
  with 3 show thesis by (intro that [OF 3(4)]) auto
next
  case (4 t1 t')
  obtain b t1' where f: "flush_l1_slot C clk (t_tail t) t = (b, t1')" "l1_ok C t1'" "valid_slots t1' = valid_slots t"
    "slot_key t1' (t_tail t) = slot_key t (t_tail t)"
    "\<forall>key. key \<noteq> slot_key t (t_tail t) \<longrightarrow> cached t1' key = cached t key"
    by (rule flush_l1_slot_ok [OF ok 4(1), of clk])
  have t1: "t1' = t1" using f(1) 4(3) by simp
  have "t_tail t \<in> valid_slots t1'" using f(3) 4(1) by simp
  then obtain t'' where "remove_l1_slot C (t_tail t) t1' = Some t''" "l1_ok C t''"
    "valid_slots t'' = valid_slots t1' - {t_tail t}" "cached t'' = (cached t1')(slot_key t1' (t_tail t) := None)"
    by (rule remove_l1_slot_ok [OF f(2)])
  moreover from this 4(4) t1 have "t'' = t'" by simp
  ultimately show thesis using f(4,5) slot_freed [OF 4(1), of t'] by (intro that [OF 4(5)]) auto
qed

section \<open>Pruning\<close>

lemma for_slots_invariant:
  assumes "\<And>i t. i \<in> set xs \<Longrightarrow> I t \<Longrightarrow> \<exists>t'. f i t = Some t' \<and> I t'" "I t"
  obtains t' where "for_slots xs f t = Some t'" "I t'"
  using assms
proof (induction xs arbitrary: t thesis)
  case Nil
  then show thesis by simp
next
  case (Cons i xs)
  obtain t1 where t1: "f i t = Some t1" "I t1" using Cons.prems(2) [of i t] Cons.prems(3) by auto
  obtain t' where "for_slots xs f t1 = Some t'" "I t'"
    by (rule Cons.IH [OF _ _ t1(2)]) (use Cons.prems(2) in auto)
  with t1(1) show thesis by (intro Cons.prems(1)) simp_all
qed

lemma cached_restrict:
  assumes "inj_on (slot_key t) (valid_slots t)" "inj_on (slot_key t') (valid_slots t')"
    and vs: "valid_slots t' = {i \<in> valid_slots t. P (core (slot_of t i))}"
    and core: "\<forall>j \<in> valid_slots t'. core (slot_of t' j) = core (slot_of t j)"
  shows "cached t' key = (case cached t key of None \<Rightarrow> None | Some s \<Rightarrow> if P s then Some s else None)"
proof -
  have keys: "slot_key t' j = slot_key t j" if "j \<in> valid_slots t'" for j
    using core that core_fields(1) unfolding slot_key_def by blast
  show ?thesis
  proof (cases "cached t key")
    case None
    then have "\<forall>i \<in> valid_slots t. slot_key t i \<noteq> key" by (simp add: cached_None)
    with keys have "cached t' key = None" by (simp add: cached_None vs)
    with None show ?thesis by simp
  next
    case (Some s)
    then obtain i where i: "i \<in> valid_slots t" "slot_key t i = key" "s = core (slot_of t i)"
      by (rule cached_cases [OF assms(1)])
    show ?thesis
    proof (cases "P s")
      case True
      with i vs have iv: "i \<in> valid_slots t'" by simp
      then have "cached t' (slot_key t' i) = Some (core (slot_of t' i))" by (rule cached_slot [OF assms(2)])
      with iv keys i core Some True show ?thesis by simp
    next
      case False
      have "slot_key t' j \<noteq> key" if "j \<in> valid_slots t'" for j
      proof
        assume "slot_key t' j = key"
        with that keys have "slot_key t j = key" "j \<in> valid_slots t" "P (core (slot_of t j))" using vs by simp_all
        with i assms(1) have "j = i" by (meson inj_onD)
        with False i \<open>P (core (slot_of t j))\<close> show False by simp
      qed
      then have "cached t' key = None" by (simp add: cached_None)
      with Some False show ?thesis by simp
    qed
  qed
qed

lemma prune_slots_ok:
  assumes "l1_ok C t" "distinct xs" "\<forall>i \<in> set xs. i < L1_CACHE_SIZE"
  obtains t' where "for_slots xs (\<lambda>i t. if sl_valid (t_slots t ! i) \<and> slot_expired clk (t_slots t ! i)
      then expire_l1_slot C clk i t else Some t) t = Some t'" "l1_ok C t'"
    "valid_slots t' = {i \<in> valid_slots t. i \<in> set xs \<longrightarrow> \<not> slot_expired clk (slot_of t i)}"
    "\<forall>j \<in> valid_slots t'. core (slot_of t' j) = core (slot_of t j)"
  using assms
proof (induction xs arbitrary: t thesis)
  case Nil
  then show thesis by simp
next
  case (Cons i xs)
  let ?f = "\<lambda>i t. if sl_valid (t_slots t ! i) \<and> slot_expired clk (t_slots t ! i)
      then expire_l1_slot C clk i t else Some t"
  obtain t1 where t1: "?f i t = Some t1" "l1_ok C t1"
    "valid_slots t1 = {j \<in> valid_slots t. j = i \<longrightarrow> \<not> slot_expired clk (slot_of t j)}"
    "\<forall>j. j \<noteq> i \<or> j \<in> valid_slots t1 \<longrightarrow> core (slot_of t1 j) = core (slot_of t j)"
  proof (cases "sl_valid (slot_of t i) \<and> slot_expired clk (slot_of t i)")
    case True
    then have i: "i \<in> valid_slots t" using Cons.prems(4) by (simp add: valid_slots_def)
    obtain t1 where "expire_l1_slot C clk i t = Some t1" "l1_ok C t1" "valid_slots t1 = valid_slots t - {i}"
      "\<forall>j. j \<noteq> i \<longrightarrow> core (slot_of t1 j) = core (slot_of t j)"
      by (rule expire_l1_slot_ok [OF Cons.prems(2) i, of clk])
    with True show thesis by (intro that [of t1]) auto
  next
    case False
    then have "i \<in> valid_slots t \<Longrightarrow> \<not> slot_expired clk (slot_of t i)" by (simp add: valid_slots_def)
    with False Cons.prems(2) show thesis by (intro that [of t]) auto
  qed
  obtain t' where t': "for_slots xs ?f t1 = Some t'" "l1_ok C t'"
    "valid_slots t' = {j \<in> valid_slots t1. j \<in> set xs \<longrightarrow> \<not> slot_expired clk (slot_of t1 j)}"
    "\<forall>j \<in> valid_slots t'. core (slot_of t' j) = core (slot_of t1 j)"
    by (rule Cons.IH [OF _ t1(2)]) (use Cons.prems(3,4) in auto)
  have ex: "slot_expired clk (slot_of t1 j) = slot_expired clk (slot_of t j)" if "j \<in> valid_slots t1" for j
    using t1(4) that by (metis slot_expired_core)
  have "valid_slots t' = {j \<in> valid_slots t. j \<in> set (i # xs) \<longrightarrow> \<not> slot_expired clk (slot_of t j)}"
    unfolding t'(3) using t1(3) ex by auto
  moreover have "\<forall>j \<in> valid_slots t'. core (slot_of t' j) = core (slot_of t j)"
    using t'(3,4) t1(4) by auto
  moreover have "for_slots (i # xs) ?f t = Some t'" using t1(1) t'(1) by simp
  ultimately show thesis using t'(2) by (intro Cons.prems(1)) assumption+
qed

text \<open>Pruning removes exactly the expired entries.\<close>

lemma prune_expired_l1_ok:
  assumes ok: "l1_ok C t"
  obtains t' where "prune_expired_l1 C clk t = Some t'" "l1_ok C t'"
    "\<And>key. cached t' key =
       (case cached t key of None \<Rightarrow> None | Some s \<Rightarrow> if \<not> slot_expired clk s then Some s else None)"
proof -
  obtain t' where t': "for_slots [0..<L1_CACHE_SIZE] (\<lambda>i t. if sl_valid (t_slots t ! i) \<and> slot_expired clk (t_slots t ! i)
      then expire_l1_slot C clk i t else Some t) t = Some t'" "l1_ok C t'"
    "valid_slots t' = {i \<in> valid_slots t. i \<in> set [0..<L1_CACHE_SIZE] \<longrightarrow> \<not> slot_expired clk (slot_of t i)}"
    "\<forall>j \<in> valid_slots t'. core (slot_of t' j) = core (slot_of t j)"
    by (rule prune_slots_ok [OF ok, of "[0..<L1_CACHE_SIZE]" clk]) simp_all
  have "valid_slots t' = {i \<in> valid_slots t. \<not> slot_expired clk (core (slot_of t i))}"
    using t'(3) by (auto simp: valid_slots_def)
  from cached_restrict [OF l1_ok_inj [OF ok] l1_ok_inj [OF t'(2)] this t'(4)] t'(1,2) show thesis
    by (intro that) (simp_all add: prune_expired_l1_def)
qed

section \<open>put and get\<close>

text \<open>What a \<open>put\<close> leaves in the cache.\<close>

definition put_entry :: "clock \<Rightarrow> 'k \<Rightarrow> 'v \<Rightarrow> u32 \<Rightarrow> u8 \<Rightarrow> ('k, 'v) slot \<Rightarrow> bool" where
  "put_entry clk key val ttl pr s \<longleftrightarrow> sl_key s = key \<and> sl_value s = val \<and> sl_expires_at s = expires_at clk ttl \<and>
     sl_priority s = pr \<and> sl_dirty s"

lemma tier_put_ok:
  assumes ok: "l1_ok C t"
  obtains b t' where "tier_put C clk key val ttl pr t = Some (b, t')" "l1_ok C t'"
    "b \<Longrightarrow> \<exists>s. cached t' key = Some s \<and> put_entry clk key val ttl pr s"
proof (cases "tier_valid C t")
  case False
  with ok show thesis by (intro that [of False t]) (simp_all add: tier_put_def)
next
  case True
  obtain t1 where t1: "prune_expired_l1 C clk t = Some t1" "l1_ok C t1"
    by (rule prune_expired_l1_ok [OF ok, of clk])
  show thesis
  proof (cases rule: find_l1_ok [OF t1(2), of key])
    case (1 i)
    let ?f = "\<lambda>s. s\<lparr>sl_value := val, sl_expires_at := expires_at clk ttl, sl_priority := pr, sl_dirty := True\<rparr>"
    have v: "sl_valid (slot_of t1 i)" using 1(2) by (simp add: valid_slots_def)
    have u: "l1_ok C (upd_slot i ?f t1)" "valid_slots (upd_slot i ?f t1) = valid_slots t1"
      "cached (upd_slot i ?f t1) = (cached t1)(slot_key t1 i \<mapsto> core (?f (slot_of t1 i)))"
      using t1(2) 1(2) v by (intro update_ok; simp add: slot_key_def)+
    have i: "i \<in> valid_slots (upd_slot i ?f t1)" using 1(2) u(2) by simp
    note tch = touch_ok [OF u(1) i]
    have "cached (touch_l1 i (upd_slot i ?f t1)) key = Some (core (?f (slot_of t1 i)))"
      using cached_same_slots(1) [OF tch(2)] u(3) 1(3) by simp
    moreover have "put_entry clk key val ttl pr (core (?f (slot_of t1 i)))"
      using 1(3) by (simp add: put_entry_def slot_key_def)
    moreover have "tier_put C clk key val ttl pr t = Some (True, touch_l1 i (upd_slot i ?f t1))"
      using True by (simp add: tier_put_def t1(1) 1(1))
    ultimately show thesis using tch(1) by (intro that [of True "touch_l1 i (upd_slot i ?f t1)"]) blast+
  next
    case 2
    obtain r t2 where t2: "allocate_l1_slot C clk t1 = Some (r, t2)" "l1_ok C t2"
      "\<And>i. r = Some i \<Longrightarrow> i < L1_CACHE_SIZE \<and> \<not> sl_valid (slot_of t2 i)" "cached t2 key = None"
      using allocate_total [OF t1(2), of clk] 2(2) by metis
    show thesis
    proof (cases r)
      case None
      with True t1(1) 2(1) t2 show thesis by (intro that [of False t2]) (simp_all add: tier_put_def)
    next
      case (Some i)
      let ?ex = "b_exists (tp_store C) clk (enc (tp_key C) key) (t_store t2)"
      let ?f = "\<lambda>s. s\<lparr>sl_key := key, sl_value := val, sl_expires_at := expires_at clk ttl,
                sl_priority := pr, sl_dirty := True, sl_valid := True, sl_in_l2 := fst ?ex\<rparr>"
      let ?t = "t2\<lparr>t_store := snd ?ex\<rparr>"
      have i: "i < L1_CACHE_SIZE" "\<not> sl_valid (slot_of ?t i)" using t2(3) [OF Some] by simp_all
      let ?t' = "link_lru_front i (link_l1_hash C i (upd_slot i ?f ?t))"
      have ins: "l1_ok C ?t'" "cached ?t' = (cached ?t)(key \<mapsto> core (?f (slot_of ?t i)))"
        using t2(2,4) i by (intro insert_ok(1,2); simp)+
      have "tier_put C clk key val ttl pr t = Some (True, ?t')"
        using True by (simp add: tier_put_def t1(1) 2(1) t2(1) Some case_prod_unfold Let_def)
      with ins show thesis by (intro that [of True ?t']) (simp_all add: put_entry_def)
    qed
  qed
qed

lemma tier_get_ok:
  assumes ok: "l1_ok C t"
  obtains r t' where "tier_get C clk key t = Some (r, t')" "l1_ok C t'"
    "\<And>s. tier_valid C t \<Longrightarrow> cached t key = Some s \<Longrightarrow> r = (if slot_expired clk s then None else Some (sl_value s)) \<and>
       cached t' = (if slot_expired clk s then (cached t)(key := None) else cached t) \<and>
       (\<not> slot_expired clk s \<longrightarrow> t_store t' = t_store t)"
    "\<And>s. tier_valid C t \<Longrightarrow> cached t key = None \<Longrightarrow> cached t' key = Some s \<Longrightarrow>
       sl_expires_at s = 0 \<and> \<not> sl_dirty s \<and> sl_in_l2 s \<and> r = Some (sl_value s)"
proof (cases "tier_valid C t")
  case False
  with ok show thesis by (intro that [of None t]) (simp_all add: tier_get_def)
next
  case True
  show thesis
  proof (cases rule: find_l1_ok [OF ok, of key])
    case (1 i)
    show thesis
    proof (cases "slot_expired clk (slot_of t i)")
      case True
      obtain t' where t': "expire_l1_slot C clk i t = Some t'" "l1_ok C t'" "cached t' = (cached t)(slot_key t i := None)"
        by (rule expire_l1_slot_ok [OF ok 1(2), of clk])
      with True 1 \<open>tier_valid C t\<close> show thesis by (intro that [of None t']) (simp_all add: tier_get_def)
    next
      case False
      note tch = touch_ok [OF ok 1(2)]
      show thesis
        using False 1 \<open>tier_valid C t\<close> tch cached_same_slots(1) [OF tch(2)]
        by (intro that [of "Some (sl_value (slot_of t i))" "touch_l1 i t"]) (simp_all add: tier_get_def)
    qed
  next
    case 2
    obtain raw st where g: "b_get (tp_store C) clk (enc (tp_key C) key) (t_store t) = (raw, st)"
      by (cases "b_get (tp_store C) clk (enc (tp_key C) key) (t_store t)")
    show thesis
    proof (cases "raw = None \<or> dec (tp_value C) (the raw) = None")
      case True
      then have "tier_get C clk key t = Some (None, t\<lparr>t_store := st\<rparr>)"
        using \<open>tier_valid C t\<close> 2(1) g by (auto simp: tier_get_def split: option.split)
      with ok 2(2) show thesis by (intro that [of None "t\<lparr>t_store := st\<rparr>"]) simp_all
    next
      case False
      then obtain rv decoded where d: "raw = Some rv" "dec (tp_value C) rv = Some decoded" by auto
      let ?t = "t\<lparr>t_store := st\<rparr>"
      have "l1_ok C ?t" "cached ?t key = None" using ok 2(2) by simp_all
      then obtain r t2 where t2: "allocate_l1_slot C clk ?t = Some (r, t2)" "l1_ok C t2"
        "\<And>i. r = Some i \<Longrightarrow> i < L1_CACHE_SIZE \<and> \<not> sl_valid (slot_of t2 i)" "cached t2 key = None"
        using allocate_total [of C ?t clk] by metis
      show thesis
      proof (cases r)
        case None
        then have "tier_get C clk key t = Some (Some decoded, t2)"
          using \<open>tier_valid C t\<close> 2(1) g d t2(1) by (simp add: tier_get_def)
        with t2 2(2) show thesis by (intro that [of "Some decoded" t2]) simp_all
      next
        case (Some i)
        let ?f = "\<lambda>s. s\<lparr>sl_key := key, sl_value := decoded, sl_dirty := False, sl_valid := True, sl_in_l2 := True\<rparr>"
        let ?t' = "link_lru_front i (link_l1_hash C i (upd_slot i ?f t2))"
        have i: "i < L1_CACHE_SIZE" "\<not> sl_valid (slot_of t2 i)" using t2(3) [OF Some] by simp_all
        have ins: "l1_ok C ?t'" "cached ?t' = (cached t2)(key \<mapsto> core (?f (slot_of t2 i)))"
          using t2(2,4) i by (intro insert_ok(1,2); simp)+
        have blank: "sl_expires_at (slot_of t2 i) = 0"
          using t2(2) i core_fields(3) by (metis (no_types, lifting) empty_slot_def l1_ok_def slot.select_convs(3))
        have "tier_get C clk key t = Some (Some decoded, ?t')"
          using \<open>tier_valid C t\<close> 2(1) g d t2(1) Some by (simp add: tier_get_def Let_def)
        with ins blank 2(2) show thesis by (intro that [of "Some decoded" ?t']) auto
      qed
    qed
  qed
qed

section \<open>remove, exists, sync, clear\<close>

lemma tier_remove_ok:
  assumes ok: "l1_ok C t"
  obtains b t' where "tier_remove C clk key t = Some (b, t')" "l1_ok C t'"
    "tier_valid C t \<Longrightarrow> cached t' = (cached t)(key := None)"
    "\<And>s. tier_valid C t \<Longrightarrow> cached t key = Some s \<Longrightarrow>
      (b, t_store t') = (if sl_in_l2 s then b_remove (tp_store C) clk (enc (tp_key C) key) (t_store t) else (True, t_store t))"
    "tier_valid C t \<Longrightarrow> cached t key = None \<Longrightarrow>
      (b, t_store t') = (case b_exists (tp_store C) clk (enc (tp_key C) key) (t_store t) of (e, st) \<Rightarrow>
         if e then b_remove (tp_store C) clk (enc (tp_key C) key) st else (True, st))"
proof (cases "tier_valid C t")
  case False
  with ok show thesis by (intro that [of False t]) (simp_all add: tier_remove_def)
next
  case True
  let ?rm = "b_remove (tp_store C) clk (enc (tp_key C) key)"
  show thesis
  proof (cases rule: find_l1_ok [OF ok, of key])
    case (1 i)
    obtain t' where t': "remove_l1_slot C i t = Some t'" "l1_ok C t'" "t_store t' = t_store t"
      "cached t' = (cached t)(slot_key t i := None)"
      by (rule remove_l1_slot_ok [OF ok 1(2)])
    show thesis
    proof (cases "sl_in_l2 (slot_of t i)")
      case in_l2: True
      obtain b st where rm: "?rm (t_store t) = (b, st)" by (cases "?rm (t_store t)")
      have "tier_remove C clk key t = Some (b, t'\<lparr>t_store := st\<rparr>)"
        using True in_l2 by (simp add: tier_remove_def 1(1) t'(1,3) rm)
      with t' 1 in_l2 rm show thesis by (intro that [of b "t'\<lparr>t_store := st\<rparr>"]) simp_all
    next
      case out: False
      then have "tier_remove C clk key t = Some (True, t')" using True by (simp add: tier_remove_def 1(1) t'(1))
      with t' 1 out show thesis by (intro that [of True t']) simp_all
    qed
  next
    case 2
    obtain e st where ex: "b_exists (tp_store C) clk (enc (tp_key C) key) (t_store t) = (e, st)"
      by (cases "b_exists (tp_store C) clk (enc (tp_key C) key) (t_store t)")
    obtain b st' where rm: "(if e then ?rm st else (True, st)) = (b, st')" by (cases "if e then ?rm st else (True, st)")
    have "tier_remove C clk key t = Some (b, t\<lparr>t_store := st'\<rparr>)"
      using True rm by (cases e) (simp_all add: tier_remove_def 2(1) ex)
    moreover have "(cached t)(key := None) = cached t" using 2(2) by (simp add: fun_upd_idem)
    ultimately show thesis using ok 2(2) ex rm by (intro that [of b "t\<lparr>t_store := st'\<rparr>"]) simp_all
  qed
qed

lemma tier_exists_ok:
  assumes ok: "l1_ok C t"
  obtains b t' where "tier_exists C clk key t = Some (b, t')" "l1_ok C t'"
    "\<And>s. tier_valid C t \<Longrightarrow> cached t key = Some s \<Longrightarrow> b = (\<not> slot_expired clk s)"
proof (cases "tier_valid C t")
  case False
  with ok show thesis by (intro that [of False t]) (simp_all add: tier_exists_def)
next
  case True
  show thesis
  proof (cases rule: find_l1_ok [OF ok, of key])
    case (1 i)
    show thesis
    proof (cases "slot_expired clk (slot_of t i)")
      case ex: True
      obtain t' where "expire_l1_slot C clk i t = Some t'" "l1_ok C t'"
        by (rule expire_l1_slot_ok [OF ok 1(2), of clk])
      with True 1 ex show thesis by (intro that [of False t']) (simp_all add: tier_exists_def)
    next
      case False
      with True 1 ok show thesis by (intro that [of True t]) (simp_all add: tier_exists_def)
    qed
  next
    case 2
    obtain e st where "b_exists (tp_store C) clk (enc (tp_key C) key) (t_store t) = (e, st)"
      by (cases "b_exists (tp_store C) clk (enc (tp_key C) key) (t_store t)")
    with True 2 ok show thesis by (intro that [of e "t\<lparr>t_store := st\<rparr>"]) (simp_all add: tier_exists_def)
  qed
qed

text \<open>One step of \<open>sync\<close>: unless it fails, the slot is clean afterwards, and the others are untouched.\<close>

lemma sync_slot_ok:
  assumes ok: "l1_ok C t" and i: "i < L1_CACHE_SIZE"
  obtains b' t' where "sync_slot C clk i (b, t) = Some (b', t')" "l1_ok C t'"
    "b' \<longrightarrow> b \<and> \<not> (sl_valid (slot_of t' i) \<and> sl_dirty (slot_of t' i))"
    "\<forall>j. j \<noteq> i \<longrightarrow> core (slot_of t' j) = core (slot_of t j)"
proof (cases "sl_valid (slot_of t i) \<and> sl_dirty (slot_of t i)")
  case False
  with ok show thesis by (intro that [of b t]) (auto simp: sync_slot_def)
next
  case True
  obtain stays st where l2: "(if sl_in_l2 (slot_of t i) then l2_exists C clk (slot_of t i) t else (True, t)) =
      (stays, t\<lparr>t_store := st\<rparr>)"
  proof (cases "sl_in_l2 (slot_of t i)")
    case True
    then show thesis
      by (cases "b_exists (tp_store C) clk (enc (tp_key C) (sl_key (slot_of t i))) (t_store t)")
        (rule that, simp add: l2_exists_def)
  next
    case False
    then show thesis by (intro that [of True "t_store t"]) simp
  qed
  let ?t = "t\<lparr>t_store := st\<rparr>"
  have ok': "l1_ok C ?t" and iv: "i \<in> valid_slots ?t" using ok True i by (simp_all add: valid_slots_def)
  show thesis
  proof (cases stays)
    case False
    obtain t' where t': "remove_l1_slot C i ?t = Some t'" "l1_ok C t'" "valid_slots t' = valid_slots ?t - {i}"
      "\<forall>j. j \<noteq> i \<longrightarrow> core (slot_of t' j) = core (slot_of ?t j)"
      by (rule remove_l1_slot_ok [OF ok' iv])
    have "\<not> sl_valid (slot_of t' i)" using slot_freed [OF iv, of t'] t'(3) by simp
    moreover have "sync_slot C clk i (b, t) = Some (b, t')"
      using True False l2 t'(1) by (simp add: sync_slot_def Let_def)
    ultimately show thesis using t' by (intro that [of b t']) simp_all
  next
    case stay: True
    obtain f t' where t': "flush_l1_slot C clk i ?t = (f, t')" "l1_ok C t'"
      "\<forall>j. j \<noteq> i \<longrightarrow> core (slot_of t' j) = core (slot_of ?t j)" "f \<longrightarrow> \<not> sl_dirty (slot_of t' i)"
      by (rule flush_l1_slot_ok [OF ok' iv, of clk])
    have "sync_slot C clk i (b, t) = Some (b \<and> f, t')"
      using True stay l2 t'(1) by (simp add: sync_slot_def Let_def)
    with t' show thesis by (intro that [of "b \<and> f" t']) simp_all
  qed
qed

lemma sync_slots_ok:
  assumes "l1_ok C t" "distinct xs" "\<forall>i \<in> set xs. i < L1_CACHE_SIZE"
  obtains b' t' where "for_slots xs (sync_slot C clk) (b, t) = Some (b', t')" "l1_ok C t'"
    "b' \<longrightarrow> b \<and> (\<forall>i \<in> set xs. \<not> (sl_valid (slot_of t' i) \<and> sl_dirty (slot_of t' i)))"
    "\<forall>j. j \<notin> set xs \<longrightarrow> core (slot_of t' j) = core (slot_of t j)"
  using assms
proof (induction xs arbitrary: b t thesis)
  case Nil
  then show thesis by simp
next
  case (Cons i xs)
  obtain b1 t1 where t1: "sync_slot C clk i (b, t) = Some (b1, t1)" "l1_ok C t1"
    "b1 \<longrightarrow> b \<and> \<not> (sl_valid (slot_of t1 i) \<and> sl_dirty (slot_of t1 i))"
    "\<forall>j. j \<noteq> i \<longrightarrow> core (slot_of t1 j) = core (slot_of t j)"
    by (rule sync_slot_ok [OF Cons.prems(2), of i clk b]) (use Cons.prems(4) in auto)
  obtain b' t' where t': "for_slots xs (sync_slot C clk) (b1, t1) = Some (b', t')" "l1_ok C t'"
    "b' \<longrightarrow> b1 \<and> (\<forall>i \<in> set xs. \<not> (sl_valid (slot_of t' i) \<and> sl_dirty (slot_of t' i)))"
    "\<forall>j. j \<notin> set xs \<longrightarrow> core (slot_of t' j) = core (slot_of t1 j)"
    by (rule Cons.IH [OF _ t1(2)]) (use Cons.prems(3,4) in auto)
  have "core (slot_of t' i) = core (slot_of t1 i)" using t'(4) Cons.prems(3) by simp
  note ci = core_fields(5,6) [OF this]
  have "b' \<longrightarrow> b \<and> (\<forall>j \<in> set (i # xs). \<not> (sl_valid (slot_of t' j) \<and> sl_dirty (slot_of t' j)))"
    using t'(3) t1(3) ci by simp
  moreover have "\<forall>j. j \<notin> set (i # xs) \<longrightarrow> core (slot_of t' j) = core (slot_of t j)" using t'(4) t1(4) by simp
  moreover have "for_slots (i # xs) (sync_slot C clk) (b, t) = Some (b', t')" using t1(1) t'(1) by simp
  ultimately show thesis using t'(2) by (intro Cons.prems(1)) assumption+
qed

lemma tier_sync_ok:
  assumes ok: "l1_ok C t"
  obtains b t' where "tier_sync C clk t = Some (b, t')" "l1_ok C t'" "b \<longrightarrow> dirty_count t' = 0"
proof (cases "tier_valid C t")
  case False
  with ok show thesis by (intro that [of False t]) (simp_all add: tier_sync_def)
next
  case True
  obtain t1 where t1: "prune_expired_l1 C clk t = Some t1" "l1_ok C t1"
    by (rule prune_expired_l1_ok [OF ok, of clk])
  obtain b t' where t': "for_slots (rev [0..<L1_CACHE_SIZE]) (sync_slot C clk) (True, t1) = Some (b, t')" "l1_ok C t'"
    "b \<longrightarrow> True \<and> (\<forall>i \<in> set (rev [0..<L1_CACHE_SIZE]). \<not> (sl_valid (slot_of t' i) \<and> sl_dirty (slot_of t' i)))"
    by (rule sync_slots_ok [OF t1(2), of "rev [0..<L1_CACHE_SIZE]" clk True]) simp_all
  have "b \<longrightarrow> dirty_count t' = 0" using t'(3) by (auto simp: dirty_count_def filter_empty_conv)
  with True t1(1) t' show thesis by (intro that [of b t']) (simp_all add: tier_sync_def)
qed

lemma tier_clear_ok: "l1_ok C t \<Longrightarrow> l1_ok C (tier_clear C t)"
  by (simp add: tier_clear_def Let_def reset_l1_ok)

lemma load_l2_ok:
  assumes "l1_ok C t"
  shows "\<exists>r. load_l2 C t es = Some r"
proof (induction es)
  case (Cons e es)
  then obtain r where r: "load_l2 C t es = Some r" by blast
  obtain rk rv where e: "e = (rk, rv)" by (cases e)
  show ?case
  proof (cases "dec (tp_key C) rk")
    case None
    with r e show ?thesis by simp
  next
    case (Some key)
    show ?thesis
      by (cases rule: find_l1_ok [OF assms, of key]) (use r e Some in \<open>auto split: option.split\<close>)
  qed
qed simp

lemma load_next_ok: "l1_ok C t \<Longrightarrow> \<exists>it'. load_next C t it = Some it'"
  using load_l2_ok [of C t "tit_l2 it"]
  by (cases "tit_phase it") (auto simp: load_next_def split: prod.splits)

lemma tier_begin_ok:
  assumes ok: "l1_ok C t"
  obtains it t' where "tier_begin C clk t = Some (it, t')" "l1_ok C t'"
proof (cases "tier_valid C t")
  case False
  with ok show thesis by (intro that [of "tier_end C" t]) (simp_all add: tier_begin_def)
next
  case True
  obtain t1 where t1: "prune_expired_l1 C clk t = Some t1" "l1_ok C t1"
    by (rule prune_expired_l1_ok [OF ok, of clk])
  obtain es st where es: "b_entries (tp_store C) (t_store t1) = (es, st)" by (cases "b_entries (tp_store C) (t_store t1)")
  have ok1: "l1_ok C (t1\<lparr>t_store := st\<rparr>)" using t1(2) by simp
  obtain it where "load_next C (t1\<lparr>t_store := st\<rparr>) ((tier_end C)\<lparr>tit_l2 := es, tit_slot := 0\<rparr>) = Some it"
    using load_next_ok [OF ok1] by blast
  with True t1 es ok1 show thesis by (intro that [of it "t1\<lparr>t_store := st\<rparr>"]) (simp_all add: tier_begin_def)
qed

lemma tier_next_ok: "l1_ok C t \<Longrightarrow> \<exists>it'. tier_next C t it = Some it'"
  using load_next_ok by (auto simp: tier_next_def)

end
