(* ===== verification/StoreState.thy ===== *)
theory StoreState
  imports RecordFormat
begin

text \<open>
  The state of \<open>BasicFileStore\<close> (\<open>FileStore.h\<close>) and its innermost operations: the write buffer, the
  in-memory index and the retention policies. Segment numbers and file offsets, \<open>uint32_t\<close> in the
  code, are natural numbers (files are shorter than 4 GiB); the index narrows them to 8 and 24
  bits. The hash map is an association list with distinct keys; its order stands for the
  unspecified iteration order of the container.
\<close>

type_synonym index_map = "(bytes \<times> index_value) list"

record store =
  kern :: kernel
  fs_valid :: bool
  base_prefix :: string
  segment_size :: u32
  segment_count :: u8
  active_file :: "fhandle option"
  index_file :: "fhandle option"
  current_segment :: nat
  current_offset :: nat
  compact_in_cooldown :: bool
  compact_cooldown_start_ms :: u32
  dead_since_compact :: u32
  policy_ttl_secs :: u32
  policy_max_recs :: u32
  write_buf :: bytes
  index :: index_map

definition new_store :: "u32 \<Rightarrow> u8 \<Rightarrow> kernel \<Rightarrow> store" where
  "new_store seg_size seg_count K = \<lparr>kern = K, fs_valid = False, base_prefix = [],
     segment_size = seg_size, segment_count = seg_count, active_file = None, index_file = None,
     current_segment = 0, current_offset = 0, compact_in_cooldown = False,
     compact_cooldown_start_ms = 0, dead_since_compact = 0, policy_ttl_secs = 0,
     policy_max_recs = 0, write_buf = [], index = []\<rparr>"

section \<open>Buffered writes\<close>

text \<open>\<open>flush_buffer\<close> reports success without looking at what \<open>write\<close> returns.\<close>

definition flush_buffer :: "store \<Rightarrow> bool \<times> store" where
  "flush_buffer s =
     (if write_buf s = [] then (True, s)
      else case valid_file (active_file s) of
        None \<Rightarrow> (False, s\<lparr>write_buf := []\<rparr>)
      | Some f \<Rightarrow> (case file_write (write_buf s) f (kern s) of
          (_, f, K) \<Rightarrow> (True, s\<lparr>active_file := Some f, kern := K, write_buf := []\<rparr>)))"

lemma flush_buffer_empties [simp]: "write_buf (snd (flush_buffer s)) = []"
  by (simp add: flush_buffer_def split: option.split prod.split)

text \<open>The buffer position never exceeds the buffer size, so that reaching it is being equal to it.\<close>

function append_buffer :: "bytes \<Rightarrow> store \<Rightarrow> store" where
  "append_buffer data s =
     (if data = [] then s
      else let space = WRITE_BUFFER_SIZE - length (write_buf s);
               n = (if length data < space then length data else space);
               s = s\<lparr>write_buf := write_buf s @ take n data\<rparr>;
               s = (if WRITE_BUFFER_SIZE \<le> length (write_buf s) then snd (flush_buffer s) else s)
           in append_buffer (drop n data) s)"
  by pat_completeness auto
termination
proof (relation "(\<lambda>(data, s). length data) <*mlex*> measure (\<lambda>(data, s). length (write_buf s))",
    goal_cases)
  case 1
  show ?case by (simp add: wf_mlex)
next
  case (2 data s space n sa sb)
  show ?case
  proof (cases "n = 0")
    case True
    with 2 have "WRITE_BUFFER_SIZE \<le> length (write_buf s)" by (auto split: if_splits)
    with 2 True show ?thesis
      by (auto simp: mlex_prod_def WRITE_BUFFER_SIZE_def)
  next
    case False
    with 2 show ?thesis by (auto simp: mlex_prod_def)
  qed
qed

declare append_buffer.simps [simp del]

section \<open>Index\<close>

definition index_find :: "bytes \<Rightarrow> store \<Rightarrow> index_value option" where
  "index_find key s = map_of (index s) key"

definition index_insert :: "bytes \<Rightarrow> u32 \<Rightarrow> u32 \<Rightarrow> u32 \<Rightarrow> u32 \<Rightarrow> u8 \<Rightarrow> store \<Rightarrow> store" where
  "index_insert key seg off ts ttl priority s =
     s\<lparr>index := AList.update key (make_index_value seg off ts ttl priority) (index s)\<rparr>"

definition index_remove :: "bytes \<Rightarrow> store \<Rightarrow> store" where
  "index_remove key s = s\<lparr>index := AList.delete key (index s)\<rparr>"

section \<open>Policies\<close>

definition is_ttl_expired :: "clock \<Rightarrow> u32 \<Rightarrow> u32 \<Rightarrow> store \<Rightarrow> bool" where
  "is_ttl_expired clk ts record_ttl s =
     (let effective_ttl = (if record_ttl > 0 then record_ttl else policy_ttl_secs s)
      in effective_ttl > 0 \<and> clk_time clk > ts \<and> clk_time clk - ts \<ge> effective_ttl)"

record candidate =
  c_priority :: u8
  c_timestamp :: u32
  c_ttl :: u32
  c_key :: bytes

definition penalty :: "u8 \<Rightarrow> u32 \<Rightarrow> u32" where
  "penalty priority ttl = (ttl div (ucast priority + 3)) * ucast priority * 10"

definition evicts_before :: "candidate \<Rightarrow> candidate \<Rightarrow> bool" where
  "evicts_before a b \<longleftrightarrow>
     (ucast (c_timestamp a) :: u64) + ucast (penalty (c_priority b) (c_ttl b))
       < ucast (c_timestamp b) + ucast (penalty (c_priority a) (c_ttl a))"

definition effective_ttl :: "store \<Rightarrow> index_value \<Rightarrow> u32" where
  "effective_ttl s iv = (if u24_get (iv_ttl iv) > 0 then u24_get (iv_ttl iv) else policy_ttl_secs s)"

definition candidate_of :: "store \<Rightarrow> bytes \<times> index_value \<Rightarrow> candidate" where
  "candidate_of s e = \<lparr>c_priority = iv_priority (snd e), c_timestamp = iv_timestamp (snd e),
     c_ttl = effective_ttl s (snd e), c_key = fst e\<rparr>"

text \<open>\<open>std::partial_sort\<close> with a comparison: sorted by it, equivalent elements in any order (here in
  the order they had).\<close>

fun insert_by :: "('a \<Rightarrow> 'a \<Rightarrow> bool) \<Rightarrow> 'a \<Rightarrow> 'a list \<Rightarrow> 'a list" where
  "insert_by lt x [] = [x]"
| "insert_by lt x (y # ys) = (if lt y x then y # insert_by lt x ys else x # y # ys)"

definition sort_by :: "('a \<Rightarrow> 'a \<Rightarrow> bool) \<Rightarrow> 'a list \<Rightarrow> 'a list" where
  "sort_by lt xs = foldr (insert_by lt) xs []"

text \<open>The linear scan of the fast path.\<close>

fun scan_first :: "('a \<Rightarrow> 'a \<Rightarrow> bool) \<Rightarrow> 'a \<Rightarrow> 'a list \<Rightarrow> 'a" where
  "scan_first lt evict [] = evict"
| "scan_first lt evict (it # its) = scan_first lt (if lt it evict then it else evict) its"

definition eviction_keys :: "nat \<Rightarrow> store \<Rightarrow> bytes list" where
  "eviction_keys to_evict s =
     (let cs = map (candidate_of s) (index s) in
      if to_evict = 1 then [c_key (scan_first evicts_before (hd cs) cs)]
      else map c_key (take to_evict (sort_by evicts_before cs)))"

definition prune_index_to_max_recs :: "store \<Rightarrow> nat \<times> store" where
  "prune_index_to_max_recs s =
     (if policy_max_recs s = 0 \<or> length (index s) \<le> unat (policy_max_recs s) then (0, s)
      else let to_evict = length (index s) - unat (policy_max_recs s);
               s' = foldl (\<lambda>s k. index_remove k s) s (eviction_keys to_evict s)
           in (to_evict, s'\<lparr>dead_since_compact := dead_since_compact s' + of_nat to_evict\<rparr>))"

definition set_ttl_secs :: "u32 \<Rightarrow> store \<Rightarrow> store" where
  "set_ttl_secs ttl s = s\<lparr>policy_ttl_secs := ttl\<rparr>"

definition set_max_recs :: "u32 \<Rightarrow> store \<Rightarrow> store" where
  "set_max_recs n s = s\<lparr>policy_max_recs := n\<rparr>"

section \<open>The write buffer is transparent\<close>

lemma append_buffer_step:
  assumes "data \<noteq> []"
  obtains n where "n = min (length data) (WRITE_BUFFER_SIZE - length (write_buf s))"
    "append_buffer data s = append_buffer (drop n data)
       (let s1 = s\<lparr>write_buf := write_buf s @ take n data\<rparr>
        in if WRITE_BUFFER_SIZE \<le> length (write_buf s1) then snd (flush_buffer s1) else s1)"
  by (rule that [OF refl], subst append_buffer.simps)
    (simp only: assms Let_def if_False min_def not_less [symmetric] if_not_P split: if_split, auto)

definition append_all :: "bytes list \<Rightarrow> store \<Rightarrow> store" where
  "append_all chunks s = foldl (\<lambda>s c. append_buffer c s) s chunks"

context append_medium
begin

lemma flush_buffer_append:
  assumes "active_file s = Some f" "append_handle f i" "good (kern s)"
  obtains f' K' where "flush_buffer s = (True, s\<lparr>active_file := Some f', kern := K', write_buf := []\<rparr>)"
    "append_handle f' i" "wrote i (kern s) (write_buf s) K'"
proof (cases "write_buf s = []")
  case True
  with assms show thesis
    by (intro that [where f' = f and K' = "kern s"]) (simp_all add: flush_buffer_def wrote_nil)
next
  case False
  obtain n f' K' where "file_write (write_buf s) f (kern s) = (n, f', K')" "append_handle f' i"
      "wrote i (kern s) (write_buf s) K'"
    using handle_write [OF assms(2,3)] by blast
  with assms False show thesis by (intro that [where f' = f' and K' = K']) (simp_all add: flush_buffer_def)
qed

lemma append_buffer_cases:
  assumes "active_file s = Some f" "append_handle f i" "good (kern s)"
    "length (write_buf s) < WRITE_BUFFER_SIZE"
  shows "\<exists>f' K' out buf. append_buffer data s = s\<lparr>active_file := Some f', kern := K', write_buf := buf\<rparr> \<and>
       append_handle f' i \<and> wrote i (kern s) out K' \<and> out @ buf = write_buf s @ data \<and>
       length buf < WRITE_BUFFER_SIZE"
  using assms
proof (induction "length data" arbitrary: data s f rule: less_induct)
  case less
  show ?case
  proof (cases "data = []")
    case True
    with less.prems show ?thesis
      by (intro exI [of _ f] exI [of _ "kern s"] exI [of _ "[]"] exI [of _ "write_buf s"])
        (simp add: append_buffer.simps wrote_nil)
  next
    case False
    obtain n where n: "n = min (length data) (WRITE_BUFFER_SIZE - length (write_buf s))"
      and step: "append_buffer data s = append_buffer (drop n data)
         (let s1 = s\<lparr>write_buf := write_buf s @ take n data\<rparr>
          in if WRITE_BUFFER_SIZE \<le> length (write_buf s1) then snd (flush_buffer s1) else s1)"
      by (rule append_buffer_step [OF False])
    from n False less.prems(4) have n0: "0 < n" "n \<le> length data" by simp_all
    with False have shorter: "length (drop n data) < length data" by simp
    let ?s1 = "s\<lparr>write_buf := write_buf s @ take n data\<rparr>"
    show ?thesis
    proof (cases "WRITE_BUFFER_SIZE \<le> length (write_buf ?s1)")
      case True
      obtain g K1 where g: "flush_buffer ?s1 = (True, ?s1\<lparr>active_file := Some g, kern := K1, write_buf := []\<rparr>)"
          "append_handle g i" "wrote i (kern s) (write_buf ?s1) K1"
        by (rule flush_buffer_append [of ?s1 f i]) (use less.prems in auto)
      obtain f' K' out buf where r: "append_buffer (drop n data) (snd (flush_buffer ?s1)) =
            (snd (flush_buffer ?s1))\<lparr>active_file := Some f', kern := K', write_buf := buf\<rparr>"
          "append_handle f' i" "wrote i K1 out K'" "out @ buf = drop n data" "length buf < WRITE_BUFFER_SIZE"
        using less.hyps [OF shorter, of "snd (flush_buffer ?s1)" g] g wrote_good [OF g(3)]
        by (auto simp: WRITE_BUFFER_SIZE_def)
      from r(4) have "(write_buf ?s1 @ out) @ buf = write_buf s @ data" by simp
      moreover have "append_buffer data s = s\<lparr>active_file := Some f', kern := K', write_buf := buf\<rparr>"
        unfolding step Let_def using True r(1) g(1) by simp
      ultimately show ?thesis using r(2,5) wrote_append [OF g(3) r(3)] by blast
    next
      case small: False
      have buf1: "length (write_buf ?s1) < WRITE_BUFFER_SIZE" using small by simp
      obtain f' K' out buf where r: "append_buffer (drop n data) ?s1 = ?s1\<lparr>active_file := Some f',
            kern := K', write_buf := buf\<rparr>"
          "append_handle f' i" "wrote i (kern s) out K'" "out @ buf = write_buf ?s1 @ drop n data"
          "length buf < WRITE_BUFFER_SIZE"
        using less.hyps [OF shorter, of ?s1 f] less.prems(1-3) buf1 by auto
      from r(4) have "out @ buf = write_buf s @ data" by simp
      moreover have "append_buffer data s = s\<lparr>active_file := Some f', kern := K', write_buf := buf\<rparr>"
        unfolding step Let_def using small r(1) by simp
      ultimately show ?thesis using r(2,3,5) by blast
    qed
  qed
qed

lemma append_all_cases:
  assumes "active_file s = Some f" "append_handle f i" "good (kern s)"
    "length (write_buf s) < WRITE_BUFFER_SIZE"
  shows "\<exists>f' K' out buf. append_all chunks s = s\<lparr>active_file := Some f', kern := K', write_buf := buf\<rparr> \<and>
       append_handle f' i \<and> wrote i (kern s) out K' \<and> out @ buf = write_buf s @ concat chunks \<and>
       length buf < WRITE_BUFFER_SIZE"
  using assms
proof (induction chunks arbitrary: s f)
  case Nil
  then show ?case
    by (intro exI [of _ f] exI [of _ "kern s"] exI [of _ "[]"] exI [of _ "write_buf s"])
      (simp add: append_all_def wrote_nil)
next
  case (Cons c cs)
  from append_buffer_cases [OF Cons.prems, of c] obtain g K1 out buf where
    g: "append_buffer c s = s\<lparr>active_file := Some g, kern := K1, write_buf := buf\<rparr>" "append_handle g i"
      "wrote i (kern s) out K1" "out @ buf = write_buf s @ c" "length buf < WRITE_BUFFER_SIZE" by blast
  from Cons.IH [of "append_buffer c s" g] g wrote_good [OF g(3)] obtain f' K' out' buf' where
    r: "append_all cs (append_buffer c s) = s\<lparr>active_file := Some f', kern := K', write_buf := buf'\<rparr>"
      "append_handle f' i" "wrote i K1 out' K'" "out' @ buf' = buf @ concat cs" "length buf' < WRITE_BUFFER_SIZE"
    by auto
  from r(4) g(4) have "(out @ out') @ buf' = write_buf s @ concat (c # cs)"
    by (metis append.assoc concat.simps(2))
  with r wrote_append [OF g(3) r(3)] show ?case
    by (intro exI [of _ f'] exI [of _ K'] exI [of _ "out @ out'"] exI [of _ buf']) (simp add: append_all_def)
qed

text \<open>Whatever the sizes of the pieces, a flush after them leaves exactly their concatenation at the
  end of the active file.\<close>

lemma buffered_writes_append:
  assumes "active_file s = Some f" "append_handle f i" "good (kern s)" "write_buf s = []"
  shows "\<exists>f' K'. flush_buffer (append_all chunks s) = (True, s\<lparr>active_file := Some f', kern := K'\<rparr>) \<and>
    append_handle f' i \<and> wrote i (kern s) (concat chunks) K'"
proof -
  from append_all_cases [OF assms(1-3), of chunks] assms(4) obtain g K1 out buf where
    g: "append_all chunks s = s\<lparr>active_file := Some g, kern := K1, write_buf := buf\<rparr>" "append_handle g i"
      "wrote i (kern s) out K1" "out @ buf = concat chunks"
    by (auto simp: WRITE_BUFFER_SIZE_def)
  have "good (kern (append_all chunks s))" "active_file (append_all chunks s) = Some g"
    using g wrote_good [OF g(3)] by simp_all
  then obtain f' K' where f': "flush_buffer (append_all chunks s) = (True, (append_all chunks s)\<lparr>
      active_file := Some f', kern := K', write_buf := []\<rparr>)" "append_handle f' i"
      "wrote i K1 buf K'"
    using flush_buffer_append g(1,2) by (metis store.select_convs(1) store.surjective store.update_convs(1,6,15) store.select_convs(15))
  have "wrote i (kern s) (concat chunks) K'" using wrote_append [OF g(3) f'(3)] g(4) by simp
  with g f' assms(4) show ?thesis by (intro exI [of _ f'] exI [of _ K']) simp
qed

end

section \<open>Eviction order\<close>

definition score :: "candidate \<Rightarrow> int" where
  "score c = int (unat (c_timestamp c)) - int (unat (penalty (c_priority c) (c_ttl c)))"

lemma unat_ucast_u64: "unat (ucast (w :: u32) :: u64) = unat w"
  using unat_u32_less [of w] by (simp add: unat_ucast_mod)

text \<open>The 64-bit sums of the comparison do not wrap, so that it compares the timestamps reduced by
  the priority penalty: a strict weak order, as \<open>std::partial_sort\<close> requires.\<close>

lemma evicts_before_score: "evicts_before a b \<longleftrightarrow> score a < score b"
proof -
  have sum: "unat ((ucast (x :: u32) :: u64) + ucast (y :: u32)) = unat x + unat y" for x y
  proof -
    have "unat x + unat y < 2 ^ LENGTH(64)"
      using unat_u32_less [of x] unat_u32_less [of y] by simp
    then show ?thesis by (subst unat_add_small) (simp_all add: unat_ucast_u64)
  qed
  show ?thesis
    unfolding evicts_before_def score_def word_less_nat_alt sum by linarith
qed

text \<open>C30: the eviction order compares the timestamps, each reduced by its priority penalty, as integers: the 64-bit
  sums of the comparison do not wrap, so it is the strict weak order that \<open>std::partial_sort\<close> requires.\<close>

theorem evicts_before_compares_scores:
  "evicts_before a b \<longleftrightarrow>
     int (unat (c_timestamp a)) - int (unat (penalty (c_priority a) (c_ttl a)))
       < int (unat (c_timestamp b)) - int (unat (penalty (c_priority b) (c_ttl b)))"
  by (simp add: evicts_before_score score_def)

lemma unat_penalty_divisor: "unat ((ucast (p :: u8) :: u32) + 3) = unat p + 3"
proof -
  have "unat p + 3 < 4294967296" using unat_u8_less [of p] by linarith
  then have "unat p + 3 < 2 ^ 32" by simp
  then show ?thesis by (subst unat_add_small) simp_all
qed

text \<open>With a TTL below 429496729 seconds the penalty does not wrap: it is the exact product.\<close>

lemma penalty_exact:
  assumes "unat ttl * 10 < 2 ^ 32"
  shows "unat (penalty p ttl) = unat ttl div (unat p + 3) * unat p * 10"
proof -
  have "unat ttl div (unat p + 3) * unat p \<le> unat ttl div (unat p + 3) * (unat p + 3)" by simp
  also have "\<dots> \<le> unat ttl" by simp
  finally have le: "unat ttl div (unat p + 3) * unat p \<le> unat ttl" .
  have d: "unat (ttl div (ucast p + 3)) = unat ttl div (unat p + 3)"
    by (simp add: unat_div unat_penalty_divisor)
  have "unat (ttl div (ucast p + 3) * ucast p) = unat ttl div (unat p + 3) * unat p"
    using le assms by (subst unat_mult_small) (simp_all add: d)
  moreover have "unat ttl div (unat p + 3) * unat p * 10 < 2 ^ 32"
    using mult_le_mono1 [OF le, of 10] assms by (rule le_less_trans)
  ultimately show ?thesis
    unfolding penalty_def by (subst unat_mult_small) simp_all
qed

section \<open>Pruning\<close>

lemma mset_insert_by: "mset (insert_by lt x xs) = add_mset x (mset xs)"
  by (induction xs) auto

lemma mset_sort_by: "mset (sort_by lt xs) = mset xs"
  by (induction xs) (simp_all add: sort_by_def mset_insert_by)

lemma sorted_insert_by:
  assumes "\<And>a b. lt a b \<longleftrightarrow> f a < (f b :: int)"
  shows "sorted (map f xs) \<Longrightarrow> sorted (map f (insert_by lt x xs))"
proof (induction xs)
  case (Cons y ys)
  have *: "set (insert_by lt x ys) = insert x (set ys)"
    using mset_insert_by [of lt x ys] by (metis set_mset_add_mset_insert set_mset_mset)
  show ?case
  proof (cases "lt y x")
    case True
    then have "f y \<le> f x" by (simp add: assms)
    with True Cons * show ?thesis by auto
  next
    case False
    with Cons.prems show ?thesis by (fastforce simp: assms)
  qed
qed simp

lemma sorted_sort_by:
  "(\<And>a b. lt a b \<longleftrightarrow> f a < (f b :: int)) \<Longrightarrow> sorted (map f (sort_by lt xs))"
  by (induction xs) (simp_all add: sort_by_def sorted_insert_by)

lemma scan_first_mem: "scan_first lt e xs \<in> insert e (set xs)"
  by (induction lt e xs rule: scan_first.induct) auto

lemma scan_first_least:
  assumes "\<And>a b. lt a b \<longleftrightarrow> f a < (f b :: int)"
  shows "f (scan_first lt e xs) \<le> f e \<and> (\<forall>x \<in> set xs. f (scan_first lt e xs) \<le> f x)"
proof (induction xs arbitrary: e)
  case (Cons x xs)
  from Cons [of "if lt x e then x else e"] show ?case by (auto simp: assms split: if_splits)
qed simp

lemma foldl_index_remove:
  "foldl (\<lambda>s k. index_remove k s) s ks = s\<lparr>index := filter (\<lambda>e. fst e \<notin> set ks) (index s)\<rparr>"
proof (induction ks arbitrary: s)
  case (Cons k ks)
  have "filter (\<lambda>e. fst e \<notin> set ks) (AList.delete k (index s))
      = filter (\<lambda>e. fst e \<notin> set (k # ks)) (index s)"
    by (auto simp: AList.delete_eq intro!: filter_cong)
  with Cons show ?case by (simp add: index_remove_def)
qed (simp add: index_remove_def)

text \<open>The keys chosen for eviction are as many as asked for, and none of them ranks behind a key that
  stays.\<close>

lemma eviction_keys_spec:
  assumes "distinct_keys (index s)" "0 < n" "n \<le> length (index s)"
  shows "length (eviction_keys n s) = n" "distinct (eviction_keys n s)"
    "set (eviction_keys n s) \<subseteq> fst ` set (index s)"
    "e \<in> set (index s) \<Longrightarrow> e' \<in> set (index s) \<Longrightarrow> fst e \<in> set (eviction_keys n s) \<Longrightarrow>
     fst e' \<notin> set (eviction_keys n s) \<Longrightarrow> score (candidate_of s e) \<le> score (candidate_of s e')"
proof -
  let ?cs = "map (candidate_of s) (index s)"
  let ?sorted = "sort_by evicts_before ?cs"
  have keys: "map c_key ?cs = map fst (index s)" by (simp add: candidate_of_def comp_def)
  have inj: "x = y" if "x \<in> set ?cs" "y \<in> set ?cs" "c_key x = c_key y" for x y
    using assms(1) keys that by (metis distinct_map inj_on_eq_iff)
  have ne: "?cs \<noteq> []" using assms by auto
  have dist: "distinct (map c_key ?sorted)"
    using assms(1) keys by (metis mset_sort_by mset_eq_imp_distinct_iff mset_map)
  have len: "length ?sorted = length (index s)"
    by (metis length_map mset_sort_by size_mset)
  have set_sorted: "set ?sorted = set ?cs" by (metis mset_sort_by set_mset_mset)
  let ?first = "scan_first evicts_before (hd ?cs) ?cs"
  have first: "?first \<in> set ?cs"
    using scan_first_mem [of evicts_before "hd ?cs" ?cs] hd_in_set [OF ne] by (metis insertE)
  show "length (eviction_keys n s) = n" "distinct (eviction_keys n s)"
    using assms len dist by (auto simp: eviction_keys_def Let_def take_map [symmetric] distinct_take)
  show sub: "set (eviction_keys n s) \<subseteq> fst ` set (index s)"
  proof
    fix k assume "k \<in> set (eviction_keys n s)"
    then obtain c where "c \<in> set ?cs" "k = c_key c"
      using first set_sorted by (auto simp: eviction_keys_def Let_def dest: in_set_takeD split: if_splits)
    then show "k \<in> fst ` set (index s)" by (force simp: candidate_of_def)
  qed
  assume e: "e \<in> set (index s)" "e' \<in> set (index s)" "fst e \<in> set (eviction_keys n s)"
    "fst e' \<notin> set (eviction_keys n s)"
  let ?c = "candidate_of s e" and ?c' = "candidate_of s e'"
  have c: "?c \<in> set ?cs" "?c' \<in> set ?cs" "c_key ?c = fst e" "c_key ?c' = fst e'"
    using e by (auto simp: candidate_of_def)
  show "score ?c \<le> score ?c'"
  proof (cases "n = 1")
    case True
    with e(3) c first have "?c = ?first" by (intro inj) (auto simp: eviction_keys_def Let_def)
    with c(2) show ?thesis
      using scan_first_least [of evicts_before score "hd ?cs" ?cs, OF evicts_before_score] by metis
  next
    case False
    with e(3,4) have "c_key ?c \<in> set (map c_key (take n ?sorted))"
        "c_key ?c' \<notin> set (map c_key (take n ?sorted))"
      by (simp_all only: c(3,4) eviction_keys_def Let_def if_False not_False_eq_True)
    then obtain x where x: "x \<in> set (take n ?sorted)" "c_key ?c = c_key x"
        and c': "?c' \<notin> set (take n ?sorted)"
      by (metis (no_types, opaque_lifting) imageE image_eqI set_map)
    have "x \<in> set ?cs" using x(1) set_sorted by (metis in_set_takeD)
    with x(2) c(1) have "?c = x" by (intro inj)
    with x(1) c' have "?c \<in> set (take n ?sorted)" "?c' \<notin> set (take n ?sorted)" by simp_all
    moreover have "?c' \<in> set (take n ?sorted) \<union> set (drop n ?sorted)"
      using c(2) set_sorted by (metis append_take_drop_id set_append)
    moreover have "sorted (map score (take n ?sorted @ drop n ?sorted))"
      by (simp add: sorted_sort_by evicts_before_score)
    ultimately show ?thesis by (auto simp only: map_append sorted_append set_map)
  qed
qed

lemma prune_eq:
  "snd (prune_index_to_max_recs s) = s\<lparr>
     index := filter (\<lambda>e. fst e \<notin> (if fst (prune_index_to_max_recs s) = 0 then {}
        else set (eviction_keys (fst (prune_index_to_max_recs s)) s))) (index s),
     dead_since_compact := dead_since_compact s + of_nat (fst (prune_index_to_max_recs s))\<rparr>"
  by (auto simp: prune_index_to_max_recs_def Let_def foldl_index_remove)

lemma length_filter_keys:
  assumes "distinct_keys al" "distinct ks" "set ks \<subseteq> fst ` set al"
  shows "length (filter (\<lambda>e. fst e \<notin> set ks) al) + length ks = length al"
proof -
  have "set (map fst (filter (\<lambda>e. fst e \<in> set ks) al)) = set ks" using assms(3) by auto
  moreover have "distinct (map fst (filter (\<lambda>e. fst e \<in> set ks) al))"
    using assms(1) by (simp add: distinct_map_filter)
  ultimately have "length (filter (\<lambda>e. fst e \<in> set ks) al) = length ks"
    using assms(2) by (metis distinct_card length_map)
  moreover have "length (filter (\<lambda>e. fst e \<in> set ks) al) +
      length (filter (\<lambda>e. \<not> fst e \<in> set ks) al) = length al"
    by (rule sum_length_filter_compl)
  ultimately show ?thesis by simp
qed

lemma prune_index_cases:
  assumes "distinct_keys (index s)"
  obtains (keep) "prune_index_to_max_recs s = (0, s)"
      "policy_max_recs s = 0 \<or> length (index s) \<le> unat (policy_max_recs s)"
  | (evict) n where "n = length (index s) - unat (policy_max_recs s)" "0 < n" "n \<le> length (index s)"
      "policy_max_recs s \<noteq> 0" "unat (policy_max_recs s) < length (index s)"
      "prune_index_to_max_recs s = (n, s\<lparr>
         index := filter (\<lambda>e. fst e \<notin> set (eviction_keys n s)) (index s),
         dead_since_compact := dead_since_compact s + of_nat n\<rparr>)"
proof (cases "policy_max_recs s = 0 \<or> length (index s) \<le> unat (policy_max_recs s)")
  case True
  then show thesis by (intro keep) (auto simp: prune_index_to_max_recs_def)
next
  case False
  then show thesis
    by (intro evict [OF refl])
      (auto simp: prune_index_to_max_recs_def Let_def foldl_index_remove)
qed

text \<open>C18: pruning to a record limit leaves exactly the allowed number of entries, changes none of them,
  and no entry that stays ranks before one that was evicted.\<close>

theorem prune_evicts_least:
  assumes "distinct_keys (index s)" "policy_max_recs s \<noteq> 0"
  shows "length (index (snd (prune_index_to_max_recs s)))
           = min (length (index s)) (unat (policy_max_recs s)) \<and>
         set (index (snd (prune_index_to_max_recs s))) \<subseteq> set (index s) \<and>
         (\<forall>e \<in> set (index s) - set (index (snd (prune_index_to_max_recs s))).
          \<forall>e' \<in> set (index (snd (prune_index_to_max_recs s))).
            \<not> evicts_before (candidate_of s e') (candidate_of s e))"
  using assms(1)
proof (cases rule: prune_index_cases)
  case keep
  with assms(2) show ?thesis by auto
next
  case (evict n)
  note ks = eviction_keys_spec [OF assms(1) evict(2,3)]
  have "length (filter (\<lambda>e. fst e \<notin> set (eviction_keys n s)) (index s)) = unat (policy_max_recs s)"
    using length_filter_keys [OF assms(1) ks(2,3)] ks(1) evict by simp
  moreover have "\<not> evicts_before (candidate_of s e') (candidate_of s e)"
    if "e \<in> set (index s)" "fst e \<in> set (eviction_keys n s)"
      "e' \<in> set (index s)" "fst e' \<notin> set (eviction_keys n s)" for e e'
    using ks(4) [OF that(1,3,2,4)] by (simp add: evicts_before_score)
  ultimately show ?thesis using evict by auto
qed

definition demo_entry :: "u32 \<Rightarrow> u8 \<Rightarrow> index_value" where
  "demo_entry ts priority = make_index_value 0 0 ts 600 priority"

definition demo_store :: store where
  "demo_store = (new_store 65536 8 empty_kernel)\<lparr>policy_max_recs := 1,
     index := [([1], demo_entry 100 0), ([2], demo_entry 50 0), ([3], demo_entry 120 2)]\<rparr>"

theorem prune_evicts_least_witness:
  "length (index (snd (prune_index_to_max_recs demo_store))) = 1"
proof -
  have "distinct_keys (index demo_store)" "policy_max_recs demo_store \<noteq> 0"
    by (simp_all add: demo_store_def)
  from prune_evicts_least [OF this] show ?thesis by (simp add: demo_store_def)
qed

lemma prune_shape: "\<exists>m d. snd (prune_index_to_max_recs s) = s\<lparr>index := m, dead_since_compact := d\<rparr>"
  by (subst prune_eq) blast

text \<open>The number of evictions is added to the count of dead records.\<close>

lemma prune_frame [frame_simps]:
  "kern (snd (prune_index_to_max_recs s)) = kern s"
  "fs_valid (snd (prune_index_to_max_recs s)) = fs_valid s"
  "base_prefix (snd (prune_index_to_max_recs s)) = base_prefix s"
  "segment_size (snd (prune_index_to_max_recs s)) = segment_size s"
  "segment_count (snd (prune_index_to_max_recs s)) = segment_count s"
  "active_file (snd (prune_index_to_max_recs s)) = active_file s"
  "index_file (snd (prune_index_to_max_recs s)) = index_file s"
  "current_segment (snd (prune_index_to_max_recs s)) = current_segment s"
  "current_offset (snd (prune_index_to_max_recs s)) = current_offset s"
  "policy_ttl_secs (snd (prune_index_to_max_recs s)) = policy_ttl_secs s"
  "policy_max_recs (snd (prune_index_to_max_recs s)) = policy_max_recs s"
  "write_buf (snd (prune_index_to_max_recs s)) = write_buf s"
  by (subst prune_eq, simp)+

lemma prune_index_subset: "set (index (snd (prune_index_to_max_recs s))) \<subseteq> set (index s)"
  by (subst prune_eq) auto

lemma prune_length:
  assumes "distinct_keys (index s)" "policy_max_recs s \<noteq> 0"
  shows "length (index (snd (prune_index_to_max_recs s))) \<le> unat (policy_max_recs s)"
  using assms(1)
proof (cases rule: prune_index_cases)
  case keep
  with assms(2) show ?thesis by auto
next
  case (evict n)
  note ks = eviction_keys_spec [OF assms(1) evict(2,3)]
  show ?thesis using length_filter_keys [OF assms(1) ks(2,3)] ks(1) evict by simp
qed

lemma prune_length_le: "length (index (snd (prune_index_to_max_recs s))) \<le> length (index s)"
  by (subst prune_eq) simp

lemma prune_off: "policy_max_recs s = 0 \<Longrightarrow> prune_index_to_max_recs s = (0, s)"
  by (simp add: prune_index_to_max_recs_def)

lemma prune_distinct:
  "distinct_keys (index s) \<Longrightarrow> distinct_keys (index (snd (prune_index_to_max_recs s)))"
  by (subst prune_eq) simp

section \<open>Expiry\<close>

text \<open>a record expires exactly when its effective TTL is positive and has fully passed since its
  timestamp, as numbers: the subtraction never wraps, and a timestamp in the future never expires.\<close>

lemma ttl_expired_iff:
  "is_ttl_expired clk ts record_ttl s \<longleftrightarrow>
     (let ttl = (if record_ttl \<noteq> 0 then record_ttl else policy_ttl_secs s)
      in ttl \<noteq> 0 \<and> unat ts + unat ttl \<le> unat (clk_time clk))"
proof -
  have "(ttl \<noteq> 0 \<and> clk_time clk > ts \<and> clk_time clk - ts \<ge> ttl) =
      (ttl \<noteq> 0 \<and> unat ts + unat ttl \<le> unat (clk_time clk))" for ttl :: u32
    by (auto simp: word_less_nat_alt word_le_nat_alt unat_sub unat_eq_0 [symmetric]
        simp del: unat_eq_0)
  then show ?thesis
    by (auto simp: is_ttl_expired_def Let_def word_gt_0)
qed

end
