(* ===== verification/RecordLog.thy ===== *)
theory RecordLog
  imports StoreState
begin

text \<open>
  The segment files as logs of records: the scan loop of \<open>FileStore.h\<close> (it occurs in
  \<open>finalize_compaction\<close>, \<open>rebuild_index_from_segments\<close> and \<open>dumpInfo\<close>), what it sees of a log that was
  written record by record, and what it sees when the last record is torn.
\<close>

section \<open>The scan loop\<close>

text \<open>The checks of the two rebuild loops, and the weaker ones of \<open>dumpInfo\<close>.\<close>

definition scan_ok :: "record_header \<Rightarrow> bool" where
  "scan_ok h \<longleftrightarrow> \<not> (rh_magic h \<noteq> MAGIC_RECORD \<or> rh_key_len h = 0 \<or>
     unat (rh_key_len h) > MAX_KEY_LEN \<or> unat (rh_length h) > MAX_VALUE_LEN)"

definition dump_ok :: "record_header \<Rightarrow> bool" where
  "dump_ok h \<longleftrightarrow> rh_magic h = MAGIC_RECORD \<and> \<not> unat (rh_key_len h) > MAX_KEY_LEN"

definition record_size :: "record_header \<Rightarrow> nat" where
  "record_size h = HEADER_SIZE + unat (rh_key_len h) + unat (rh_length h) + COMMIT_SIZE"

text \<open>One round of the loop: header, key, a seek over the value, commit marker.\<close>

definition scan_record ::
  "(record_header \<Rightarrow> bool) \<Rightarrow> kernel \<Rightarrow> fhandle \<Rightarrow> nat \<Rightarrow> ((record_header \<times> bytes) \<times> fhandle) option" where
  "scan_record ok K f scan_offset =
     (let (hb, f) = file_read HEADER_SIZE f K in
      if length hb \<noteq> HEADER_SIZE then None
      else let hdr = dec_header hb in
        if \<not> ok hdr then None
        else let (key_buf, f) = file_read (unat (rh_key_len hdr)) f K in
          if length key_buf \<noteq> unat (rh_key_len hdr) then None
          else let f = snd (file_seek (scan_offset + HEADER_SIZE + unat (rh_key_len hdr)
                        + unat (rh_length hdr)) SeekModeSet f K);
                   (cb, f) = file_read COMMIT_SIZE f K in
            if length cb \<noteq> COMMIT_SIZE then None
            else if dec_commit cb \<noteq> MAGIC_COMMIT then None
            else Some ((hdr, key_buf), f))"

text \<open>The records the loop visits, with their offsets.\<close>

function scan_records ::
  "(record_header \<Rightarrow> bool) \<Rightarrow> kernel \<Rightarrow> fhandle \<Rightarrow> nat \<Rightarrow> (nat \<times> record_header \<times> bytes) list" where
  "scan_records ok K f scan_offset = (case scan_record ok K f scan_offset of
      None \<Rightarrow> []
    | Some ((hdr, key), f) \<Rightarrow>
        (scan_offset, hdr, key) # scan_records ok K f (scan_offset + record_size hdr))"
  by pat_completeness auto

section \<open>The loop on bytes\<close>

definition parse_record :: "(record_header \<Rightarrow> bool) \<Rightarrow> bytes \<Rightarrow> (record_header \<times> bytes) option" where
  "parse_record ok bs =
     (let hdr = dec_header (take HEADER_SIZE bs);
          body = drop HEADER_SIZE bs;
          cb = take COMMIT_SIZE (drop (unat (rh_key_len hdr) + unat (rh_length hdr)) body)
      in if length bs < HEADER_SIZE \<or> \<not> ok hdr \<or> length body < unat (rh_key_len hdr) \<or>
            length cb < COMMIT_SIZE \<or> dec_commit cb \<noteq> MAGIC_COMMIT then None
         else Some (hdr, take (unat (rh_key_len hdr)) body))"

lemma parse_record_length:
  assumes "parse_record ok bs = Some (h, k)"
  shows "record_size h \<le> length bs"
proof -
  from assms have h: "h = dec_header (take HEADER_SIZE bs)"
    by (auto simp: parse_record_def Let_def split: if_splits)
  from assms have "\<not> length (take COMMIT_SIZE (drop (unat (rh_key_len h) + unat (rh_length h))
      (drop HEADER_SIZE bs))) < COMMIT_SIZE"
    by (auto simp: parse_record_def Let_def h split: if_splits)
  then show ?thesis by (auto simp: record_size_def COMMIT_SIZE_def)
qed

lemma record_size_pos: "0 < record_size h"
  by (simp add: record_size_def COMMIT_SIZE_def)

function scan_bytes ::
  "(record_header \<Rightarrow> bool) \<Rightarrow> nat \<Rightarrow> bytes \<Rightarrow> (nat \<times> record_header \<times> bytes) list" where
  "scan_bytes ok off bs = (case parse_record ok bs of
      None \<Rightarrow> []
    | Some (h, k) \<Rightarrow> (off, h, k) # scan_bytes ok (off + record_size h) (drop (record_size h) bs))"
  by pat_completeness auto
termination
proof (relation "measure (\<lambda>(ok, off, bs). length bs)", goal_cases)
  case (2 ok off bs r h k)
  with parse_record_length [of ok bs h k] record_size_pos [of h] show ?case by auto
qed simp

declare scan_bytes.simps [simp del]

text \<open>Reading through the handle sees the bytes of the file.\<close>

lemma scan_record_eq:
  assumes "file_readable f" "file_pos f = off"
  shows "map_option fst (scan_record ok K f off) = parse_record ok (drop off (file_data K f))"
    and "scan_record ok K f off = Some (r, f') \<Longrightarrow> file_readable f' \<and>
      file_data K f' = file_data K f \<and> file_pos f' = off + record_size (fst r)"
proof -
  define f1 where "f1 = snd (file_read HEADER_SIZE f K)"
  define hb where "hb = fst (file_read HEADER_SIZE f K)"
  define hdr where "hdr = dec_header hb"
  define f2 where "f2 = snd (file_read (unat (rh_key_len hdr)) f1 K)"
  define kb where "kb = fst (file_read (unat (rh_key_len hdr)) f1 K)"
  define p where "p = off + HEADER_SIZE + unat (rh_key_len hdr) + unat (rh_length hdr)"
  define f3 where "f3 = snd (file_seek p SeekModeSet f2 K)"
  define f4 where "f4 = snd (file_read COMMIT_SIZE f3 K)"
  define cb where "cb = fst (file_read COMMIT_SIZE f3 K)"
  have r1: "file_readable f1" "file_data K f1 = file_data K f" "file_pos f1 = off + length hb"
    using assms by (simp_all add: f1_def hb_def fr.rd_readable fr.rd_src fr.rd_pos)
  have hb: "hb = take HEADER_SIZE (drop off (file_data K f))"
    using assms by (simp add: hb_def fr.rd_bytes)
  have r2: "file_readable f2" "file_data K f2 = file_data K f"
    using r1 by (simp_all add: f2_def fr.rd_readable fr.rd_src)
  have kb: "kb = take (unat (rh_key_len hdr)) (drop (off + length hb) (file_data K f))"
    using r1 by (simp add: kb_def fr.rd_bytes)
  have r3: "file_readable f3" "file_data K f3 = file_data K f" "file_pos f3 = p"
    using r2 by (simp_all add: f3_def fr.skip_readable fr.skip_src fr.skip_pos)
  have cb: "cb = take COMMIT_SIZE (drop p (file_data K f))"
    using r3 by (simp add: cb_def fr.rd_bytes)
  have r4: "file_readable f4" "file_data K f4 = file_data K f" "file_pos f4 = p + length cb"
    using r3 by (simp_all add: f4_def cb_def fr.rd_readable fr.rd_src fr.rd_pos)
  have eq: "scan_record ok K f off =
      (if length hb \<noteq> HEADER_SIZE \<or> \<not> ok hdr \<or> length kb \<noteq> unat (rh_key_len hdr) \<or>
          length cb \<noteq> COMMIT_SIZE \<or> dec_commit cb \<noteq> MAGIC_COMMIT then None
       else Some ((hdr, kb), f4))"
    unfolding scan_record_def Let_def case_prod_unfold
      hb_def [symmetric] f1_def [symmetric] hdr_def [symmetric] kb_def [symmetric]
      f2_def [symmetric] p_def [symmetric] f3_def [symmetric] cb_def [symmetric] f4_def [symmetric]
    by simp
  have len: "length hb \<noteq> HEADER_SIZE \<longleftrightarrow> length (drop off (file_data K f)) < HEADER_SIZE"
    unfolding hb by auto
  show "map_option fst (scan_record ok K f off) = parse_record ok (drop off (file_data K f))"
  proof (cases "length hb = HEADER_SIZE")
    case False
    then show ?thesis using len by (simp add: eq parse_record_def Let_def)
  next
    case True
    then have kb': "kb = take (unat (rh_key_len hdr)) (drop HEADER_SIZE (drop off (file_data K f)))"
        "cb = take COMMIT_SIZE (drop (unat (rh_key_len hdr) + unat (rh_length hdr))
           (drop HEADER_SIZE (drop off (file_data K f))))"
      unfolding kb cb p_def by (simp_all add: add_ac)
    have l: "\<not> length (drop off (file_data K f)) < HEADER_SIZE" using True len by simp
    show ?thesis
      unfolding eq parse_record_def Let_def hb [symmetric] hdr_def [symmetric] kb'(2) [symmetric]
      using True l by (auto simp: kb'(1) cb)
  qed
  show "file_readable f' \<and> file_data K f' = file_data K f \<and> file_pos f' = off + record_size (fst r)"
    if "scan_record ok K f off = Some (r, f')"
    using that r4 by (auto simp: eq record_size_def p_def split: if_splits)
qed

lemma file_read_unreadable: "\<not> file_readable f \<Longrightarrow> fst (file_read n f K) = []"
  by (auto simp: file_readable_def file_read_def pf_read_bytes_def sys_read_def
      split: option.splits prod.splits)

text \<open>Every round advances, and stays inside the file.\<close>

lemma scan_record_progress:
  assumes "scan_record ok K f off = Some ((hdr, key), f')"
  shows "file_data K f' = file_data K f \<and> off + record_size hdr \<le> length (file_data K f)"
proof -
  have "length (fst (file_read HEADER_SIZE f K)) = HEADER_SIZE"
    using assms by (auto simp: scan_record_def Let_def split: prod.splits if_splits)
  then have readable: "file_readable f"
    using file_read_unreadable [of f HEADER_SIZE K]
    by (cases "file_readable f") (auto simp: HEADER_SIZE_def)
  define f1 where "f1 = snd (file_read HEADER_SIZE f K)"
  define f2 where "f2 = snd (file_read (unat (rh_key_len hdr)) f1 K)"
  define p where "p = off + HEADER_SIZE + unat (rh_key_len hdr) + unat (rh_length hdr)"
  define f3 where "f3 = snd (file_seek p SeekModeSet f2 K)"
  have "f' = snd (file_read COMMIT_SIZE f3 K)" "length (fst (file_read COMMIT_SIZE f3 K)) = COMMIT_SIZE"
    using assms by (auto simp: scan_record_def Let_def f1_def f2_def f3_def p_def case_prod_unfold
        split: if_splits)
  moreover have "file_readable f2" "file_data K f2 = file_data K f"
    using readable by (simp_all add: f1_def f2_def fr.rd_readable fr.rd_src)
  then have "file_readable f3" "file_data K f3 = file_data K f" "file_pos f3 = p"
    by (simp_all add: f3_def fr.skip_readable fr.skip_src fr.skip_pos)
  ultimately show ?thesis
    using fr.rd_full [of f3 COMMIT_SIZE K]
    by (simp add: fr.rd_src p_def record_size_def COMMIT_SIZE_def)
qed

termination scan_records
proof (relation "measure (\<lambda>(ok, K, f, off). length (file_data K f) - off)", goal_cases)
  case (2 ok K f off z r f' hdr key)
  then show ?case
    using scan_record_progress [of ok K f off hdr key f'] record_size_pos [of hdr] by auto
qed simp

declare scan_records.simps [simp del]

text \<open>The scan loop terminates on every file and sees exactly what the bytes say.\<close>

lemma scan_records_bytes:
  "file_readable f \<Longrightarrow> file_pos f = off \<Longrightarrow>
   scan_records ok K f off = scan_bytes ok off (drop off (file_data K f))"
proof (induction ok K f off rule: scan_records.induct)
  case (1 ok K f off)
  show ?case
  proof (cases "scan_record ok K f off")
    case None
    with scan_record_eq(1) [OF 1(2,3), of ok K] show ?thesis
      by (simp add: scan_records.simps [of ok K f] scan_bytes.simps [of ok off])
  next
    case (Some x)
    obtain hdr key f' where x: "x = ((hdr, key), f')" by (cases x) auto
    with scan_record_eq(2) [OF 1(2,3), of ok K "(hdr, key)" f'] Some
    have f': "file_readable f'" "file_data K f' = file_data K f" "file_pos f' = off + record_size hdr"
      by simp_all
    from scan_record_eq(1) [OF 1(2,3), of ok K] Some x
    have p: "parse_record ok (drop off (file_data K f)) = Some (hdr, key)" by simp
    from 1(1) [of "((hdr, key), f')" "(hdr, key)" f' hdr key] f' Some x
    have "scan_records ok K f' (off + record_size hdr) = scan_bytes ok (off + record_size hdr)
        (drop (off + record_size hdr) (file_data K f))" by simp
    with Some x p show ?thesis
      by (simp add: scan_records.simps [of ok K f] scan_bytes.simps [of ok off] add.commute)
  qed
qed

section \<open>Logs\<close>

type_synonym log_record = "record_header \<times> bytes \<times> bytes"

definition wf_record :: "log_record \<Rightarrow> bool" where
  "wf_record r = (case r of (h, k, v) \<Rightarrow> rh_magic h = MAGIC_RECORD \<and> unat (rh_key_len h) = length k \<and>
     unat (rh_length h) = length v \<and> 0 < length k \<and> length k \<le> MAX_KEY_LEN \<and>
     length v \<le> MAX_VALUE_LEN)"

definition enc_rec :: "log_record \<Rightarrow> bytes" where
  "enc_rec r = (case r of (h, k, v) \<Rightarrow> enc_record h k v)"

definition rec_size :: "log_record \<Rightarrow> nat" where
  "rec_size r = length (enc_rec r)"

definition enc_log :: "log_record list \<Rightarrow> bytes" where
  "enc_log rs = concat (map enc_rec rs)"

fun log_visits :: "nat \<Rightarrow> log_record list \<Rightarrow> (nat \<times> record_header \<times> bytes) list" where
  "log_visits off [] = []"
| "log_visits off ((h, k, v) # rs) = (off, h, k) # log_visits (off + rec_size (h, k, v)) rs"

lemma enc_log_simps [simp]:
  "enc_log [] = []" "enc_log (r # rs) = enc_rec r @ enc_log rs"
  "enc_log (rs @ rs') = enc_log rs @ enc_log rs'"
  by (simp_all add: enc_log_def)

lemma log_visits_append:
  "log_visits off (rs @ rs') = log_visits off rs @ log_visits (off + length (enc_log rs)) rs'"
  by (induction off rs rule: log_visits.induct) (simp_all add: rec_size_def add.assoc)

lemma unat_key_len: "length k \<le> MAX_KEY_LEN \<Longrightarrow> unat (of_nat (length k) :: u8) = length k"
  by (simp add: MAX_KEY_LEN_def unat_of_nat)

lemma unat_value_len: "length v \<le> MAX_VALUE_LEN \<Longrightarrow> unat (of_nat (length v) :: u16) = length v"
  by (simp add: MAX_VALUE_LEN_def unat_of_nat)

lemma wf_put_record:
  "0 < length k \<Longrightarrow> length k \<le> MAX_KEY_LEN \<Longrightarrow> length v \<le> MAX_VALUE_LEN \<Longrightarrow>
   wf_record (put_header k v ttl ts p, k, v)"
  by (simp add: wf_record_def unat_key_len unat_value_len)

lemma wf_tombstone:
  "0 < length k \<Longrightarrow> length k \<le> MAX_KEY_LEN \<Longrightarrow> wf_record (tombstone_header t p k, k, [])"
  by (simp add: wf_record_def unat_key_len MAX_VALUE_LEN_def)

lemma wf_record_scan_ok: "wf_record (h, k, v) \<Longrightarrow> scan_ok h"
  by (auto simp: wf_record_def scan_ok_def)

lemma wf_record_size: "wf_record (h, k, v) \<Longrightarrow> rec_size (h, k, v) = record_size h"
  by (simp add: wf_record_def rec_size_def enc_rec_def record_size_def)

lemma parse_enc_record:
  assumes "wf_record (h, k, v)" "ok h"
  shows "parse_record ok (enc_rec (h, k, v) @ rest) = Some (h, k)"
proof -
  have body: "enc_rec (h, k, v) @ rest = enc_header h @ k @ v @ enc_commit MAGIC_COMMIT @ rest"
    by (simp add: enc_rec_def enc_record_def)
  have hdr: "dec_header (take HEADER_SIZE (enc_rec (h, k, v) @ rest)) = h"
    unfolding body by (rule hdr.dec_take)
  have drop: "drop HEADER_SIZE (enc_rec (h, k, v) @ rest) = k @ v @ enc_commit MAGIC_COMMIT @ rest"
    unfolding body by (rule hdr.drop_enc)
  have "drop (unat (rh_key_len h) + unat (rh_length h)) (k @ v @ enc_commit MAGIC_COMMIT @ rest)
      = enc_commit MAGIC_COMMIT @ rest" using assms(1) by (simp add: wf_record_def)
  then have "take COMMIT_SIZE (drop (unat (rh_key_len h) + unat (rh_length h))
      (k @ v @ enc_commit MAGIC_COMMIT @ rest)) = enc_commit MAGIC_COMMIT"
    by (simp only: commit.take_enc)
  moreover have "dec_commit (enc_commit MAGIC_COMMIT) = MAGIC_COMMIT"
    using commit.dec_enc [of MAGIC_COMMIT "[]"] by simp
  moreover have "\<not> length (enc_rec (h, k, v) @ rest) < HEADER_SIZE" by (simp add: enc_rec_def)
  ultimately show ?thesis
    unfolding parse_record_def Let_def hdr drop using assms
    by (simp add: commit.enc_length wf_record_def)
qed

lemma scan_enc_rec:
  assumes "wf_record (h, k, v)" "ok h"
  shows "scan_bytes ok off (enc_rec (h, k, v) @ rest) =
    (off, h, k) # scan_bytes ok (off + rec_size (h, k, v)) rest"
proof -
  have "drop (record_size h) (enc_rec (h, k, v) @ rest) = rest"
    using wf_record_size [OF assms(1)] by (simp add: rec_size_def)
  with parse_enc_record [of h k v ok rest, OF assms] wf_record_size [OF assms(1)] show ?thesis
    by (subst scan_bytes.simps) simp
qed

text \<open>A log is seen record by record, and the scan goes on with what follows it.\<close>

lemma scan_enc_log:
  assumes "\<forall>r \<in> set rs. wf_record r"
  shows "scan_bytes scan_ok off (enc_log rs @ rest) =
    log_visits off rs @ scan_bytes scan_ok (off + length (enc_log rs)) rest"
  using assms
proof (induction off rs rule: log_visits.induct)
  case (2 off h k v rs)
  then have "wf_record (h, k, v)" by simp
  from scan_enc_rec [of h k v scan_ok, OF this wf_record_scan_ok [OF this]] 2 show ?case
    by (simp add: rec_size_def add.assoc)
qed simp

lemma scan_bytes_Nil [simp]: "scan_bytes ok off [] = []"
  by (simp add: scan_bytes.simps parse_record_def HEADER_SIZE_def)

text \<open>A proper prefix of a record is not taken for a record.\<close>

lemma parse_torn_record:
  assumes "wf_record (h, k, v)" "n < rec_size (h, k, v)"
  shows "parse_record ok (take n (enc_rec (h, k, v))) = None"
proof (rule ccontr)
  assume "parse_record ok (take n (enc_rec (h, k, v))) \<noteq> None"
  then obtain h' k' where p: "parse_record ok (take n (enc_rec (h, k, v))) = Some (h', k')" by auto
  then have n: "HEADER_SIZE \<le> n" and
      h': "h' = dec_header (take HEADER_SIZE (take n (enc_rec (h, k, v))))"
    by (auto simp: parse_record_def Let_def split: if_splits)
  have "take HEADER_SIZE (take n (enc_rec (h, k, v))) = take HEADER_SIZE (enc_rec (h, k, v))"
    using n by simp
  then have "h' = h"
    by (simp only: h' hdr.dec_take enc_rec_def enc_record_def prod.case)
  with parse_record_length [OF p] assms wf_record_size [OF assms(1)] show False by simp
qed

text \<open>C15: after a crash in the middle of an append, the scan loop run on the segment (through a freshly
  opened handle) sees exactly the records that were completely written, at their offsets.\<close>

theorem scan_ignores_torn_record:
  assumes "dir K p = Some i" "inodes K i = enc_log rs @ take n (enc_rec r)"
    "\<forall>r \<in> set rs. wf_record r" "wf_record r" "n < rec_size r"
  shows "\<exists>f. fs_open p ModeRead K = (Some f, K) \<and> scan_records scan_ok K f 0 = log_visits 0 rs"
proof -
  from assms(1) obtain f where f: "fs_open p ModeRead K = (Some f, K)" "file_readable f"
      "file_pos f = 0" "file_data K f = inodes K i" by (rule fs_open_read_handle)
  obtain h k v where r: "r = (h, k, v)" by (cases r)
  have "scan_bytes scan_ok off (take n (enc_rec r)) = []" for off
    using parse_torn_record [of h k v n scan_ok] assms r by (simp add: scan_bytes.simps)
  with f assms(2,3) show ?thesis
    by (intro exI [of _ f]) (simp add: scan_records_bytes scan_enc_log)
qed

definition demo_record :: log_record where
  "demo_record = (put_header [1] [2, 3] 0 0 0, [1], [2, 3])"

lemma wf_demo_record: "wf_record demo_record"
  unfolding demo_record_def by (rule wf_put_record) (simp_all add: MAX_KEY_LEN_def MAX_VALUE_LEN_def)

theorem scan_ignores_torn_record_witness:
  "\<exists>f. fs_open ''seg'' ModeRead (one_file ''seg'' (enc_log [demo_record] @ take 7 (enc_rec demo_record)))
       = (Some f, one_file ''seg'' (enc_log [demo_record] @ take 7 (enc_rec demo_record))) \<and>
     scan_records scan_ok (one_file ''seg'' (enc_log [demo_record] @ take 7 (enc_rec demo_record))) f 0
       = log_visits 0 [demo_record]"
  by (rule scan_ignores_torn_record [where i = 0 and r = demo_record and n = 7])
    (simp_all add: wf_demo_record, simp add: rec_size_def enc_rec_def demo_record_def HEADER_SIZE_def)

end
