(* ===== verification/IndexFile.thy ===== *)
theory IndexFile
  imports RecordLog
begin

text \<open>
  The persistent index of \<open>FileStore.h\<close>: a log of insertions and deletion sentinels, appended to by
  \<open>persist_index_entry\<close>, written in bulk by \<open>write_index_bulk\<close> and replayed by \<open>load_index\<close>.
\<close>

section \<open>Operations\<close>

definition persist_index_entry ::
  "bytes \<Rightarrow> u32 \<Rightarrow> u32 \<Rightarrow> u32 \<Rightarrow> u32 \<Rightarrow> u8 \<Rightarrow> store \<Rightarrow> bool \<times> store" where
  "persist_index_entry key seg off ts ttl priority s = (case valid_file (index_file s) of
      None \<Rightarrow> (False, s)
    | Some f \<Rightarrow> (case file_write_seq (index_entry_writes key seg off ts ttl priority) f (kern s) of
        (f, K) \<Rightarrow> (True, s\<lparr>index_file := Some f, kern := K\<rparr>)))"

definition bulk_writes :: "index_map \<Rightarrow> bytes list" where
  "bulk_writes m = concat (map (\<lambda>(k, iv). index_entry_writes k (ucast (iv_segment iv))
     (u24_get (iv_offset iv)) (iv_timestamp iv) (u24_get (iv_ttl iv)) (iv_priority iv)) m)"

definition write_index_bulk :: "store \<Rightarrow> bool \<times> store" where
  "write_index_bulk s = (case fs_open (index_name (base_prefix s)) ModeAppend (kern s) of
      (None, K) \<Rightarrow> (False, s\<lparr>kern := K\<rparr>)
    | (Some f, K) \<Rightarrow> (True, s\<lparr>kern := snd (file_write_seq (bulk_writes (index s)) f K)\<rparr>))"

definition open_index_for_append :: "store \<Rightarrow> store" where
  "open_index_for_append s = (case fs_open (index_name (base_prefix s)) ModeAppend (kern s) of
      (f, K) \<Rightarrow> s\<lparr>index_file := f, kern := K\<rparr>)"

type_synonym index_entry = "bytes \<times> u32 \<times> u32 \<times> u32 \<times> u32 \<times> u8"

text \<open>One round of the load loop.\<close>

definition read_entry :: "kernel \<Rightarrow> fhandle \<Rightarrow> (index_entry \<times> fhandle) option" where
  "read_entry K f =
     (let (lb, f) = file_read 1 f K in
      if length lb \<noteq> 1 then None
      else if unat (hd lb) > MAX_KEY_LEN then None
      else let (key, f) = file_read (unat (hd lb)) f K in
        if length key \<noteq> unat (hd lb) then None
        else let (seg, f) = file_read 4 f K in
          if length seg \<noteq> 4 then None
          else let (off, f) = file_read 4 f K in
            if length off \<noteq> 4 then None
            else let (ts, f) = file_read 4 f K in
              if length ts \<noteq> 4 then None
              else let (ttl, f) = file_read 4 f K in
                if length ttl \<noteq> 4 then None
                else let (pb, f) = file_read 1 f K in
                  if length pb \<noteq> 1 then None
                  else Some ((key, of_le32 seg, of_le32 off, of_le32 ts, of_le32 ttl, hd pb), f))"

function read_entries :: "kernel \<Rightarrow> fhandle \<Rightarrow> index_entry list" where
  "read_entries K f = (case read_entry K f of
      None \<Rightarrow> []
    | Some (e, f) \<Rightarrow> e # read_entries K f)"
  by pat_completeness auto

definition apply_entry :: "index_entry \<Rightarrow> store \<Rightarrow> store" where
  "apply_entry e s = (case e of (key, seg, off, ts, ttl, priority) \<Rightarrow>
     if seg = INDEX_DELETED then index_remove key s
     else index_insert key seg off ts ttl priority s)"

section \<open>The loop on bytes\<close>

definition parse_entry :: "bytes \<Rightarrow> (index_entry \<times> bytes) option" where
  "parse_entry bs = (case bs of
      [] \<Rightarrow> None
    | n # body \<Rightarrow>
      let k = unat n; fields = drop k body in
      if k > MAX_KEY_LEN \<or> length body < k + 17 then None
      else Some ((take k body, of_le32 fields, of_le32 (drop 4 fields), of_le32 (drop 8 fields),
                  of_le32 (drop 12 fields), fields ! 16), drop 17 fields))"

lemma parse_entry_shorter: "parse_entry bs = Some (e, r) \<Longrightarrow> length r < length bs"
  by (auto simp: parse_entry_def Let_def split: list.splits if_splits)

function parse_entries :: "bytes \<Rightarrow> index_entry list" where
  "parse_entries bs = (case parse_entry bs of None \<Rightarrow> [] | Some (e, r) \<Rightarrow> e # parse_entries r)"
  by pat_completeness auto
termination
  by (relation "measure length") (auto dest: parse_entry_shorter)

declare parse_entries.simps [simp del]

lemma of_le32_take: "of_le32 (take 4 bs) = of_le32 bs"
proof (cases bs rule: of_le32.cases)
  case (1 a b c d e)
  then show ?thesis by (simp add: numeral_eq_Suc)
qed (simp_all add: numeral_eq_Suc)

text \<open>A chain of complete reads consumes consecutive pieces of the file.\<close>

definition at_bytes :: "kernel \<Rightarrow> fhandle \<Rightarrow> bytes \<Rightarrow> bool" where
  "at_bytes K f bs \<longleftrightarrow> file_readable f \<and> drop (file_pos f) (file_data K f) = bs"

lemma at_bytes_read:
  assumes "at_bytes K f bs"
  shows "fst (file_read n f K) = take n bs" "at_bytes K (snd (file_read n f K)) (drop n bs)"
proof -
  show 1: "fst (file_read n f K) = take n bs"
    using assms by (simp add: at_bytes_def fr.rd_bytes)
  have "drop (file_pos f + length (take n bs)) (file_data K f) = drop n bs"
    using assms unfolding at_bytes_def
    by (metis append_take_drop_id drop_drop length_append add.commute append_eq_conv_conj)
  with assms 1 show "at_bytes K (snd (file_read n f K)) (drop n bs)"
    by (simp add: at_bytes_def fr.rd_readable fr.rd_src fr.rd_pos)
qed

lemma read_entry_parse:
  assumes "at_bytes K f bs"
  shows "case read_entry K f of None \<Rightarrow> parse_entry bs = None
    | Some (e, f') \<Rightarrow> \<exists>r. parse_entry bs = Some (e, r) \<and> at_bytes K f' r"
proof (cases bs)
  case Nil
  with at_bytes_read(1) [OF assms, of 1] show ?thesis
    by (simp add: read_entry_def parse_entry_def case_prod_unfold Let_def)
next
  case (Cons n body)
  define f1 where "f1 = snd (file_read 1 f K)"
  define f2 where "f2 = snd (file_read (unat n) f1 K)"
  define f3 where "f3 = snd (file_read 4 f2 K)"
  define f4 where "f4 = snd (file_read 4 f3 K)"
  define f5 where "f5 = snd (file_read 4 f4 K)"
  define f6 where "f6 = snd (file_read 4 f5 K)"
  define f7 where "f7 = snd (file_read 1 f6 K)"
  define fields where "fields = drop (unat n) body"
  note r1 = at_bytes_read [OF assms, of 1, folded f1_def]
  note r2 = at_bytes_read [OF r1(2), of "unat n", folded f2_def]
  note r3 = at_bytes_read [OF r2(2), of 4, folded f3_def]
  note r4 = at_bytes_read [OF r3(2), of 4, folded f4_def]
  note r5 = at_bytes_read [OF r4(2), of 4, folded f5_def]
  note r6 = at_bytes_read [OF r5(2), of 4, folded f6_def]
  note r7 = at_bytes_read [OF r6(2), of 1, folded f7_def]
  have e: "fst (file_read 1 f K) = [n]" "fst (file_read (unat n) f1 K) = take (unat n) body"
      "fst (file_read 4 f2 K) = take 4 fields" "fst (file_read 4 f3 K) = take 4 (drop 4 fields)"
      "fst (file_read 4 f4 K) = take 4 (drop 8 fields)"
      "fst (file_read 4 f5 K) = take 4 (drop 12 fields)"
      "fst (file_read 1 f6 K) = take 1 (drop 16 fields)" "at_bytes K f7 (drop 17 fields)"
    using r1 r2 r3 r4 r5 r6 r7 by (simp_all add: Cons fields_def)
  have last: "take 1 (drop 16 fields) = [fields ! 16]" if "16 < length fields"
    using that by (simp add: take_Suc_conv_app_nth hd_drop_conv_nth take_Suc)
  have eq: "read_entry K f = (if unat n > MAX_KEY_LEN \<or> length (take (unat n) body) \<noteq> unat n \<or>
        length (take 4 fields) \<noteq> 4 \<or> length (take 4 (drop 4 fields)) \<noteq> 4 \<or>
        length (take 4 (drop 8 fields)) \<noteq> 4 \<or> length (take 4 (drop 12 fields)) \<noteq> 4 \<or>
        length (take 1 (drop 16 fields)) \<noteq> 1 then None
      else Some ((take (unat n) body, of_le32 (take 4 fields), of_le32 (take 4 (drop 4 fields)),
        of_le32 (take 4 (drop 8 fields)), of_le32 (take 4 (drop 12 fields)),
        hd (take 1 (drop 16 fields))), f7))"
    unfolding read_entry_def Let_def case_prod_unfold f1_def [symmetric] e(1) list.sel
      f2_def [symmetric] f3_def [symmetric] f4_def [symmetric] f5_def [symmetric] f6_def [symmetric]
      f7_def [symmetric] e
    by simp
  show ?thesis
  proof (cases "unat n > MAX_KEY_LEN \<or> length body < unat n + 17")
    case True
    then show ?thesis by (auto simp: eq parse_entry_def Let_def Cons fields_def)
  next
    case False
    then have l: "17 \<le> length fields" "unat n \<le> length body" by (auto simp: fields_def)
    with False e(8) last show ?thesis
      by (simp add: eq parse_entry_def Let_def Cons fields_def [symmetric] of_le32_take)
  qed
qed

lemma read_entry_readable: "read_entry K f = Some r \<Longrightarrow> file_readable f"
  using file_read_unreadable [of f 1 K]
  by (cases "file_readable f") (auto simp: read_entry_def Let_def case_prod_unfold)

termination read_entries
proof (relation "measure (\<lambda>(K, f). length (drop (file_pos f) (file_data K f)))", goal_cases)
  case (2 K f x e f')
  then have "at_bytes K f (drop (file_pos f) (file_data K f))"
    by (auto simp: at_bytes_def dest: read_entry_readable)
  from read_entry_parse [OF this] 2 obtain r where
    "parse_entry (drop (file_pos f) (file_data K f)) = Some (e, r)" "at_bytes K f' r" by auto
  then show ?case by (auto simp: at_bytes_def dest!: parse_entry_shorter)
qed simp

declare read_entries.simps [simp del]

lemma read_entries_bytes: "at_bytes K f bs \<Longrightarrow> read_entries K f = parse_entries bs"
proof (induction bs arbitrary: f rule: parse_entries.induct)
  case (1 bs)
  from read_entry_parse [OF 1(2)] 1(1) show ?case
    by (auto simp: read_entries.simps [of K f] parse_entries.simps [of bs] split: option.splits)
qed

definition load_index :: "store \<Rightarrow> bool \<times> store" where
  "load_index s = (case fs_open (index_name (base_prefix s)) ModeRead (kern s) of
      (None, K) \<Rightarrow> (False, s\<lparr>kern := K\<rparr>)
    | (Some f, K) \<Rightarrow> (True, foldl (\<lambda>s e. apply_entry e s) (s\<lparr>kern := K\<rparr>) (read_entries K f)))"

section \<open>Replay\<close>

definition enc_entry :: "index_entry \<Rightarrow> bytes" where
  "enc_entry e = (case e of (key, seg, off, ts, ttl, priority) \<Rightarrow>
     concat (index_entry_writes key seg off ts ttl priority))"

definition enc_entries :: "index_entry list \<Rightarrow> bytes" where
  "enc_entries es = concat (map enc_entry es)"

lemma enc_entries_simps [simp]:
  "enc_entries [] = []" "enc_entries (e # es) = enc_entry e @ enc_entries es"
  "enc_entries (es @ es') = enc_entries es @ enc_entries es'"
  by (simp_all add: enc_entries_def)

lemma length_enc_entry [simp]: "length (enc_entry (k, seg, off, ts, ttl, p)) = length k + 18"
  by (simp add: enc_entry_def index_entry_writes_def)

lemma of_le32_drop_le32:
  "of_le32 (le32 a @ r) = a" "drop 4 (le32 a @ r) = r" "of_le32 (drop 4 (le32 a @ le32 b @ r)) = b"
  by simp_all

lemma parse_enc_entry:
  assumes "length k \<le> MAX_KEY_LEN"
  shows "parse_entry (enc_entry (k, seg, off, ts, ttl, p) @ rest) =
    Some ((k, seg, off, ts, ttl, p), rest)"
proof -
  let ?fields = "le32 seg @ le32 off @ le32 ts @ le32 ttl @ [p] @ rest"
  have "drop 8 ?fields = le32 ts @ le32 ttl @ [p] @ rest"
    "drop 12 ?fields = le32 ttl @ [p] @ rest" "drop 16 ?fields = [p] @ rest" by simp_all
  moreover from this(3) have "?fields ! 16 = p" by (simp add: nth_via_drop)
  moreover have "drop 17 ?fields = rest" by simp
  ultimately show ?thesis
    using assms unat_key_len [OF assms]
    by (simp add: parse_entry_def enc_entry_def index_entry_writes_def Let_def)
qed

lemma parse_enc_entries:
  "\<forall>e \<in> set es. length (fst e) \<le> MAX_KEY_LEN \<Longrightarrow>
   parse_entries (enc_entries es @ rest) = es @ parse_entries rest"
proof (induction es)
  case (Cons e es)
  then show ?case
    by (cases e) (simp add: parse_entries.simps [of "enc_entry x @ y" for x y] parse_enc_entry)
qed simp

lemma parse_entries_Nil [simp]: "parse_entries [] = []"
  by (simp add: parse_entries.simps parse_entry_def)

lemma parse_torn_entry:
  assumes "length (fst e) \<le> MAX_KEY_LEN" "n < length (enc_entry e)"
  shows "parse_entry (take n (enc_entry e)) = None"
proof (cases n)
  case 0
  then show ?thesis by (simp add: parse_entry_def)
next
  case (Suc m)
  obtain k seg off ts ttl p where e: "e = (k, seg, off, ts, ttl, p)" by (cases e)
  have "enc_entry e = of_nat (length k) # drop 1 (enc_entry e)"
    by (simp add: e enc_entry_def index_entry_writes_def)
  then have t: "take n (enc_entry e) = of_nat (length k) # take m (drop 1 (enc_entry e))"
    using Suc by (metis take_Suc_Cons)
  have "length (take m (drop 1 (enc_entry e))) < length k + 17" using assms(2) Suc by (simp add: e)
  then show ?thesis
    using assms(1) unfolding t parse_entry_def Let_def
    by (simp add: e unat_key_len)
qed

lemma load_index_parse:
  assumes "contents (kern s) (index_name (base_prefix s)) = Some bs"
  shows "load_index s = (True, foldl (\<lambda>s e. apply_entry e s) s (parse_entries bs))"
proof -
  from assms obtain i where i: "dir (kern s) (index_name (base_prefix s)) = Some i" "inodes (kern s) i = bs"
    by (auto simp: contents_def)
  from i(1) obtain f where f: "fs_open (index_name (base_prefix s)) ModeRead (kern s) = (Some f, kern s)"
      "file_readable f" "file_pos f = 0" "file_data (kern s) f = inodes (kern s) i"
    by (rule fs_open_read_handle)
  then have "at_bytes (kern s) f bs" using i by (simp add: at_bytes_def)
  with f show ?thesis by (simp add: load_index_def read_entries_bytes)
qed

lemma load_index_eq:
  assumes "contents (kern s) (index_name (base_prefix s)) = Some (enc_entries es @ t)"
    "\<forall>e \<in> set es. length (fst e) \<le> MAX_KEY_LEN" "parse_entries t = []"
  shows "load_index s = (True, foldl (\<lambda>s e. apply_entry e s) s es)"
  using load_index_parse [OF assms(1)] assms(2,3) by (simp add: parse_enc_entries)

lemma load_index_missing:
  "dir (kern s) (index_name (base_prefix s)) = None \<Longrightarrow> load_index s = (False, s)"
  by (simp add: load_index_def fs_open_read)


definition demo_index_store :: "bytes \<Rightarrow> store" where
  "demo_index_store bs = (new_store 65536 8 (one_file (index_name ''s'') bs))\<lparr>base_prefix := ''s''\<rparr>"


text \<open>The file is not truncated at a torn entry, so the loop reads what was appended behind it out of step:
  the entry is completed by the first bytes behind it, and the loop goes on behind those.\<close>

lemma parse_completed_entry:
  assumes "length (fst e) \<le> MAX_KEY_LEN" "length (fst e) < n" "n \<le> length (enc_entry e)"
    "length (enc_entry e) \<le> n + length bs"
  obtains e' where "fst e' = fst e"
    "parse_entry (take n (enc_entry e) @ bs) = Some (e', drop (length (enc_entry e) - n) bs)"
proof -
  obtain k seg off ts ttl p where e: "e = (k, seg, off, ts, ttl, p)" by (cases e)
  define fields where "fields = le32 seg @ le32 off @ le32 ts @ le32 ttl @ [p]"
  let ?m = "n - Suc (length k)"
  let ?body = "k @ take ?m fields @ bs"
  have n: "Suc (length k) \<le> n" using assms(2) by (simp add: e)
  have f: "length fields = 17" by (simp add: fields_def)
  have enc: "enc_entry e = (of_nat (length k) # k) @ fields"
    by (simp add: e enc_entry_def index_entry_writes_def fields_def)
  then have t: "take n (enc_entry e) @ bs = of_nat (length k) # ?body" using n by (simp add: take_Cons')
  have len: "length ?body \<ge> length k + 17" using assms(3,4) n f by (simp add: enc)
  have rest: "drop (length k + 17) ?body = drop (length (enc_entry e) - n) bs"
    using assms(3) n f by (simp add: enc)
  let ?f = "drop (length k) ?body"
  have "parse_entry (take n (enc_entry e) @ bs) = Some ((k, of_le32 ?f, of_le32 (drop 4 ?f), of_le32 (drop 8 ?f),
      of_le32 (drop 12 ?f), ?f ! 16), drop (length (enc_entry e) - n) bs)"
    using assms(1) len rest unat_key_len [of k] unfolding t parse_entry_def Let_def
    by (simp add: e add.commute)
  then show thesis by (intro that) (simp_all add: e)
qed

lemma parse_short: "length bs < 18 \<Longrightarrow> parse_entries bs = []"
  by (auto simp: parse_entries.simps [of bs] parse_entry_def Let_def split: list.split)

text \<open>C37: a torn entry is only harmless while it stays last. When an entry is torn behind its key and another
  one is appended after the next boot, loading reports success, but the complete entry that was appended is
  lost if its key is shorter than what the torn entry lacks; in its place an entry is applied that nobody
  wrote, for the key of the torn one.\<close>

theorem torn_entry_hides_later_entries:
  assumes "contents (kern s) (index_name (base_prefix s)) = Some (enc_entries es @ take n (enc_entry e) @ enc_entry e2)"
    "\<forall>e \<in> set es. length (fst e) \<le> MAX_KEY_LEN" "length (fst e) \<le> MAX_KEY_LEN"
    and torn: "length (fst e) < n" "n + length (fst e2) < length (enc_entry e)"
  shows "\<exists>e'. fst e' = fst e \<and> load_index s = (True, foldl (\<lambda>s e. apply_entry e s) s (es @ [e']))"
proof -
  let ?m = "length (enc_entry e) - n"
  have l2: "length (enc_entry e2) = length (fst e2) + 18" and l1: "length (enc_entry e) = length (fst e) + 18"
    by (cases e2; simp) (cases e; simp)
  obtain e' where e': "fst e' = fst e"
      "parse_entry (take n (enc_entry e) @ enc_entry e2) = Some (e', drop ?m (enc_entry e2))"
    by (rule parse_completed_entry [OF assms(3) torn(1), of "enc_entry e2"]) (use torn l1 l2 in auto)
  have "parse_entries (drop ?m (enc_entry e2)) = []"
    using torn l2 by (intro parse_short) simp
  then have "parse_entries (take n (enc_entry e) @ enc_entry e2) = [e']"
    using e'(2) by (simp add: parse_entries.simps [of "_ @ _"])
  then have "load_index s = (True, foldl (\<lambda>s e. apply_entry e s) s (es @ [e']))"
    using load_index_parse [OF assms(1)] parse_enc_entries [OF assms(2)] by simp
  with e'(1) show ?thesis by blast
qed

text \<open>The entry for key 8 behind 17 of the 19 bytes of the entry for key 7.\<close>

theorem torn_entry_hides_later_entries_witness:
  "let s = demo_index_store (enc_entries [] @ take 17 (enc_entry ([7], 0, 0, 0, 0, 0)) @ enc_entry ([8], 0, 28, 6, 0, 0))
   in fst (load_index s) \<and> index_find [8] (snd (load_index s)) = None"
proof -
  let ?s = "demo_index_store (enc_entries [] @ take 17 (enc_entry ([7], 0, 0, 0, 0, 0)) @ enc_entry ([8], 0, 28, 6, 0, 0))"
  have c: "contents (kern ?s) (index_name (base_prefix ?s)) =
      Some (enc_entries [] @ take 17 (enc_entry ([7], 0, 0, 0, 0, 0)) @ enc_entry ([8], 0, 28, 6, 0, 0))"
    by (simp add: demo_index_store_def new_store_def contents_def)
  have "index ?s = []" by (simp add: demo_index_store_def new_store_def)
  moreover obtain e' where "fst e' = [7]" "load_index ?s = (True, apply_entry e' ?s)"
    using torn_entry_hides_later_entries [OF c] by (auto simp: MAX_KEY_LEN_def)
  ultimately show ?thesis
    by (cases e') (simp add: apply_entry_def index_remove_def index_insert_def index_find_def Let_def)
qed

section \<open>Writing the index\<close>

definition entry_of :: "bytes \<times> index_value \<Rightarrow> index_entry" where
  "entry_of e = (case e of (k, iv) \<Rightarrow> (k, ucast (iv_segment iv), u24_get (iv_offset iv),
     iv_timestamp iv, u24_get (iv_ttl iv), iv_priority iv))"

lemma concat_bulk_writes: "concat (bulk_writes m) = enc_entries (map entry_of m)"
  by (induction m) (auto simp: bulk_writes_def entry_of_def enc_entry_def)

lemma u24_set_get [simp]: "u24_set (u24_get u) = u"
proof -
  have m: "(0xff :: u32) = mask 8" by (simp add: mask_eq_exp_minus_1)
  have "ucast (u24_get u AND 0xff) = b0 u" "ucast (drop_bit 8 (u24_get u) AND 0xff) = b1 u"
    "ucast (drop_bit 16 (u24_get u) AND 0xff) = b2 u"
    unfolding m u24_get_def
    by (rule bit_word_eqI, auto simp: bit_simps dest: bit_imp_le_length)+
  then show ?thesis by (cases u) (simp add: u24_set_def)
qed

lemma ucast_u8_u32_u8 [simp]: "(ucast (ucast (w :: u8) :: u32) :: u8) = w"
  by (simp add: word_unat_eq_iff unat_ucast_mod [of "ucast w :: u32"])

lemma ucast_u8_not_deleted: "(ucast (w :: u8) :: u32) \<noteq> INDEX_DELETED"
proof
  assume "(ucast w :: u32) = INDEX_DELETED"
  then have "unat w = 4294967295" by (simp add: INDEX_DELETED_def flip: unat_ucast_u8_u32)
  with unat_u8_less [of w] show False by linarith
qed

lemma apply_entry_of:
  "apply_entry (entry_of (k, iv)) s = s\<lparr>index := AList.update k iv (index s)\<rparr>"
  by (cases iv) (simp add: apply_entry_def entry_of_def ucast_u8_not_deleted index_insert_def
      make_index_value_def)

lemma replay_entries_of:
  assumes "distinct_keys (pre @ m)" "index s = pre"
  shows "foldl (\<lambda>s e. apply_entry e s) s (map entry_of m) = s\<lparr>index := pre @ m\<rparr>"
  using assms
proof (induction m arbitrary: s pre)
  case (Cons e m)
  obtain k iv where e: "e = (k, iv)" by (cases e)
  have "AList.update k iv pre = pre @ [(k, iv)]"
    using Cons.prems(1) unfolding e by (induction pre) auto
  with Cons.prems e Cons.IH [of "pre @ [e]" "s\<lparr>index := pre @ [e]\<rparr>"] show ?case
    by (simp add: apply_entry_of)
qed simp

text \<open>What \<open>write_index_bulk\<close> leaves on the disk, when it writes to a file that was just removed.\<close>

definition write_new :: "string \<Rightarrow> bytes \<Rightarrow> kernel \<Rightarrow> kernel" where
  "write_new p bs K = append_ino (next_ino K) bs (create_ino p K)"

lemma write_index_bulk_new:
  assumes "healthy (kern s)" "dir (kern s) (index_name (base_prefix s)) = None"
  shows "write_index_bulk s = (True, s\<lparr>kern :=
    write_new (index_name (base_prefix s)) (enc_entries (map entry_of (index s))) (kern s)\<rparr>)"
proof -
  let ?p = "index_name (base_prefix s)"
  obtain f i where f: "fs_open ?p ModeAppend (kern s) = (Some f, create_ino ?p (kern s))"
      "dir (create_ino ?p (kern s)) ?p = Some i" "append_handle f i"
    using fs_open_append [of "kern s" ModeAppend ?p] assms(1) by blast
  have i: "i = next_ino (kern s)" using f(2) assms(2) by (simp add: create_ino_def)
  have "healthy (create_ino ?p (kern s))" using assms(1) by simp
  from file_write_seq_tail [OF append_handle_tail [OF f(3)] this]
  obtain f' where "file_write_seq (bulk_writes (index s)) f (create_ino ?p (kern s)) =
      (f', append_ino i (concat (bulk_writes (index s))) (create_ino ?p (kern s)))" by metis
  with f show ?thesis
    by (simp add: write_index_bulk_def write_new_def concat_bulk_writes i)
qed

text \<open>C17: the index that a bulk write puts on the disk is the index a later load builds, entry for entry
  and in the same order.\<close>

theorem bulk_write_load_roundtrip:
  assumes "healthy (kern s)" "dir (kern s) (index_name (base_prefix s)) = None"
    "distinct_keys (index s)" "\<forall>e \<in> set (index s). length (fst e) \<le> MAX_KEY_LEN"
  shows "load_index ((snd (write_index_bulk s))\<lparr>index := []\<rparr>) = (True, snd (write_index_bulk s))"
proof -
  let ?s' = "snd (write_index_bulk s)\<lparr>index := []\<rparr>"
  have c: "contents (kern ?s') (index_name (base_prefix ?s')) = Some (enc_entries (map entry_of (index s)) @ [])"
    using assms(2)
    by (simp add: write_index_bulk_new [OF assms(1,2)] contents_def write_new_def create_ino_def)
  have "load_index ?s' = (True, foldl (\<lambda>s e. apply_entry e s) ?s' (map entry_of (index s)))"
    by (rule load_index_eq [OF c]) (use assms(4) in \<open>auto simp: entry_of_def\<close>)
  then show ?thesis
    using replay_entries_of [of "[]" "index s" ?s'] assms(3)
    by (simp add: write_index_bulk_new [OF assms(1,2)])
qed

theorem bulk_write_load_roundtrip_witness:
  "load_index (snd (write_index_bulk demo_store)\<lparr>index := []\<rparr>) = (True, snd (write_index_bulk demo_store))"
  by (rule bulk_write_load_roundtrip)
    (simp_all add: demo_store_def new_store_def empty_kernel_def MAX_KEY_LEN_def healthy_def)

end
