(* ===== verification/Compaction.thy ===== *)
theory Compaction
  imports IndexFile
begin

text \<open>
  Segments, the compaction journal, compaction and recovery of \<open>FileStore.h\<close>. A compaction streams
  the live records of one segment after the other into \<open>compact.tmp\<close>, journals the progress, deletes
  the segment, and in the end renames the temporary file to segment 0 and rebuilds the index from
  it. \<open>recover_if_needed\<close> finishes or discards what a power failure left behind.
\<close>

section \<open>Segments\<close>

definition close_active :: "store \<Rightarrow> store" where
  "close_active s = (case valid_file (active_file s) of
      None \<Rightarrow> s | Some f \<Rightarrow> s\<lparr>active_file := Some (file_close f)\<rparr>)"

definition close_index :: "store \<Rightarrow> store" where
  "close_index s = (case valid_file (index_file s) of
      None \<Rightarrow> s | Some f \<Rightarrow> s\<lparr>index_file := Some (file_close f)\<rparr>)"

definition open_segment :: "nat \<Rightarrow> store \<Rightarrow> bool \<times> store" where
  "open_segment n s =
     (let s = close_active s in
      case fs_open (segment_name (base_prefix s) n) ModeReadAppend (kern s) of
        (None, K) \<Rightarrow> (False, s\<lparr>active_file := None, kern := K\<rparr>)
      | (Some f, K) \<Rightarrow>
          let f = snd (file_seek 0 SeekModeEnd f K)
          in (True, s\<lparr>active_file := Some f, kern := K, current_segment := n,
                      current_offset := file_tell f\<rparr>))"

section \<open>Journal\<close>

definition write_journal :: "journal_state \<Rightarrow> nat \<Rightarrow> nat \<Rightarrow> store \<Rightarrow> store" where
  "write_journal state next_seg tmp_valid_size s =
     (case fs_open (journal_name (base_prefix s)) ModeWrite (kern s) of
        (None, K) \<Rightarrow> s\<lparr>kern := K\<rparr>
      | (Some f, K) \<Rightarrow>
          let j = \<lparr>j_magic = JOURNAL_MAGIC, j_state = journal_state_code state,
                   j_next_seg = of_nat next_seg, j_tmp_valid_size = of_nat tmp_valid_size\<rparr>
          in s\<lparr>kern := snd (snd (file_write (enc_journal j) f K))\<rparr>)"

definition fs_remove_in :: "string \<Rightarrow> store \<Rightarrow> store" where
  "fs_remove_in p s = s\<lparr>kern := fs_remove p (kern s)\<rparr>"

definition clear_journal :: "store \<Rightarrow> store" where
  "clear_journal s = fs_remove_in (journal_name (base_prefix s)) s"

definition remove_segments :: "nat list \<Rightarrow> store \<Rightarrow> store" where
  "remove_segments is s = foldl (\<lambda>s i. fs_remove_in (segment_name (base_prefix s) i) s) s is"

section \<open>Rebuilding the index from a log\<close>

text \<open>The bodies of the two scan loops: after a compaction deletions are skipped, in a rebuild over all
  segments they remove the key.\<close>

definition finalize_visit :: "store \<Rightarrow> nat \<times> record_header \<times> bytes \<Rightarrow> store" where
  "finalize_visit s r = (case r of (off, hdr, key) \<Rightarrow>
     if rh_flags hdr AND FLAG_DELETE \<noteq> 0 then s
     else index_insert key 0 (of_nat off) (rh_timestamp hdr) (rh_ttl hdr) (rh_priority hdr) s)"

definition rebuild_visit :: "nat \<Rightarrow> store \<Rightarrow> nat \<times> record_header \<times> bytes \<Rightarrow> store" where
  "rebuild_visit seg s r = (case r of (off, hdr, key) \<Rightarrow>
     if rh_flags hdr AND FLAG_DELETE \<noteq> 0 then index_remove key s
     else index_insert key (of_nat seg) (of_nat off) (rh_timestamp hdr) (rh_ttl hdr)
            (rh_priority hdr) s)"

definition finalize_compaction :: "store \<Rightarrow> store" where
  "finalize_compaction s =
     (let tmp_path = tmp_name (base_prefix s); seg0 = segment_name (base_prefix s) 0;
          s = remove_segments [0..<unat (segment_count s)] s;
          (ok, K) = fs_rename tmp_path seg0 (kern s); s = s\<lparr>kern := K\<rparr>
      in if \<not> ok then fs_remove_in tmp_path s
         else
           let s = s\<lparr>index := []\<rparr>;
               s = (case fs_open seg0 ModeRead (kern s) of
                   (None, K) \<Rightarrow> s\<lparr>kern := K\<rparr>
                 | (Some f, K) \<Rightarrow>
                     foldl finalize_visit (s\<lparr>kern := K\<rparr>) (scan_records scan_ok K f 0));
               s = close_index s;
               s = fs_remove_in (index_name (base_prefix s)) s;
               s = snd (write_index_bulk s);
               s = open_index_for_append s
           in s\<lparr>current_segment := 0\<rparr>)"

definition rebuild_segment :: "nat \<Rightarrow> store \<Rightarrow> store" where
  "rebuild_segment seg s =
     (case fs_open (segment_name (base_prefix s) seg) ModeRead (kern s) of
        (None, K) \<Rightarrow> s\<lparr>kern := K\<rparr>
      | (Some f, K) \<Rightarrow> foldl (rebuild_visit seg) (s\<lparr>kern := K\<rparr>) (scan_records scan_ok K f 0))"

definition rebuild_index_from_segments :: "store \<Rightarrow> store" where
  "rebuild_index_from_segments s =
     (let s = s\<lparr>index := []\<rparr>;
          s = foldl (\<lambda>s seg. rebuild_segment seg s) s [0..<unat (segment_count s)];
          s = close_index s;
          s = fs_remove_in (index_name (base_prefix s)) s
      in snd (write_index_bulk s))"

section \<open>Recovery\<close>

definition recover_if_needed :: "store \<Rightarrow> store" where
  "recover_if_needed s =
     (let name = journal_name (base_prefix s); tmp_path = tmp_name (base_prefix s) in
      case fs_open name ModeRead (kern s) of
        (None, K) \<Rightarrow> s\<lparr>kern := K\<rparr>
      | (Some f, K) \<Rightarrow>
          let s = s\<lparr>kern := K\<rparr>; bs = fst (file_read JOURNAL_SIZE f K); j = dec_journal bs
          in if length bs \<noteq> JOURNAL_SIZE \<or> j_magic j \<noteq> JOURNAL_MAGIC then fs_remove_in name s
             else if j_state j = journal_state_code JOURNAL_COMMIT then
               fs_remove_in name (finalize_compaction s)
             else if j_next_seg j = 0 then fs_remove_in name (fs_remove_in tmp_path s)
             else
               case fs_rename tmp_path (segment_name (base_prefix s) 0) (kern s) of
                 (ok, K) \<Rightarrow> if \<not> ok then s\<lparr>kern := K\<rparr> else fs_remove_in name (s\<lparr>kern := K\<rparr>))"

section \<open>Compaction\<close>

definition live_offsets :: "clock \<Rightarrow> nat \<Rightarrow> store \<Rightarrow> u32 list" where
  "live_offsets clk seg s = sort (map (\<lambda>(k, iv). u24_get (iv_offset iv))
     (filter (\<lambda>(k, iv). unat (iv_segment iv) = seg \<and>
        \<not> is_ttl_expired clk (iv_timestamp iv) (u24_get (iv_ttl iv)) s) (index s)))"

text \<open>One record: \<open>None\<close> is the \<open>continue\<close> of the loop, otherwise the bytes to write.\<close>

definition read_live :: "u32 \<Rightarrow> fhandle \<Rightarrow> kernel \<Rightarrow> (record_header \<times> bytes \<times> bytes) option \<times> fhandle" where
  "read_live off src K =
     (let src = snd (file_seek (unat off) SeekModeSet src K);
          (hb, src) = file_read HEADER_SIZE src K
      in if length hb \<noteq> HEADER_SIZE then (None, src)
         else let hdr = dec_header hb in
           if rh_magic hdr \<noteq> MAGIC_RECORD \<or> unat (rh_key_len hdr) > MAX_KEY_LEN \<or>
              unat (rh_length hdr) > MAX_VALUE_LEN then (None, src)
           else let (key_buf, src) = file_read (unat (rh_key_len hdr)) src K in
             if length key_buf \<noteq> unat (rh_key_len hdr) then (None, src)
             else if rh_length hdr > 0 then
               (let (val_buf, src) = file_read (unat (rh_length hdr)) src K in
                if length val_buf \<noteq> unat (rh_length hdr) then (None, src)
                else (Some (hdr, key_buf, val_buf), src))
             else (Some (hdr, key_buf, []), src))"

definition write_live :: "record_header \<times> bytes \<times> bytes \<Rightarrow> fhandle \<Rightarrow> kernel \<Rightarrow> bool \<times> fhandle \<times> kernel" where
  "write_live r outf K = (case r of (hdr, key_buf, val_buf) \<Rightarrow>
     let expected = HEADER_SIZE + unat (rh_key_len hdr) + unat (rh_length hdr) + COMMIT_SIZE;
         (w1, outf, K) = file_write (enc_header hdr) outf K;
         (w2, outf, K) = file_write key_buf outf K;
         (w3, outf, K) = (if rh_length hdr > 0 then file_write val_buf outf K else (0, outf, K));
         (w4, outf, K) = file_write (enc_commit MAGIC_COMMIT) outf K
     in (w1 + w2 + w3 + w4 = expected, outf, K))"

fun copy_live :: "u32 list \<Rightarrow> fhandle \<Rightarrow> fhandle \<Rightarrow> kernel \<Rightarrow> bool \<times> fhandle \<times> kernel" where
  "copy_live [] src outf K = (True, outf, K)"
| "copy_live (off # offs) src outf K = (case read_live off src K of
      (None, src) \<Rightarrow> copy_live offs src outf K
    | (Some r, src) \<Rightarrow> (case write_live r outf K of
        (ok, outf, K) \<Rightarrow> if ok then copy_live offs src outf K else (False, outf, K)))"

text \<open>The loop over the segments: it stops at the first failed write, and otherwise journals and
  deletes each segment after its records were copied.\<close>

fun compact_segments :: "clock \<Rightarrow> nat list \<Rightarrow> fhandle \<Rightarrow> nat \<Rightarrow> store \<Rightarrow> bool \<times> nat \<times> store" where
  "compact_segments clk [] outf committed_segs s = (True, committed_segs, s)"
| "compact_segments clk (n # ns) outf committed_segs s =
     (let offsets = live_offsets clk n s;
          src_name = segment_name (base_prefix s) n;
          (write_ok, outf, s) =
            (if offsets = [] then (True, outf, s)
             else case fs_open src_name ModeRead (kern s) of
                 (None, K) \<Rightarrow> (True, outf, s\<lparr>kern := K\<rparr>)
               | (Some src, K) \<Rightarrow> (case copy_live offsets src outf K of
                   (ok, outf, K) \<Rightarrow> (ok, outf, s\<lparr>kern := K\<rparr>)))
      in if \<not> write_ok then (False, committed_segs, s)
         else let valid_size = file_tell outf;
                  s = write_journal JOURNAL_COMPACTING (n + 1) valid_size s;
                  s = fs_remove_in src_name s
              in compact_segments clk ns outf (committed_segs + 1) s)"

definition compact :: "clock \<Rightarrow> store \<Rightarrow> bool \<times> store" where
  "compact clk s =
     (let s = write_journal JOURNAL_COMPACTING 0 0 s; tmp_path = tmp_name (base_prefix s) in
      case fs_open tmp_path ModeWrite (kern s) of
        (None, K) \<Rightarrow> (False, clear_journal (s\<lparr>kern := K\<rparr>))
      | (Some outf, K) \<Rightarrow>
          let s = snd (prune_index_to_max_recs (s\<lparr>kern := K\<rparr>));
              (write_ok, committed_segs, s) =
                compact_segments clk [0..<unat (segment_count s)] outf 0 s
          in if \<not> write_ok then
               (False, if committed_segs = 0 then clear_journal (fs_remove_in tmp_path s) else s)
             else let s = write_journal JOURNAL_COMMIT 0 0 s;
                      s = finalize_compaction s;
                      s = clear_journal s
                  in (True, s\<lparr>dead_since_compact := 0\<rparr>))"

section \<open>When the store compacts\<close>

text \<open>The length of the key is not part of the estimate.\<close>

definition rotate_segment_if_needed :: "clock \<Rightarrow> nat \<Rightarrow> store \<Rightarrow> bool \<times> store" where
  "rotate_segment_if_needed clk write_size s =
     (if current_offset s + write_size + HEADER_SIZE + COMMIT_SIZE < unat (segment_size s) then (True, s)
      else
        let s = snd (flush_buffer s);
            s = close_active s;
            s = s\<lparr>current_segment := current_segment s + 1\<rparr>
        in if current_segment s < unat (segment_count s) then
             (True, snd (open_segment (current_segment s) s))
           else if compact_in_cooldown s \<and>
               clk_millis clk - compact_cooldown_start_ms s < COMPACT_RETRY_MS then
             (False, snd (open_segment (unat (segment_count s) - 1)
                       (s\<lparr>current_segment := unat (segment_count s) - 1\<rparr>)))
           else case compact clk s of
               (False, s) \<Rightarrow>
                 (False, snd (open_segment (unat (segment_count s) - 1)
                    (s\<lparr>compact_in_cooldown := True, compact_cooldown_start_ms := clk_millis clk,
                       current_segment := unat (segment_count s) - 1\<rparr>)))
             | (True, s) \<Rightarrow>
                 (True, snd (open_segment 1 (s\<lparr>compact_in_cooldown := False, current_segment := 1\<rparr>))))"

definition compact_if_threshold :: "clock \<Rightarrow> store \<Rightarrow> store" where
  "compact_if_threshold clk s =
     (let total = of_nat (length (index s)) + dead_since_compact s in
      if total > 0 \<and> dead_since_compact s * 100 div total \<ge> COMPACT_THRESHOLD then
        (case compact clk s of
           (False, s) \<Rightarrow> s
         | (True, s) \<Rightarrow> snd (open_segment 1 (s\<lparr>current_segment := 1\<rparr>)))
      else s)"

end
