(* ===== verification/FileStore.thy ===== *)
theory FileStore
  imports Compaction Codec
begin

text \<open>
  The public operations of \<open>BasicFileStore\<close> (\<open>FileStore.h\<close>): \<open>init\<close>, \<open>close\<close>, \<open>clear\<close>, \<open>put\<close>, \<open>get\<close>,
  \<open>remove\<close>, \<open>exists\<close>, \<open>size\<close>, \<open>dumpInfo\<close> and the iterator. Keys and values are byte lists, whose
  lengths are the \<open>key_len\<close> and \<open>len\<close> arguments; the overloads that take C strings and vectors narrow
  the lengths to those types first.
\<close>

section \<open>put, get, remove, exists, size\<close>

text \<open>\<open>put\<close> after the rotation: write the record, then commit it to the index and to its file.\<close>

definition write_record :: "record_header \<Rightarrow> bytes \<Rightarrow> bytes \<Rightarrow> store \<Rightarrow> bool \<times> store" where
  "write_record hdr key data s =
     flush_buffer (append_all [enc_header hdr, key, data, enc_commit MAGIC_COMMIT] s)"

definition commit_put :: "bytes \<Rightarrow> nat \<Rightarrow> nat \<Rightarrow> u32 \<Rightarrow> u32 \<Rightarrow> u8 \<Rightarrow> store \<Rightarrow> store" where
  "commit_put key data_len offset ttl ts priority s =
     (let s = (if index_find key s \<noteq> None
               then s\<lparr>dead_since_compact := dead_since_compact s + 1\<rparr> else s);
          s = index_insert key (of_nat (current_segment s)) (of_nat offset) ts ttl priority s;
          s = (if policy_max_recs s > 0 \<and> length (index s) > unat (policy_max_recs s)
               then snd (prune_index_to_max_recs s) else s);
          s = snd (persist_index_entry key (of_nat (current_segment s)) (of_nat offset)
                     ts ttl priority s)
      in s\<lparr>current_offset := current_offset s + HEADER_SIZE + length key + data_len + COMMIT_SIZE\<rparr>)"

definition store_put :: "clock \<Rightarrow> bytes \<Rightarrow> bytes \<Rightarrow> u32 \<Rightarrow> u32 \<Rightarrow> u8 \<Rightarrow> store \<Rightarrow> bool \<times> store" where
  "store_put clk key data ttl ts priority s =
     (if \<not> fs_valid s then (False, s)
      else if length key > MAX_KEY_LEN then (False, s)
      else if length data > MAX_VALUE_LEN then (False, s)
      else
        let s = snd (rotate_segment_if_needed clk (length data) s);
            hdr = put_header key data ttl ts priority;
            offset = current_offset s
        in case write_record hdr key data s of
            (False, s) \<Rightarrow> (False, s)
          | (True, s) \<Rightarrow>
              (True, compact_if_threshold clk (commit_put key (length data) offset ttl ts priority s)))"

text \<open>The result of \<open>get\<close>: the bytes copied to \<open>out\<close> (none for a size request, when \<open>out\<close> is null) and
  the size reported.\<close>

definition store_get :: "clock \<Rightarrow> bytes \<Rightarrow> bool \<Rightarrow> u16 \<Rightarrow> store \<Rightarrow> (bytes \<times> u16) option \<times> store" where
  "store_get clk key has_out out_size s =
     (if \<not> fs_valid s then (None, s)
      else if length key > MAX_KEY_LEN then (None, s)
      else
        let s = snd (flush_buffer s) in
        case index_find key s of
          None \<Rightarrow> (None, s)
        | Some e \<Rightarrow>
          if is_ttl_expired clk (iv_timestamp e) (u24_get (iv_ttl e)) s then (None, index_remove key s)
          else
            case fs_open (segment_name (base_prefix s) (unat (iv_segment e))) ModeRead (kern s) of
              (None, K) \<Rightarrow> (None, s\<lparr>kern := K\<rparr>)
            | (Some f, K) \<Rightarrow>
              let s = s\<lparr>kern := K\<rparr>; off = unat (u24_get (iv_offset e));
                  f = snd (file_seek off SeekModeSet f K);
                  (hb, f) = file_read HEADER_SIZE f K
              in if length hb \<noteq> HEADER_SIZE then (None, s)
                 else let hdr = dec_header hb in
                   if rh_magic hdr \<noteq> MAGIC_RECORD \<or> unat (rh_key_len hdr) > MAX_KEY_LEN \<or>
                      unat (rh_length hdr) > MAX_VALUE_LEN then (None, s)
                   else if has_out then
                     let f = snd (file_seek (off + HEADER_SIZE + unat (rh_key_len hdr)) SeekModeSet f K);
                         n = min (unat (rh_length hdr)) (unat out_size);
                         bs = fst (file_read n f K)
                     in if length bs \<noteq> n then (None, s) else (Some (bs, rh_length hdr), s)
                   else (Some ([], rh_length hdr), s))"

definition commit_remove :: "bytes \<Rightarrow> store \<Rightarrow> store" where
  "commit_remove key s =
     (let s = (if index_find key s \<noteq> None
               then s\<lparr>dead_since_compact := dead_since_compact s + 1\<rparr> else s);
          s = index_remove key s;
          s = snd (persist_index_entry key INDEX_DELETED 0 0 0 0 s)
      in s\<lparr>current_offset := current_offset s + HEADER_SIZE + length key + COMMIT_SIZE\<rparr>)"

definition store_remove :: "clock \<Rightarrow> u32 \<Rightarrow> u8 \<Rightarrow> bytes \<Rightarrow> store \<Rightarrow> bool \<times> store" where
  "store_remove clk junk_ttl junk_priority key s =
     (if \<not> fs_valid s then (False, s)
      else if length key > MAX_KEY_LEN then (False, s)
      else
        let hdr = tombstone_header junk_ttl junk_priority key;
            s = append_all [enc_header hdr, key, enc_commit MAGIC_COMMIT] s;
            s = snd (flush_buffer s)
        in (True, compact_if_threshold clk (commit_remove key s)))"

definition store_exists :: "clock \<Rightarrow> bytes \<Rightarrow> store \<Rightarrow> bool \<times> store" where
  "store_exists clk key s =
     (if \<not> fs_valid s then (False, s)
      else if length key > MAX_KEY_LEN then (False, s)
      else case index_find key s of
        None \<Rightarrow> (False, s)
      | Some e \<Rightarrow>
          if is_ttl_expired clk (iv_timestamp e) (u24_get (iv_ttl e)) s then (False, index_remove key s)
          else (True, s))"

definition store_size :: "store \<Rightarrow> nat" where
  "store_size s = (if \<not> fs_valid s then 0 else length (index s))"

section \<open>Overloads\<close>

definition put_vec :: "clock \<Rightarrow> bytes \<Rightarrow> bytes \<Rightarrow> u32 \<Rightarrow> u32 \<Rightarrow> u8 \<Rightarrow> store \<Rightarrow> bool \<times> store" where
  "put_vec clk key data ttl ts priority s =
     store_put clk (narrow8 key) (narrow16 data) ttl ts priority s"

text \<open>The vector overload of \<open>get\<close> resizes \<open>out\<close> to the maximum, and then to the reported size.\<close>

definition get_vec :: "clock \<Rightarrow> bytes \<Rightarrow> store \<Rightarrow> bytes option \<times> store" where
  "get_vec clk key s = (case store_get clk (narrow8 key) True (of_nat MAX_VALUE_LEN) s of
      (None, s) \<Rightarrow> (None, s)
    | (Some (bs, n), s) \<Rightarrow> (Some (take (unat n) (bs @ replicate (unat n - length bs) 0)), s))"

definition remove_vec :: "clock \<Rightarrow> u32 \<Rightarrow> u8 \<Rightarrow> bytes \<Rightarrow> store \<Rightarrow> bool \<times> store" where
  "remove_vec clk junk_ttl junk_priority key s =
     store_remove clk junk_ttl junk_priority (narrow8 key) s"

definition exists_vec :: "clock \<Rightarrow> bytes \<Rightarrow> store \<Rightarrow> bool \<times> store" where
  "exists_vec clk key s = store_exists clk (narrow8 key) s"

text \<open>The overloads with a C string key, and with C strings and \<open>std::string\<close> as values.\<close>

definition put_cstr :: "clock \<Rightarrow> bytes \<Rightarrow> bytes \<Rightarrow> u32 \<Rightarrow> u32 \<Rightarrow> u8 \<Rightarrow> store \<Rightarrow> bool \<times> store" where
  "put_cstr clk key data ttl ts priority s = store_put clk (narrow8 (cstr_encode key)) data ttl ts priority s"

definition put_cstr_cstr :: "clock \<Rightarrow> bytes \<Rightarrow> bytes \<Rightarrow> u32 \<Rightarrow> u32 \<Rightarrow> u8 \<Rightarrow> store \<Rightarrow> bool \<times> store" where
  "put_cstr_cstr clk key data ttl ts priority s =
     store_put clk (narrow8 (cstr_encode key)) (narrow16 (cstr_encode data)) ttl ts priority s"

definition put_cstr_string :: "clock \<Rightarrow> bytes \<Rightarrow> string \<Rightarrow> u32 \<Rightarrow> u32 \<Rightarrow> u8 \<Rightarrow> store \<Rightarrow> bool \<times> store" where
  "put_cstr_string clk key data ttl ts priority s =
     store_put clk (narrow8 (cstr_encode key)) (narrow16 (string_encode data)) ttl ts priority s"

definition put_string :: "clock \<Rightarrow> string \<Rightarrow> string \<Rightarrow> u32 \<Rightarrow> u32 \<Rightarrow> u8 \<Rightarrow> store \<Rightarrow> bool \<times> store" where
  "put_string clk key data ttl ts priority s =
     store_put clk (narrow8 (string_encode key)) (narrow16 (string_encode data)) ttl ts priority s"

definition get_cstr :: "clock \<Rightarrow> bytes \<Rightarrow> bool \<Rightarrow> u16 \<Rightarrow> store \<Rightarrow> (bytes \<times> u16) option \<times> store" where
  "get_cstr clk key has_out out_size s = store_get clk (narrow8 (cstr_encode key)) has_out out_size s"

definition get_cstr_string :: "clock \<Rightarrow> bytes \<Rightarrow> store \<Rightarrow> string option \<times> store" where
  "get_cstr_string clk key s =
     (case store_get clk (narrow8 (cstr_encode key)) True (of_nat MAX_VALUE_LEN) s of
        (None, s) \<Rightarrow> (None, s)
      | (Some (bs, n), s) \<Rightarrow> (string_decode (take (unat n) (bs @ replicate (unat n - length bs) 0)), s))"

definition get_string :: "clock \<Rightarrow> string \<Rightarrow> store \<Rightarrow> string option \<times> store" where
  "get_string clk key s =
     (case store_get clk (narrow8 (string_encode key)) True (of_nat MAX_VALUE_LEN) s of
        (None, s) \<Rightarrow> (None, s)
      | (Some (bs, n), s) \<Rightarrow> (string_decode (take (unat n) (bs @ replicate (unat n - length bs) 0)), s))"

definition remove_cstr :: "clock \<Rightarrow> u32 \<Rightarrow> u8 \<Rightarrow> bytes \<Rightarrow> store \<Rightarrow> bool \<times> store" where
  "remove_cstr clk junk_ttl junk_priority key s =
     store_remove clk junk_ttl junk_priority (narrow8 (cstr_encode key)) s"

definition exists_cstr :: "clock \<Rightarrow> bytes \<Rightarrow> store \<Rightarrow> bool \<times> store" where
  "exists_cstr clk key s = store_exists clk (narrow8 (cstr_encode key)) s"

section \<open>init, close, clear\<close>

definition store_clear :: "store \<Rightarrow> store" where
  "store_clear s =
     (if \<not> fs_valid s then s
      else
        let s = snd (flush_buffer s);
            index_open = (valid_file (index_file s) \<noteq> None);
            s = close_index s;
            active_open = (valid_file (active_file s) \<noteq> None);
            s = close_active s;
            s = remove_segments [0..<unat (segment_count s)] s;
            s = fs_remove_in (index_name (base_prefix s)) s;
            s = s\<lparr>index := [], dead_since_compact := 0, current_segment := 0, current_offset := 0,
                   write_buf := []\<rparr>;
            s = (if index_open then open_index_for_append s else s)
        in if active_open then snd (open_segment 0 s) else s)"

definition store_close :: "store \<Rightarrow> store" where
  "store_close s = close_active (close_index (snd (flush_buffer s)))"

text \<open>The destructor flushes the buffer of an initialised store.\<close>

definition store_destroy :: "store \<Rightarrow> store" where
  "store_destroy s = (if fs_valid s then snd (flush_buffer s) else s)"

text \<open>The highest segment present on the disk, 0 when there is none.\<close>

definition resume_segment :: "store \<Rightarrow> nat" where
  "resume_segment s = foldl (\<lambda>r i.
     (case fs_open (segment_name (base_prefix s) i) ModeRead (kern s) of
        (None, _) \<Rightarrow> r | (Some f, _) \<Rightarrow> i)) 0 [0..<unat (segment_count s)]"

definition set_prefix :: "string \<Rightarrow> store \<Rightarrow> store" where
  "set_prefix prefix s = s\<lparr>base_prefix := take (MAX_FILENAME_LEN - 1) prefix\<rparr>"

definition make_prefix_dir :: "store \<Rightarrow> store" where
  "make_prefix_dir s =
     (if base_prefix s \<noteq> [] \<and> last (base_prefix s) = CHR ''/''
      then s\<lparr>kern := snd (fs_mkdir (butlast (base_prefix s)) (kern s))\<rparr> else s)"

definition load_or_rebuild :: "store \<Rightarrow> store" where
  "load_or_rebuild s = (case load_index s of
      (True, s) \<Rightarrow> s | (False, s) \<Rightarrow> rebuild_index_from_segments s)"

definition prune_at_boot :: "store \<Rightarrow> store" where
  "prune_at_boot s = (case prune_index_to_max_recs s of
      (pruned, s) \<Rightarrow>
        if pruned > 0 then snd (write_index_bulk (fs_remove_in (index_name (base_prefix s)) s))
        else s)"

definition store_init :: "string \<Rightarrow> bool \<Rightarrow> u32 \<Rightarrow> u8 \<Rightarrow> store \<Rightarrow> bool \<times> store" where
  "store_init prefix clear_on_init seg_size seg_count s =
     (let s = (if seg_size > 0 then s\<lparr>segment_size := seg_size\<rparr> else s);
          s = (if seg_count > 0 then s\<lparr>segment_count := seg_count\<rparr> else s);
          s = s\<lparr>fs_valid := True\<rparr>;
          s = set_prefix prefix s;
          s = make_prefix_dir s;
          s = (if clear_on_init then store_clear s else s);
          s = recover_if_needed s;
          s = load_or_rebuild s;
          s = prune_at_boot s;
          s = open_index_for_append s;
          s = snd (open_segment (resume_segment s) s)
      in (True, s))"

section \<open>dumpInfo\<close>

record dump_counts =
  d_file_size :: nat
  d_entries :: nat
  d_tomb_entries :: nat
  d_tomb_bytes :: nat
  d_dead_entries :: nat
  d_dead_bytes :: nat

definition no_counts :: dump_counts where
  "no_counts = \<lparr>d_file_size = 0, d_entries = 0, d_tomb_entries = 0, d_tomb_bytes = 0,
     d_dead_entries = 0, d_dead_bytes = 0\<rparr>"

definition dump_visit :: "nat \<Rightarrow> store \<Rightarrow> dump_counts \<Rightarrow> nat \<times> record_header \<times> bytes \<Rightarrow> dump_counts" where
  "dump_visit seg s c r = (case r of (offset, hdr, key) \<Rightarrow>
     if rh_flags hdr AND FLAG_DELETE \<noteq> 0 then
       c\<lparr>d_tomb_entries := d_tomb_entries c + 1, d_tomb_bytes := d_tomb_bytes c + record_size hdr\<rparr>
     else if (case index_find key s of None \<Rightarrow> False
          | Some iv \<Rightarrow> unat (iv_segment iv) = seg \<and> unat (u24_get (iv_offset iv)) = offset)
     then c\<lparr>d_entries := d_entries c + 1\<rparr>
     else c\<lparr>d_dead_entries := d_dead_entries c + 1, d_dead_bytes := d_dead_bytes c + record_size hdr\<rparr>)"

definition dump_segment :: "nat \<Rightarrow> fhandle \<Rightarrow> store \<Rightarrow> dump_counts" where
  "dump_segment seg f s =
     (let f = snd (file_seek 0 SeekModeEnd f (kern s)); size = file_tell f;
          f = snd (file_seek 0 SeekModeSet f (kern s))
      in foldl (dump_visit seg s) (no_counts\<lparr>d_file_size := size\<rparr>)
           (scan_records dump_ok (kern s) f 0))"

fun dump_segments :: "nat list \<Rightarrow> store \<Rightarrow> (nat \<times> dump_counts) list" where
  "dump_segments [] s = []"
| "dump_segments (seg # segs) s =
     (case fs_open (segment_name (base_prefix s) seg) ModeRead (kern s) of
        (None, K) \<Rightarrow> []
      | (Some f, K) \<Rightarrow> (seg, dump_segment seg f s) # dump_segments segs s)"

definition add_counts :: "dump_counts \<Rightarrow> dump_counts \<Rightarrow> dump_counts" where
  "add_counts a b = \<lparr>d_file_size = d_file_size a + d_file_size b, d_entries = d_entries a + d_entries b,
     d_tomb_entries = d_tomb_entries a + d_tomb_entries b,
     d_tomb_bytes = d_tomb_bytes a + d_tomb_bytes b,
     d_dead_entries = d_dead_entries a + d_dead_entries b,
     d_dead_bytes = d_dead_bytes a + d_dead_bytes b\<rparr>"

definition dump_info :: "store \<Rightarrow> ((nat \<times> dump_counts) list \<times> dump_counts) \<times> store" where
  "dump_info s =
     (let s = snd (flush_buffer s); segs = dump_segments [0..<unat (segment_count s)] s
      in ((segs, foldl add_counts no_counts (map snd segs)), s))"

section \<open>The iterator\<close>

record store_entry =
  e_key :: bytes
  e_value :: bytes
  e_timestamp :: u32
  e_ttl :: u32

record store_iterator =
  it_rest :: index_map
  it_iv :: "index_value option"
  it_value_loaded :: bool
  it_current :: store_entry

text \<open>An iterator holds the positions that are left; \<open>end()\<close> has none.\<close>

definition load_meta :: "store_iterator \<Rightarrow> store_iterator" where
  "load_meta it = (case it_rest it of
      [] \<Rightarrow> it
    | (k, iv) # _ \<Rightarrow> it\<lparr>it_iv := Some iv, it_value_loaded := False,
        it_current := \<lparr>e_key = k, e_value = [], e_timestamp = iv_timestamp iv,
                        e_ttl = u24_get (iv_ttl iv)\<rparr>\<rparr>)"

definition iterator_at :: "index_map \<Rightarrow> store_iterator" where
  "iterator_at m = load_meta \<lparr>it_rest = m, it_iv = None, it_value_loaded = False,
     it_current = \<lparr>e_key = [], e_value = [], e_timestamp = 0, e_ttl = 0\<rparr>\<rparr>"

definition store_begin :: "store \<Rightarrow> store_iterator \<times> store" where
  "store_begin s = (let s = snd (flush_buffer s) in (iterator_at (index s), s))"

definition store_end :: "store_iterator" where
  "store_end = iterator_at []"

definition iterator_next :: "store_iterator \<Rightarrow> store_iterator" where
  "iterator_next it = load_meta (it\<lparr>it_rest := tl (it_rest it)\<rparr>)"

text \<open>The postfix increment returns the old iterator; \<open>operator->\<close> gives the entry without loading its value.\<close>

definition iterator_postfix :: "store_iterator \<Rightarrow> store_iterator \<times> store_iterator" where
  "iterator_postfix it = (it, iterator_next it)"

definition iterator_arrow :: "store_iterator \<Rightarrow> store_entry" where
  "iterator_arrow it = it_current it"

definition iterator_eq :: "store_iterator \<Rightarrow> store_iterator \<Rightarrow> bool" where
  "iterator_eq a b \<longleftrightarrow> it_rest a = it_rest b"

text \<open>\<open>load_value\<close> does not check its header read: after a short one the fields are what was on the
  stack, given as \<open>junk\<close>.\<close>

definition load_value :: "record_header \<Rightarrow> store_iterator \<Rightarrow> store \<Rightarrow> store_iterator" where
  "load_value junk it s = (case it_iv it of None \<Rightarrow> it | Some iv \<Rightarrow>
     (case fs_open (segment_name (base_prefix s) (unat (iv_segment iv))) ModeRead (kern s) of
        (None, K) \<Rightarrow> it\<lparr>it_value_loaded := True, it_current := (it_current it)\<lparr>e_value := []\<rparr>\<rparr>
      | (Some f, K) \<Rightarrow>
          let off = unat (u24_get (iv_offset iv));
              f = snd (file_seek off SeekModeSet f K);
              (hb, f) = file_read HEADER_SIZE f K;
              hdr = (if length hb = HEADER_SIZE then dec_header hb else junk);
              f = snd (file_seek (off + HEADER_SIZE + unat (rh_key_len hdr)) SeekModeSet f K);
              n = unat (rh_length hdr);
              bs = (if n > 0 then fst (file_read n f K) else [])
          in it\<lparr>it_value_loaded := True,
                 it_current := (it_current it)\<lparr>e_value := bs @ replicate (n - length bs) 0\<rparr>\<rparr>))"

definition iterator_deref :: "record_header \<Rightarrow> store_iterator \<Rightarrow> store \<Rightarrow> store_iterator" where
  "iterator_deref junk it s = (if it_value_loaded it then it else load_value junk it s)"

text \<open>What \<open>for (auto& e : store)\<close> sees.\<close>

lemma load_meta_rest [simp]: "it_rest (load_meta it) = it_rest it"
  by (simp add: load_meta_def split: list.split)

function file_walk :: "record_header \<Rightarrow> store_iterator \<Rightarrow> store \<Rightarrow> store_entry list" where
  "file_walk junk it s =
     (if iterator_eq it store_end then []
      else it_current (iterator_deref junk it s) # file_walk junk (iterator_next it) s)"
  by auto
termination
proof (relation "measure (\<lambda>(_, it, _). length (it_rest it))")
  fix junk it s assume "\<not> iterator_eq it store_end"
  then have "it_rest it \<noteq> []" by (simp add: iterator_eq_def store_end_def iterator_at_def)
  then show "((junk, iterator_next it, s), junk, it, s) \<in> measure (\<lambda>(_, it, _). length (it_rest it))"
    by (simp add: iterator_next_def)
qed simp

declare file_walk.simps [simp del]

section \<open>The hash and the printed form of a key\<close>

definition vector_hash :: "bytes \<Rightarrow> u32" where
  "vector_hash v = foldl (\<lambda>h b. (h XOR ucast b) * 16777619) 2166136261 v"

definition char_str :: "bytes \<Rightarrow> bytes" where
  "char_str key = take MAX_VALUE_LEN key"

definition hex_digit :: "nat \<Rightarrow> char" where
  "hex_digit n = char_of (if n < 10 then 48 + n else 87 + n)"

text \<open>\<open>%02x\<close>\<close>

definition hex_byte :: "u8 \<Rightarrow> string" where
  "hex_byte b = [hex_digit (unat b div 16), hex_digit (unat b mod 16)]"

definition bin_str :: "bytes \<Rightarrow> string" where
  "bin_str key = concat (map hex_byte (take MAX_VALUE_LEN key))"

lemma hex_digit_eq: "a < 16 \<Longrightarrow> b < 16 \<Longrightarrow> hex_digit a = hex_digit b \<longleftrightarrow> a = b"
proof
  assume less: "a < 16" "b < 16" and eq: "hex_digit a = hex_digit b"
  have code: "(of_char (hex_digit n) :: nat) = (if n < 10 then 48 + n else 87 + n)" if "n < 16" for n
    using that by (simp add: hex_digit_def)
  have "(if a < 10 then 48 + a else 87 + a) = (if b < 10 then 48 + b else 87 + b)"
    using code [OF less(1)] code [OF less(2)] eq by simp
  then show "a = b" by (simp split: if_splits)
qed simp

lemma hex_byte_eq: "hex_byte a = hex_byte b \<longleftrightarrow> a = b"
proof
  assume "hex_byte a = hex_byte b"
  then have "unat a div 16 = unat b div 16" "unat a mod 16 = unat b mod 16"
    using unsigned_less [of a] unsigned_less [of b] by (simp_all add: hex_byte_def hex_digit_eq less_mult_imp_div_less)
  then have "unat a = unat b" by (metis div_mult_mod_eq)
  then show "a = b" by (rule word_unat_eq_iff [THEN iffD2])
qed simp

text \<open>The buffer of the printed form has room for it, and different keys are printed differently.\<close>

lemma bin_str_fits: "length (bin_str key) \<le> 2 * MAX_VALUE_LEN"
proof -
  have "length (concat (map hex_byte bs)) = 2 * length bs" for bs
    by (induction bs) (simp_all add: hex_byte_def)
  then show ?thesis by (simp add: bin_str_def)
qed

lemma bin_str_inj:
  assumes "length a \<le> MAX_VALUE_LEN" "length b \<le> MAX_VALUE_LEN" "bin_str a = bin_str b"
  shows "a = b"
proof -
  have two: "length (hex_byte x) = 2" for x by (simp add: hex_byte_def)
  have "concat (map hex_byte xs) = concat (map hex_byte ys) \<Longrightarrow> xs = ys" for xs ys
  proof (induction xs arbitrary: ys)
    case Nil
    then show ?case by (cases ys) (simp_all add: hex_byte_def)
  next
    case (Cons x xs)
    show ?case
    proof (cases ys)
      case Nil
      with Cons.prems show ?thesis by (simp add: hex_byte_def)
    next
      case (Cons y zs)
      with Cons.prems have "hex_byte x = hex_byte y" "concat (map hex_byte xs) = concat (map hex_byte zs)"
        using two [of x] two [of y] by (auto simp: append_eq_append_conv)
      then show ?thesis using Cons.IH Cons by (simp add: hex_byte_eq)
    qed
  qed
  with assms show ?thesis by (simp add: bin_str_def)
qed

end
