(* ===== verification/Disk.thy ===== *)
theory Disk
  imports FileIO
begin

text \<open>
  Frame reasoning for operations on named files: \<open>touches P K K'\<close> says that going from \<open>K\<close> to \<open>K'\<close>
  changes nothing but the files named in \<open>P\<close>, on a disk without faults. Every file-system operation
  of the stores is described by the one name it touches and the contents it leaves there.
\<close>

definition touches :: "string set \<Rightarrow> kernel \<Rightarrow> kernel \<Rightarrow> bool" where
  "touches P K K' \<longleftrightarrow> healthy K' \<and> kernel_wf K' \<and>
     (\<forall>q. q \<notin> P \<longrightarrow> dir K' q = dir K q) \<and>
     (\<forall>q i. q \<notin> P \<longrightarrow> dir K q = Some i \<longrightarrow> inodes K' i = inodes K i)"

lemma touches_wf: "touches P K K' \<Longrightarrow> healthy K' \<and> kernel_wf K'"
  by (simp add: touches_def)

lemma touches_dir: "touches P K K' \<Longrightarrow> q \<notin> P \<Longrightarrow> dir K' q = dir K q"
  by (simp add: touches_def)

lemma touches_inodes: "touches P K K' \<Longrightarrow> q \<notin> P \<Longrightarrow> dir K q = Some i \<Longrightarrow> inodes K' i = inodes K i"
  by (auto simp: touches_def)

lemma touches_contents [frame_simps]: "touches P K K' \<Longrightarrow> q \<notin> P \<Longrightarrow> contents K' q = contents K q"
  by (auto simp: touches_def contents_def map_option_case split: option.split)

lemma touches_refl: "healthy K \<Longrightarrow> kernel_wf K \<Longrightarrow> touches P K K"
  by (simp add: touches_def)

lemma touches_trans: "touches P K K' \<Longrightarrow> touches Q K' K'' \<Longrightarrow> touches (P \<union> Q) K K''"
  by (auto simp: touches_def)

lemma touches_trans_same: "touches P K K' \<Longrightarrow> touches P K' K'' \<Longrightarrow> touches P K K''"
  by (auto simp: touches_def)

lemma touches_mono: "touches P K K' \<Longrightarrow> P \<subseteq> Q \<Longrightarrow> touches Q K K'"
  by (auto simp: touches_def)

lemma kernel_wf_inj: "kernel_wf K \<Longrightarrow> dir K p = Some i \<Longrightarrow> dir K q = Some i \<Longrightarrow> p = q"
  unfolding kernel_wf_def inj_on_def by (metis domI)

lemma kernel_wf_alt:
  "kernel_wf K \<longleftrightarrow> (\<forall>p q i. dir K p = Some i \<longrightarrow> dir K q = Some i \<longrightarrow> p = q) \<and>
     (\<forall>p i. dir K p = Some i \<longrightarrow> i < next_ino K)"
proof
  assume wf: "kernel_wf K"
  then have "p = q" if "dir K p = Some i" "dir K q = Some i" for p q i
    using that by (intro kernel_wf_inj [OF wf])
  with wf show "(\<forall>p q i. dir K p = Some i \<longrightarrow> dir K q = Some i \<longrightarrow> p = q) \<and>
     (\<forall>p i. dir K p = Some i \<longrightarrow> i < next_ino K)" by (auto simp: kernel_wf_def)
qed (auto simp: kernel_wf_def inj_on_def)

lemma kernel_wf_fresh: "kernel_wf K \<Longrightarrow> dir K p = Some i \<Longrightarrow> i < next_ino K"
  by (simp add: kernel_wf_def)

section \<open>The operations\<close>

lemma fs_remove_healthy:
  "healthy K \<Longrightarrow> fs_remove p K = K\<lparr>dir := (dir K)(p := None)\<rparr>"
  by (auto simp: fs_remove_def posix_remove_def sys_unlink_def fun_upd_idem)

lemma touches_remove:
  assumes "healthy K" "kernel_wf K"
  shows "touches {p} K (fs_remove p K)" "dir (fs_remove p K) p = None"
    "contents (fs_remove p K) q = (if q = p then None else contents K q)"
proof -
  have "inj_on ((dir K)(p := None)) (dom ((dir K)(p := None)))"
    using assms(2) by (auto simp: kernel_wf_def inj_on_def)
  with assms show "touches {p} K (fs_remove p K)"
    by (auto simp: touches_def fs_remove_healthy kernel_wf_def)
  show "dir (fs_remove p K) p = None" "contents (fs_remove p K) q = (if q = p then None else contents K q)"
    using assms by (simp_all add: fs_remove_healthy contents_def)
qed

lemma touches_append:
  assumes "healthy K" "kernel_wf K" "dir K p = Some i"
  shows "touches {p} K (append_ino i bs K)" "dir (append_ino i bs K) p = Some i"
    "contents (append_ino i bs K) q = (if q = p then Some (inodes K i @ bs) else contents K q)"
proof -
  have other: "j \<noteq> i" if "dir K q = Some j" "q \<noteq> p" for q j
    using kernel_wf_inj [OF assms(2) that(1), of p] assms(3) that(2) by auto
  then show "touches {p} K (append_ino i bs K)" using assms(1,2) by (simp add: touches_def)
  show "dir (append_ino i bs K) p = Some i" using assms(3) by simp
  show "contents (append_ino i bs K) q = (if q = p then Some (inodes K i @ bs) else contents K q)"
    using other [of q] assms(3) by (cases "q = p"; cases "dir K q") (simp_all add: contents_def)
qed

lemma touches_create:
  assumes "healthy K" "kernel_wf K"
  shows "touches {p} K (create_ino p K)"
    "contents (create_ino p K) q = (if q = p \<and> contents K p = None then Some [] else contents K q)"
proof -
  have "inodes (create_ino p K) i = inodes K i" if "dir K q = Some i" for q i
    using kernel_wf_fresh [OF assms(2) that] by (simp add: create_ino_def)
  with assms show "touches {p} K (create_ino p K)" by (auto simp: touches_def)
  show "contents (create_ino p K) q = (if q = p \<and> contents K p = None then Some [] else contents K q)"
    by (rule contents_create [OF assms(2)])
qed

lemma fs_open_write:
  assumes "healthy K" "kernel_wf K"
  obtains f i K' where "fs_open p ModeWrite K = (Some f, K')" "touches {p} K K'"
    "dir K' p = Some i" "inodes K' i = []" "tail_handle f i K'"
proof -
  let ?i = "case dir K p of None \<Rightarrow> next_ino K | Some i \<Rightarrow> i"
  let ?K = "K\<lparr>dir := (dir K)(p \<mapsto> ?i), inodes := (inodes K)(?i := []),
      next_ino := (case dir K p of None \<Rightarrow> Suc (next_ino K) | Some i \<Rightarrow> next_ino K)\<rparr>"
  let ?f = "\<lparr>f_impl = pf_new (open_desc ?i (posix_flags ModeWrite)) ?K, f_crc = 0\<rparr>"
  have upd: "dir K p = Some i \<Longrightarrow> (dir K)(p \<mapsto> i) = dir K" for i by (simp add: fun_upd_idem)
  have other: "dir K q = Some j \<Longrightarrow> q \<noteq> p \<Longrightarrow> j \<noteq> ?i" for q j
    using kernel_wf_inj [OF assms(2), of q j p] kernel_wf_fresh [OF assms(2), of q j]
    by (auto split: option.split)
  have bound: "dir K q = Some j \<Longrightarrow> j < next_ino ?K" for q j
    using kernel_wf_fresh [OF assms(2), of q j] by (auto split: option.split)
  have "kernel_wf ?K"
    unfolding kernel_wf_alt
  proof (intro conjI allI impI)
    fix q r j assume "dir ?K q = Some j" "dir ?K r = Some j"
    then show "q = r"
      using other kernel_wf_inj [OF assms(2)] by (cases "q = p"; cases "r = p") auto
    show "\<And>q j. dir ?K q = Some j \<Longrightarrow> j < next_ino ?K"
      using bound by (auto split: if_splits option.split option.splits)
  qed
  moreover have "healthy ?K" using assms(1) by simp
  ultimately have "touches {p} K ?K" using other by (auto simp: touches_def)
  moreover have "fs_open p ModeWrite K = (Some ?f, ?K)"
    using assms(1) upd
    by (auto simp: fs_open_def posix_open_def sys_open_def posix_flags_def Let_def split: option.split)
  moreover have "tail_handle ?f ?i ?K"
    by (simp add: tail_handle_def pf_new_def pf_is_valid_def open_desc_def posix_flags_def)
  ultimately show thesis by (intro that [of ?f ?K ?i]) simp_all
qed

text \<open>A file written from scratch and closed.\<close>

lemma write_from_scratch:
  assumes "healthy K" "kernel_wf K"
  obtains f K1 n g K' where "fs_open p ModeWrite K = (Some f, K1)" "file_write bs f K1 = (n, g, K')"
    "n = length bs" "touches {p} K K'" "contents K' p = Some bs"
proof -
  obtain f i K1 where f: "fs_open p ModeWrite K = (Some f, K1)" "touches {p} K K1"
      "dir K1 p = Some i" "inodes K1 i = []" "tail_handle f i K1"
    by (rule fs_open_write [OF assms])
  note wf = touches_wf [OF f(2)]
  obtain g where g: "file_write bs f K1 = (length bs, g, append_ino i bs K1)"
    by (rule file_write_tail [OF f(5)]) (use wf in auto)
  note app = touches_append [of K1 p i bs]
  from app(1) wf f(3) f(2) have "touches {p} K (append_ino i bs K1)"
    by (metis touches_trans_same)
  moreover have "contents (append_ino i bs K1) p = Some bs"
    using app(3) wf f(3,4) by simp
  ultimately show thesis using f(1) g by (intro that) auto
qed

text \<open>What \<open>writeFile\<close> wrote, \<open>readFile\<close> reads back.\<close>

theorem write_file_read_file:
  assumes "healthy K" "kernel_wf K"
  shows "fst (write_file p bs K) = length bs \<and>
    fst (read_file_vec p (snd (write_file p bs K))) = bs \<and>
    (\<forall>q. q \<noteq> p \<longrightarrow> contents (snd (write_file p bs K)) q = contents K q)"
proof -
  note rm = touches_remove [OF assms, of p]
  note wf = touches_wf [OF rm(1)]
  obtain f K1 n g K' where w: "fs_open p ModeWrite (fs_remove p K) = (Some f, K1)"
      "file_write bs f K1 = (n, g, K')" "n = length bs" "touches {p} (fs_remove p K) K'"
      "contents K' p = Some bs"
    using write_from_scratch [of "fs_remove p K" p bs] wf by metis
  then have wr: "write_file p bs K = (length bs, K')" by (simp add: write_file_def Let_def)
  from w(5) obtain i where i: "dir K' p = Some i" "inodes K' i = bs" by (auto simp: contents_def)
  obtain h where h: "fs_open p ModeRead K' = (Some h, K')" "file_readable h" "file_pos h = 0"
      "file_data K' h = inodes K' i" by (rule fs_open_read_handle [OF i(1)])
  have "file_size h K' = length bs"
    using h(2,4) i(2) by (auto simp: file_size_def pf_size_def file_readable_def file_data_def
        sys_size_def split: option.splits)
  then have "fst (read_file_vec p K') = bs"
    using h i(2) by (simp add: read_file_vec_def fr.rd_bytes)
  moreover have "\<forall>q. q \<noteq> p \<longrightarrow> contents K' q = contents K q"
    using touches_contents [OF w(4)] touches_contents [OF rm(1)] by simp
  ultimately show ?thesis by (simp add: wr)
qed

theorem write_file_read_file_witness:
  "fst (read_file_vec ''a'' (snd (write_file ''a'' [1, 2, 3] empty_kernel))) = [1, 2, 3]"
  by (rule write_file_read_file [THEN conjunct2, THEN conjunct1]) (rule healthy_empty_kernel kernel_wf_empty)+

lemma fs_rename_healthy:
  assumes "healthy K" "kernel_wf K" "dir K a = Some i" "a \<noteq> b"
  obtains K' where "fs_rename a b K = (True, K')" "touches {a, b} K K'" "dir K' a = None"
    "dir K' b = Some i" "contents K' b = contents K a"
proof -
  let ?K = "K\<lparr>dir := (dir K)(a := None, b \<mapsto> i)\<rparr>"
  have "kernel_wf ?K"
    using assms(2,3) unfolding kernel_wf_alt by (auto split: if_splits)
  with assms show thesis
    by (intro that [of ?K]) (auto simp: fs_rename_def posix_rename_def sys_rename_def touches_def
        contents_def)
qed

lemma fs_open_read_contents:
  assumes "contents K p = Some bs"
  obtains f where "fs_open p ModeRead K = (Some f, K)" "file_readable f" "file_pos f = 0"
    "file_data K f = bs"
proof -
  from assms obtain i where "dir K p = Some i" "inodes K i = bs" by (auto simp: contents_def)
  then show thesis using fs_open_read_handle [of K p i] that by metis
qed

lemma fs_open_read_missing: "contents K p = None \<Longrightarrow> fs_open p ModeRead K = (None, K)"
  by (simp add: fs_open_read contents_def)

end
