(* ===== verification/StoreInvariant.thy ===== *)
theory StoreInvariant
  imports FileStore Disk
begin

text \<open>
  What a \<open>FileStore\<close> means, and its invariant. The abstract store maps a key to the record its index
  entry leads to on the disk; \<open>visible\<close> is what a client can still get, after expiry. \<open>store_ok\<close> says that
  the disk, the index file, the index in memory and the open handles agree.
\<close>

section \<open>Records in a file\<close>

definition record_at :: "bytes \<Rightarrow> nat \<Rightarrow> log_record \<Rightarrow> bool" where
  "record_at bs off r \<longleftrightarrow> take (rec_size r) (drop off bs) = enc_rec r"

definition fetch_record :: "bytes \<Rightarrow> nat \<Rightarrow> log_record" where
  "fetch_record bs off =
     (let h = dec_header (take HEADER_SIZE (drop off bs)); body = drop (off + HEADER_SIZE) bs
      in (h, take (unat (rh_key_len h)) body,
          take (unat (rh_length h)) (drop (unat (rh_key_len h)) body)))"

lemma record_at_suffix: "record_at bs off r \<longleftrightarrow> (\<exists>rest. drop off bs = enc_rec r @ rest)"
  unfolding record_at_def rec_size_def
  by (metis append_eq_conv_conj append_take_drop_id)

lemma record_at_append: "record_at bs off r \<Longrightarrow> record_at (bs @ xs) off r"
proof -
  assume r: "record_at bs off r"
  have "enc_rec r \<noteq> []" by (cases r) (simp add: enc_rec_def enc_record_def enc_header_def)
  with r have "off < length bs"
    unfolding record_at_def by (metis drop_eq_Nil leI take_Nil)
  with r show ?thesis by (auto simp: record_at_suffix)
qed

lemma record_at_here: "record_at (xs @ enc_rec r @ ys) (length xs) r"
  by (simp add: record_at_def rec_size_def)

lemma fetch_record_eq:
  assumes "record_at bs off r" "wf_record r"
  shows "fetch_record bs off = r"
proof -
  obtain h k v where r: "r = (h, k, v)" by (cases r)
  from assms(1) obtain rest where d: "drop off bs = enc_header h @ k @ v @ enc_commit MAGIC_COMMIT @ rest"
    by (auto simp: record_at_suffix r enc_rec_def enc_record_def)
  have "drop (off + HEADER_SIZE) bs = drop HEADER_SIZE (drop off bs)" by (simp add: add.commute)
  also have "\<dots> = k @ v @ enc_commit MAGIC_COMMIT @ rest" unfolding d by (rule hdr.drop_enc)
  finally have b: "drop (off + HEADER_SIZE) bs = k @ v @ enc_commit MAGIC_COMMIT @ rest" .
  have h: "dec_header (take HEADER_SIZE (drop off bs)) = h" unfolding d by (rule hdr.dec_take)
  show ?thesis
    unfolding fetch_record_def Let_def h b using assms(2) by (simp add: r wf_record_def)
qed

section \<open>The abstract store\<close>

type_synonym payload = "bytes \<times> u32 \<times> u32 \<times> u8"

text \<open>Value, timestamp, TTL and priority of a record; the index keeps 24 bits of the TTL.\<close>

definition payload_of :: "log_record \<Rightarrow> payload" where
  "payload_of r = (case r of (h, k, v) \<Rightarrow>
     (v, rh_timestamp h, u24_get (u24_set (rh_ttl h)), rh_priority h))"

definition entry_record :: "kernel \<Rightarrow> string \<Rightarrow> index_value \<Rightarrow> log_record option" where
  "entry_record K p iv = map_option (\<lambda>bs. fetch_record bs (unat (u24_get (iv_offset iv))))
     (contents K (segment_name p (unat (iv_segment iv))))"

definition expired :: "clock \<Rightarrow> u32 \<Rightarrow> payload \<Rightarrow> bool" where
  "expired clk policy_ttl pl = (case pl of (v, ts, ttl, priority) \<Rightarrow>
     let ttl = (if ttl \<noteq> 0 then ttl else policy_ttl)
     in ttl \<noteq> 0 \<and> unat ts + unat ttl \<le> unat (clk_time clk))"

definition stored :: "store \<Rightarrow> bytes \<Rightarrow> payload option" where
  "stored s k = (case map_of (index s) k of None \<Rightarrow> None
     | Some iv \<Rightarrow> map_option payload_of (entry_record (kern s) (base_prefix s) iv))"

definition visible :: "clock \<Rightarrow> store \<Rightarrow> bytes \<Rightarrow> payload option" where
  "visible clk s k = (case stored s k of None \<Rightarrow> None
     | Some pl \<Rightarrow> if expired clk (policy_ttl_secs s) pl then None else Some pl)"

section \<open>The invariant\<close>

text \<open>An index entry leads to a record of its key, in a segment of the store.\<close>

definition entry_ok :: "kernel \<Rightarrow> string \<Rightarrow> nat \<Rightarrow> bytes \<Rightarrow> index_value \<Rightarrow> bool" where
  "entry_ok K p n k iv \<longleftrightarrow> unat (iv_segment iv) < n \<and>
     (case contents K (segment_name p (unat (iv_segment iv))) of None \<Rightarrow> False
      | Some bs \<Rightarrow> (case fetch_record bs (unat (u24_get (iv_offset iv))) of
          (h, k', v) \<Rightarrow> k' = k \<and> wf_record (h, k', v) \<and>
            record_at bs (unat (u24_get (iv_offset iv))) (h, k', v) \<and>
            rh_flags h AND FLAG_DELETE = 0 \<and> iv_timestamp iv = rh_timestamp h \<and>
            iv_ttl iv = u24_set (rh_ttl h) \<and> iv_priority iv = rh_priority h))"

definition replay :: "index_entry list \<Rightarrow> index_map" where
  "replay es = foldl (\<lambda>m (key, seg, off, ts, ttl, priority).
     if seg = INDEX_DELETED then AList.delete key m
     else AList.update key (make_index_value seg off ts ttl priority) m) [] es"

text \<open>The disk below the handles: every entry of the persistent index is good, and the index in memory
  is a part of it (evicted and expired entries are missing). No compaction is under way.\<close>

definition disk_ok :: "kernel \<Rightarrow> string \<Rightarrow> nat \<Rightarrow> index_map \<Rightarrow> bool" where
  "disk_ok K p n m \<longleftrightarrow> healthy K \<and> kernel_wf K \<and> prefix_ok p \<and> distinct_keys m \<and>
     contents K (journal_name p) = None \<and>
     (\<exists>es. contents K (index_name p) = Some (enc_entries es) \<and>
        (\<forall>e \<in> set es. length (fst e) \<le> MAX_KEY_LEN) \<and>
        (\<forall>k iv. map_of (replay es) k = Some iv \<longrightarrow> entry_ok K p n k iv) \<and>
        map_of m \<subseteq>\<^sub>m map_of (replay es))"

definition handle_on :: "fhandle option \<Rightarrow> string \<Rightarrow> kernel \<Rightarrow> bool" where
  "handle_on h p K \<longleftrightarrow> (\<exists>f i. h = Some f \<and> append_handle f i \<and> dir K p = Some i)"

definition store_ok :: "store \<Rightarrow> bool" where
  "store_ok s \<longleftrightarrow> fs_valid s \<and> 2 \<le> unat (segment_count s) \<and> write_buf s = [] \<and>
     disk_ok (kern s) (base_prefix s) (unat (segment_count s)) (index s) \<and>
     current_segment s < unat (segment_count s) \<and>
     handle_on (active_file s) (segment_name (base_prefix s) (current_segment s)) (kern s) \<and>
     contents (kern s) (segment_name (base_prefix s) (current_segment s)) \<noteq> None \<and>
     current_offset s = length (the (contents (kern s) (segment_name (base_prefix s) (current_segment s)))) \<and>
     (\<forall>i. current_segment s < i \<longrightarrow> i < unat (segment_count s) \<longrightarrow>
        contents (kern s) (segment_name (base_prefix s) i) = None) \<and>
     handle_on (index_file s) (index_name (base_prefix s)) (kern s)"

lemma is_ttl_expired_payload:
  "is_ttl_expired clk ts ttl s = expired clk (policy_ttl_secs s) (v, ts, ttl, pr)"
  by (simp add: ttl_expired_iff expired_def)

lemma entry_okE:
  assumes "entry_ok K p n k iv"
  obtains h v bs where "unat (iv_segment iv) < n" "contents K (segment_name p (unat (iv_segment iv))) = Some bs"
    "entry_record K p iv = Some (h, k, v)" "wf_record (h, k, v)"
    "record_at bs (unat (u24_get (iv_offset iv))) (h, k, v)"
    "fetch_record bs (unat (u24_get (iv_offset iv))) = (h, k, v)"
    "rh_flags h AND FLAG_DELETE = 0" "iv_timestamp iv = rh_timestamp h" "iv_ttl iv = u24_set (rh_ttl h)"
    "iv_priority iv = rh_priority h"
    "payload_of (h, k, v) = (v, iv_timestamp iv, u24_get (iv_ttl iv), iv_priority iv)"
  using assms unfolding entry_ok_def
  by (auto simp: entry_record_def payload_of_def split: option.splits prod.splits)

lemma entry_okI:
  assumes "unat (iv_segment iv) < n" "contents K (segment_name p (unat (iv_segment iv))) = Some bs"
    "wf_record (h, k, v)" "record_at bs (unat (u24_get (iv_offset iv))) (h, k, v)"
    "rh_flags h AND FLAG_DELETE = 0" "iv_timestamp iv = rh_timestamp h" "iv_ttl iv = u24_set (rh_ttl h)"
    "iv_priority iv = rh_priority h"
  shows "entry_ok K p n k iv"
    and "entry_record K p iv = Some (h, k, v)"
  using assms fetch_record_eq [OF assms(4,3)]
  by (simp_all add: entry_ok_def entry_record_def)

text \<open>Entries stay good when their segment only grows.\<close>

lemma entry_ok_mono:
  assumes "entry_ok K p n k iv"
    "\<And>i bs. i < n \<Longrightarrow> contents K (segment_name p i) = Some bs \<Longrightarrow>
       \<exists>xs. contents K' (segment_name p i) = Some (bs @ xs)"
  shows "entry_ok K' p n k iv" "entry_record K' p iv = entry_record K p iv"
proof -
  from assms(1) obtain h v bs where e: "unat (iv_segment iv) < n"
      "contents K (segment_name p (unat (iv_segment iv))) = Some bs"
      "entry_record K p iv = Some (h, k, v)" "wf_record (h, k, v)"
      "record_at bs (unat (u24_get (iv_offset iv))) (h, k, v)"
      "rh_flags h AND FLAG_DELETE = 0" "iv_timestamp iv = rh_timestamp h" "iv_ttl iv = u24_set (rh_ttl h)"
      "iv_priority iv = rh_priority h"
    by (rule entry_okE)
  from assms(2) [OF e(1,2)] obtain xs
    where "contents K' (segment_name p (unat (iv_segment iv))) = Some (bs @ xs)" by blast
  from entry_okI [OF e(1) this e(4) record_at_append [OF e(5)] e(6-9)]
  show "entry_ok K' p n k iv" "entry_record K' p iv = entry_record K p iv" using e(3) by simp_all
qed

lemma disk_ok_entry:
  assumes "disk_ok K p n m" "map_of m k = Some iv"
  shows "entry_ok K p n k iv"
  using assms unfolding disk_ok_def map_le_def by (metis domI)

lemma disk_ok_subset:
  assumes "disk_ok K p n m" "distinct_keys m'" "map_of m' \<subseteq>\<^sub>m map_of m"
  shows "disk_ok K p n m'"
  using assms unfolding disk_ok_def by (blast intro: map_le_trans)

lemma map_le_delete: "map_of (AList.delete k m) \<subseteq>\<^sub>m map_of m"
  by (simp add: map_le_def)

lemma map_le_filter: "distinct_keys m \<Longrightarrow> set m' \<subseteq> set m \<Longrightarrow> distinct_keys m' \<Longrightarrow> map_of m' \<subseteq>\<^sub>m map_of m"
  by (auto simp: map_le_def dom_def)

lemma disk_ok_key_len:
  assumes "disk_ok K p n m" "map_of m k = Some iv"
  shows "0 < length k" "length k \<le> MAX_KEY_LEN"
  using entry_okE [OF disk_ok_entry [OF assms]] by (auto simp: wf_record_def)

lemma replay_append: "replay (es @ [(key, seg, off, ts, ttl, priority)]) =
    (if seg = INDEX_DELETED then AList.delete key (replay es)
     else AList.update key (make_index_value seg off ts ttl priority) (replay es))"
  by (simp add: replay_def)

lemma replay_distinct: "distinct_keys (replay es)"
  by (induction es rule: rev_induct) (auto simp: replay_def simp del: map_map)

lemma foldl_apply_entry:
  "foldl (\<lambda>s e. apply_entry e s) (s\<lparr>index := []\<rparr>) es = s\<lparr>index := replay es\<rparr>"
proof (induction es rule: rev_induct)
  case (snoc e es)
  then show ?case
    by (cases e) (simp add: replay_def apply_entry_def index_remove_def index_insert_def)
qed (simp add: replay_def)

text \<open>The stored payload of an indexed key.\<close>

lemma stored_entry:
  assumes "disk_ok (kern s) (base_prefix s) n (index s)" "map_of (index s) k = Some iv"
  obtains v where "stored s k = Some (v, iv_timestamp iv, u24_get (iv_ttl iv), iv_priority iv)"
proof -
  obtain h v bs where "entry_record (kern s) (base_prefix s) iv = Some (h, k, v)"
    "payload_of (h, k, v) = (v, iv_timestamp iv, u24_get (iv_ttl iv), iv_priority iv)"
    by (rule entry_okE [OF disk_ok_entry [OF assms]])
  with assms(2) show thesis by (intro that [of v]) (simp add: stored_def)
qed

lemma stored_missing: "map_of (index s) k = None \<Longrightarrow> stored s k = None"
  by (simp add: stored_def)

section \<open>Reading\<close>

lemma store_update_same [simp]: "s\<lparr>kern := kern s\<rparr> = s" "s\<lparr>index := index s\<rparr> = s"
  by simp_all


text \<open>Header and value of a record, read through a handle as \<open>get\<close> does.\<close>

lemma read_record_header:
  assumes "file_readable f" "record_at (file_data K f) off (h, k, v)" "wf_record (h, k, v)"
  defines "f1 \<equiv> snd (file_seek off SeekModeSet f K)"
  shows "fst (file_read HEADER_SIZE f1 K) = enc_header h" "file_readable (snd (file_read HEADER_SIZE f1 K))"
    "file_data K (snd (file_read HEADER_SIZE f1 K)) = file_data K f"
    "file_pos (snd (file_read HEADER_SIZE f1 K)) = off + HEADER_SIZE"
    "drop (off + HEADER_SIZE) (file_data K f) = k @ v @ drop (off + HEADER_SIZE + length k + length v) (file_data K f)"
proof -
  from assms(2) obtain rest where d: "drop off (file_data K f) = enc_header h @ k @ v @ enc_commit MAGIC_COMMIT @ rest"
    by (auto simp: record_at_suffix enc_rec_def enc_record_def)
  have f1: "file_readable f1" "file_pos f1 = off" "file_data K f1 = file_data K f"
    using assms(1) by (simp_all add: f1_def fr.skip_readable fr.skip_pos fr.skip_src)
  have "fst (file_read HEADER_SIZE f1 K) = take HEADER_SIZE (drop off (file_data K f))"
    using f1 by (simp add: fr.rd_bytes)
  also have "\<dots> = enc_header h" unfolding d by (rule hdr.take_enc)
  finally show hb: "fst (file_read HEADER_SIZE f1 K) = enc_header h" .
  show "file_readable (snd (file_read HEADER_SIZE f1 K))"
    "file_data K (snd (file_read HEADER_SIZE f1 K)) = file_data K f"
    "file_pos (snd (file_read HEADER_SIZE f1 K)) = off + HEADER_SIZE"
    using f1 hb by (simp_all add: fr.rd_readable fr.rd_src fr.rd_pos hdr.enc_length)
  have "drop (off + HEADER_SIZE) (file_data K f) = drop HEADER_SIZE (drop off (file_data K f))"
    by (simp add: add.commute)
  also have "\<dots> = k @ v @ enc_commit MAGIC_COMMIT @ rest" unfolding d by (rule hdr.drop_enc)
  finally have b: "drop (off + HEADER_SIZE) (file_data K f) = k @ v @ enc_commit MAGIC_COMMIT @ rest" .
  have "drop (off + HEADER_SIZE + length k + length v) (file_data K f) =
      drop (length k + length v) (drop (off + HEADER_SIZE) (file_data K f))"
    by (simp add: add_ac)
  also have "\<dots> = enc_commit MAGIC_COMMIT @ rest" unfolding b by simp
  finally show "drop (off + HEADER_SIZE) (file_data K f) = k @ v @ drop (off + HEADER_SIZE + length k + length v) (file_data K f)"
    using b by simp
qed

text \<open>The reads that find a record from its segment and offset: the segment opens, the header is at the
  offset, and the value is behind header and key.\<close>

lemma record_reads:
  assumes "contents K p = Some bs" "record_at bs off (h, k, v)" "wf_record (h, k, v)"
  obtains f where "fs_open p ModeRead K = (Some f, K)"
    "fst (file_read HEADER_SIZE (snd (file_seek off SeekModeSet f K)) K) = enc_header h"
    "\<And>m. m \<le> length v \<Longrightarrow> fst (file_read m (snd (file_seek (off + HEADER_SIZE + length k) SeekModeSet
       (snd (file_read HEADER_SIZE (snd (file_seek off SeekModeSet f K)) K)) K)) K) = take m v"
proof -
  obtain f where f: "fs_open p ModeRead K = (Some f, K)" "file_readable f" "file_pos f = 0" "file_data K f = bs"
    by (rule fs_open_read_contents [OF assms(1)])
  let ?f2 = "snd (file_read HEADER_SIZE (snd (file_seek off SeekModeSet f K)) K)"
  note hd = read_record_header [OF f(2), of K off h k v, unfolded f(4), OF assms(2,3)]
  let ?f3 = "snd (file_seek (off + HEADER_SIZE + length k) SeekModeSet ?f2 K)"
  have rd: "fst (file_read m ?f3 K) = take m v" if "m \<le> length v" for m
  proof -
    have "fst (file_read m ?f3 K) = take m (drop (off + HEADER_SIZE + length k) bs)"
      using hd(2,3) by (simp add: fr.rd_skip)
    also have "drop (off + HEADER_SIZE + length k) bs = drop (length k) (drop (off + HEADER_SIZE) bs)"
      by (simp add: add.commute)
    also have "\<dots> = v @ drop (off + HEADER_SIZE + length k + length v) bs"
      by (subst hd(5)) simp
    finally show ?thesis using that by simp
  qed
  show thesis using f(1) hd(1) rd by (intro that) simp_all
qed

text \<open>\<open>get\<close> returns the value of the record its index entry leads to, whatever the key in the record is.\<close>

lemma get_record:
  assumes "map_of (index s) k = Some iv" "length k \<le> MAX_KEY_LEN" "write_buf s = []" "fs_valid s"
    "\<not> is_ttl_expired clk (iv_timestamp iv) (u24_get (iv_ttl iv)) s"
    "contents (kern s) (segment_name (base_prefix s) (unat (iv_segment iv))) = Some bs"
    "record_at bs (unat (u24_get (iv_offset iv))) (h, k', v)" "wf_record (h, k', v)"
  shows "store_get clk k has_out out_size s =
    (Some (if has_out then take (unat out_size) v else [], of_nat (length v)), s)"
proof -
  obtain f where f:
      "fs_open (segment_name (base_prefix s) (unat (iv_segment iv))) ModeRead (kern s) = (Some f, kern s)"
    and hd: "fst (file_read HEADER_SIZE (snd (file_seek (unat (u24_get (iv_offset iv))) SeekModeSet f (kern s)))
        (kern s)) = enc_header h"
    and rd: "\<And>m. m \<le> length v \<Longrightarrow> fst (file_read m (snd (file_seek (unat (u24_get (iv_offset iv)) + HEADER_SIZE +
        length k') SeekModeSet (snd (file_read HEADER_SIZE (snd (file_seek (unat (u24_get (iv_offset iv)))
        SeekModeSet f (kern s))) (kern s))) (kern s))) (kern s)) = take m v"
    by (rule record_reads [OF assms(6-8)]) blast
  have hdr: "dec_header (enc_header h) = h" using hdr.dec_enc [of h "[]"] by simp
  have wf: "rh_magic h = MAGIC_RECORD" "unat (rh_key_len h) = length k'" "unat (rh_length h) = length v"
      "length k' \<le> MAX_KEY_LEN" "length v \<le> MAX_VALUE_LEN"
    using assms(8) by (simp_all add: wf_record_def)
  have len: "rh_length h = of_nat (length v)" using wf(3) by (metis of_nat_unat ucast_id)
  have mn: "take (min (length v) (unat out_size)) v = take (unat out_size) v"
    by (metis min.commute take_all_iff take_take nat_le_linear)
  have fl: "snd (flush_buffer s) = s" using assms(3) by (simp add: flush_buffer_def)
  have key: "\<not> length k > MAX_KEY_LEN" "\<not> unat (rh_key_len h) > MAX_KEY_LEN"
      "\<not> unat (rh_length h) > MAX_VALUE_LEN"
    using wf assms(2) by simp_all
  show ?thesis
    unfolding store_get_def Let_def fl index_find_def assms(1) option.case
    using assms(4,5) key(1)
    by (simp add: f case_prod_unfold hd hdr.enc_length hdr wf(1) key(2,3) wf(2,3) rd mn)
      (simp add: len wf(4,5) not_less)
qed

lemma get_live:
  assumes "entry_ok (kern s) (base_prefix s) n k iv" "map_of (index s) k = Some iv"
    "write_buf s = []" "fs_valid s"
    "\<not> is_ttl_expired clk (iv_timestamp iv) (u24_get (iv_ttl iv)) s"
    "entry_record (kern s) (base_prefix s) iv = Some (h', k', v')"
  shows "store_get clk k has_out out_size s =
    (Some (if has_out then take (unat out_size) v' else [], of_nat (length v')), s)"
proof -
  obtain h v bs where e: "contents (kern s) (segment_name (base_prefix s) (unat (iv_segment iv))) = Some bs"
      "entry_record (kern s) (base_prefix s) iv = Some (h, k, v)" "wf_record (h, k, v)"
      "record_at bs (unat (u24_get (iv_offset iv))) (h, k, v)"
    by (rule entry_okE [OF assms(1)])
  have "length k \<le> MAX_KEY_LEN" using e(3) by (simp add: wf_record_def)
  from get_record [OF assms(2) this assms(3-5) e(1,4,3)] e(2) assms(6) show ?thesis by simp
qed

text \<open>The iterator reads the same record.\<close>

lemma load_value_live:
  assumes "entry_ok (kern s) (base_prefix s) n k iv" "it_iv it = Some iv"
    "entry_record (kern s) (base_prefix s) iv = Some (h', k', v')"
  shows "load_value junk it s = it\<lparr>it_value_loaded := True, it_current := (it_current it)\<lparr>e_value := v'\<rparr>\<rparr>"
proof -
  obtain h v bs where e0: "contents (kern s) (segment_name (base_prefix s) (unat (iv_segment iv))) = Some bs"
      "record_at bs (unat (u24_get (iv_offset iv))) (h, k, v)"
    and e: "entry_record (kern s) (base_prefix s) iv = Some (h, k, v)" "wf_record (h, k, v)"
    by (rule entry_okE [OF assms(1)])
  obtain f where f:
      "fs_open (segment_name (base_prefix s) (unat (iv_segment iv))) ModeRead (kern s) = (Some f, kern s)"
    and hd: "fst (file_read HEADER_SIZE (snd (file_seek (unat (u24_get (iv_offset iv))) SeekModeSet f (kern s)))
        (kern s)) = enc_header h"
    and rd: "\<And>m. m \<le> length v \<Longrightarrow> fst (file_read m (snd (file_seek (unat (u24_get (iv_offset iv)) + HEADER_SIZE +
        length k) SeekModeSet (snd (file_read HEADER_SIZE (snd (file_seek (unat (u24_get (iv_offset iv)))
        SeekModeSet f (kern s))) (kern s))) (kern s))) (kern s)) = take m v"
    by (rule record_reads [OF e0 e(2)]) blast
  have wf: "unat (rh_key_len h) = length k" "unat (rh_length h) = length v"
    using e(2) by (simp_all add: wf_record_def)
  have hdr: "dec_header (enc_header h) = h" using hdr.dec_enc [of h "[]"] by simp
  have "v' = v" using assms(3) e(1) by simp
  then show ?thesis
    unfolding load_value_def Let_def assms(2) option.case
    by (simp add: f case_prod_unfold hd hdr.enc_length hdr wf rd)
qed

lemma store_ok_index_subset:
  "store_ok s \<Longrightarrow> distinct_keys m \<Longrightarrow> map_of m \<subseteq>\<^sub>m map_of (index s) \<Longrightarrow> store_ok (s\<lparr>index := m\<rparr>)"
  unfolding store_ok_def by (auto intro: disk_ok_subset)

lemma store_ok_disk: "store_ok s \<Longrightarrow>
    disk_ok (kern s) (base_prefix s) (unat (segment_count s)) (index s)"
  by (simp add: store_ok_def)

lemma store_ok_distinct: "store_ok s \<Longrightarrow> distinct_keys (index s)"
  by (simp add: store_ok_def disk_ok_def)

lemma store_ok_remove: "store_ok s \<Longrightarrow> store_ok (index_remove k s)"
  unfolding index_remove_def
  by (intro store_ok_index_subset map_le_delete) (simp_all add: store_ok_distinct)

lemma flush_empty [simp]: "write_buf s = [] \<Longrightarrow> flush_buffer s = (True, s)"
  by (simp add: flush_buffer_def)

lemma stored_index_remove: "stored (index_remove k s) k' = (if k' = k then None else stored s k')"
  by (simp add: stored_def index_remove_def split: option.split)

lemma get_stored:
  assumes "fs_valid s" "write_buf s = []" "length k \<le> MAX_KEY_LEN"
    "\<And>iv. map_of (index s) k = Some iv \<Longrightarrow> entry_ok (kern s) (base_prefix s) n k iv"
  shows "store_get clk k has_out out_size s =
    (case stored s k of
       None \<Rightarrow> (None, s)
     | Some (v, ts, ttl, pr) \<Rightarrow>
         if expired clk (policy_ttl_secs s) (v, ts, ttl, pr) then (None, index_remove k s)
         else (Some (if has_out then take (unat out_size) v else [], of_nat (length v)), s))"
proof (cases "map_of (index s) k")
  case None
  with assms show ?thesis by (simp add: store_get_def index_find_def stored_missing)
next
  case (Some iv)
  obtain h v bs where e: "entry_record (kern s) (base_prefix s) iv = Some (h, k, v)"
      "payload_of (h, k, v) = (v, iv_timestamp iv, u24_get (iv_ttl iv), iv_priority iv)"
    by (rule entry_okE [OF assms(4) [OF Some]])
  then have st: "stored s k = Some (v, iv_timestamp iv, u24_get (iv_ttl iv), iv_priority iv)"
    using Some by (simp add: stored_def)
  show ?thesis
  proof (cases "is_ttl_expired clk (iv_timestamp iv) (u24_get (iv_ttl iv)) s")
    case True
    with assms(1-3) Some st show ?thesis
      by (simp add: store_get_def index_find_def is_ttl_expired_payload [of _ _ _ _ v "iv_priority iv"])
  next
    case False
    with get_live [OF assms(4) [OF Some] Some assms(2,1) False e(1)] st show ?thesis
      by (simp add: is_ttl_expired_payload [of _ _ _ _ v "iv_priority iv"])
  qed
qed

lemma store_get_cases:
  assumes "store_ok s" "length k \<le> MAX_KEY_LEN"
  shows "store_get clk k has_out out_size s =
    (case stored s k of
       None \<Rightarrow> (None, s)
     | Some (v, ts, ttl, pr) \<Rightarrow>
         if expired clk (policy_ttl_secs s) (v, ts, ttl, pr) then (None, index_remove k s)
         else (Some (if has_out then take (unat out_size) v else [], of_nat (length v)), s))"
  using assms disk_ok_entry [OF store_ok_disk [OF assms(1)]]
  by (intro get_stored) (simp_all add: store_ok_def)

lemma visible_index_remove_expired:
  assumes "visible clk s k = None"
  shows "visible clk (index_remove k s) = visible clk s"
proof
  fix k'
  have "policy_ttl_secs (index_remove k s) = policy_ttl_secs s" by (simp add: index_remove_def)
  with assms show "visible clk (index_remove k s) k' = visible clk s k'"
    by (cases "k' = k") (simp_all add: visible_def stored_index_remove split: option.split)
qed

text \<open>on a store that satisfies the invariant, \<open>get\<close> returns the visible value of the key (cut to the
  buffer), or fails when the key is absent or expired; it keeps the invariant and changes nothing
  that is visible.\<close>

lemma store_get_ok:
  assumes "store_ok s" "length k \<le> MAX_KEY_LEN"
  shows "fst (store_get clk k True out_size s) =
      (case visible clk s k of None \<Rightarrow> None
       | Some (v, ts, ttl, pr) \<Rightarrow> Some (take (unat out_size) v, of_nat (length v))) \<and>
    store_ok (snd (store_get clk k True out_size s)) \<and>
    visible clk (snd (store_get clk k True out_size s)) = visible clk s \<and>
    snd (store_get clk k True out_size s) \<in> {s, index_remove k s}"
proof (cases "stored s k")
  case None
  with assms show ?thesis by (simp add: store_get_cases visible_def)
next
  case (Some pl)
  obtain v ts ttl pr where pl: "pl = (v, ts, ttl, pr)" by (cases pl)
  show ?thesis
  proof (cases "expired clk (policy_ttl_secs s) pl")
    case True
    then have "visible clk s k = None" using Some by (simp add: visible_def)
    with True Some assms pl show ?thesis
      by (simp add: store_get_cases store_ok_remove visible_index_remove_expired)
  next
    case False
    with Some assms pl show ?thesis by (simp add: store_get_cases visible_def)
  qed
qed

text \<open>\<open>exists\<close> answers whether the key is visible.\<close>

lemma store_exists_ok:
  assumes "store_ok s" "length k \<le> MAX_KEY_LEN"
  shows "fst (store_exists clk k s) = (visible clk s k \<noteq> None) \<and>
    store_ok (snd (store_exists clk k s)) \<and> visible clk (snd (store_exists clk k s)) = visible clk s \<and>
    snd (store_exists clk k s) \<in> {s, index_remove k s}"
proof (cases "map_of (index s) k")
  case None
  with assms show ?thesis
    by (simp add: store_exists_def index_find_def stored_missing visible_def store_ok_def)
next
  case (Some iv)
  obtain v where st: "stored s k = Some (v, iv_timestamp iv, u24_get (iv_ttl iv), iv_priority iv)"
    by (rule stored_entry [OF store_ok_disk [OF assms(1)] Some])
  have valid: "fs_valid s" using assms(1) by (simp add: store_ok_def)
  show ?thesis
  proof (cases "is_ttl_expired clk (iv_timestamp iv) (u24_get (iv_ttl iv)) s")
    case True
    then have "visible clk s k = None"
      using st by (simp add: visible_def is_ttl_expired_payload [of _ _ _ _ v "iv_priority iv"])
    with True Some assms valid show ?thesis
      by (simp add: store_exists_def index_find_def store_ok_remove visible_index_remove_expired)
  next
    case False
    then have "visible clk s k \<noteq> None"
      using st by (simp add: visible_def is_ttl_expired_payload [of _ _ _ _ v "iv_priority iv"])
    with False Some assms valid show ?thesis by (simp add: store_exists_def index_find_def)
  qed
qed

end
