(* ===== verification/WritePath.thy ===== *)
theory WritePath
  imports StoreInvariant
begin

text \<open>
  \<open>put\<close> and \<open>remove\<close> up to the point where they may compact: the record reaches the end of the active
  segment, the entry the end of the index file, and the invariant holds again.
\<close>

section \<open>Names\<close>

lemma store_names_distinct [simp]:
  assumes "prefix_ok p" "i < 256"
  shows "segment_name p i \<noteq> index_name p" "segment_name p i \<noteq> journal_name p"
    "segment_name p i \<noteq> tmp_name p" "index_name p \<noteq> segment_name p i"
    "journal_name p \<noteq> segment_name p i" "tmp_name p \<noteq> segment_name p i"
  using assms by (auto simp: names_uncut)

lemma other_names_distinct [simp]:
  assumes "prefix_ok p"
  shows "index_name p \<noteq> journal_name p" "index_name p \<noteq> tmp_name p" "journal_name p \<noteq> tmp_name p"
    "journal_name p \<noteq> index_name p" "tmp_name p \<noteq> index_name p" "tmp_name p \<noteq> journal_name p"
  using assms by (auto simp: names_uncut)

lemma segment_name_inj:
  "prefix_ok p \<Longrightarrow> i < 256 \<Longrightarrow> j < 256 \<Longrightarrow> segment_name p i = segment_name p j \<longleftrightarrow> i = j"
  using show_u_inj [of i j] by (auto simp: names_uncut)

lemma segment_count_less: "i < unat (segment_count s) \<Longrightarrow> i < 256"
  using unat_u8_less [of "segment_count s"] by linarith

section \<open>Growing files\<close>

lemma disk_ok_prefix: "disk_ok K p n m \<Longrightarrow> prefix_ok p"
  by (simp add: disk_ok_def)

lemma disk_ok_wf: "disk_ok K p n m \<Longrightarrow> healthy K \<and> kernel_wf K"
  by (simp add: disk_ok_def)

text \<open>Appending to a segment keeps every entry.\<close>

lemma disk_ok_grow:
  assumes "disk_ok K p n m" "n \<le> 256" "c < n" "dir K (segment_name p c) = Some i"
  shows "disk_ok (append_ino i xs K) p n m"
    "entry_ok K p n k iv \<Longrightarrow> entry_ok (append_ino i xs K) p n k iv"
    "entry_ok K p n k iv \<Longrightarrow> entry_record (append_ino i xs K) p iv = entry_record K p iv"
proof -
  note wf = disk_ok_wf [OF assms(1)] and p = disk_ok_prefix [OF assms(1)]
  note app = touches_append [OF conjunct1 [OF wf] conjunct2 [OF wf] assms(4), of xs]
  have grow: "\<exists>ys. contents (append_ino i xs K) (segment_name p j) = Some (bs @ ys)"
    if "j < n" "contents K (segment_name p j) = Some bs" for j bs
  proof (cases "segment_name p j = segment_name p c")
    case True
    with that assms(4) show ?thesis by (simp add: app(3)) (simp add: contents_def)
  next
    case False
    with that show ?thesis by (simp add: app(3))
  qed
  show e: "entry_ok (append_ino i xs K) p n k iv" "entry_record (append_ino i xs K) p iv = entry_record K p iv"
    if "entry_ok K p n k iv" for k iv
    using entry_ok_mono [OF that grow] by blast+
  have "contents (append_ino i xs K) (index_name p) = contents K (index_name p)"
    "contents (append_ino i xs K) (journal_name p) = contents K (journal_name p)"
    using p assms(2,3) by (simp_all add: app(3))
  then show "disk_ok (append_ino i xs K) p n m"
    using assms(1) e(1) unfolding disk_ok_def by (metis append_ino_simps(4,5))
qed

text \<open>Appending an entry to the index file.\<close>

lemma disk_ok_append_index:
  fixes seg off ts ttl :: u32 and pr :: u8
  assumes "disk_ok K p n m" "n \<le> 256" "dir K (index_name p) = Some i" "length key \<le> MAX_KEY_LEN"
  defines "K' \<equiv> append_ino i (enc_entry (key, seg, off, ts, ttl, pr)) K"
  shows "entry_ok K p n k iv \<Longrightarrow> entry_ok K' p n k iv"
    "entry_ok K p n k iv \<Longrightarrow> entry_record K' p iv = entry_record K p iv"
    "seg = INDEX_DELETED \<Longrightarrow> distinct_keys m' \<Longrightarrow> map_of m' \<subseteq>\<^sub>m (map_of m)(key := None) \<Longrightarrow>
     disk_ok K' p n m'"
    "seg \<noteq> INDEX_DELETED \<Longrightarrow> distinct_keys m' \<Longrightarrow>
     map_of m' \<subseteq>\<^sub>m (map_of m)(key \<mapsto> make_index_value seg off ts ttl pr) \<Longrightarrow>
     entry_ok K p n key (make_index_value seg off ts ttl pr) \<Longrightarrow> disk_ok K' p n m'"
proof -
  note wf = disk_ok_wf [OF assms(1)] and p = disk_ok_prefix [OF assms(1)]
  let ?e = "(key, seg, off, ts, ttl, pr)"
  note app = touches_append [OF conjunct1 [OF wf] conjunct2 [OF wf] assms(3), of "enc_entry ?e",
      folded K'_def]
  have grow: "\<exists>ys. contents K' (segment_name p j) = Some (bs @ ys)"
    if "j < n" "contents K (segment_name p j) = Some bs" for j bs
    using that p assms(2) by (auto simp: app(3))
  show e: "entry_ok K' p n k iv" "entry_record K' p iv = entry_record K p iv"
    if "entry_ok K p n k iv" for k iv
    using entry_ok_mono [OF that grow] by blast+
  from assms(1) obtain es where es: "contents K (index_name p) = Some (enc_entries es)"
      "\<forall>e \<in> set es. length (fst e) \<le> MAX_KEY_LEN"
      "\<forall>k iv. map_of (replay es) k = Some iv \<longrightarrow> entry_ok K p n k iv"
      "map_of m \<subseteq>\<^sub>m map_of (replay es)"
    by (auto simp: disk_ok_def)
  have c: "contents K' (index_name p) = Some (enc_entries (es @ [?e]))"
    using es(1) assms(3) by (simp add: app(3)) (simp add: contents_def)
  have keys: "\<forall>e \<in> set (es @ [?e]). length (fst e) \<le> MAX_KEY_LEN" using es(2) assms(4) by simp
  have hw: "healthy K'" "kernel_wf K'" using wf by (simp_all add: K'_def)
  have jn: "contents K' (journal_name p) = None" using assms(1) p by (simp add: app(3) disk_ok_def)
  show "disk_ok K' p n m'" if "seg = INDEX_DELETED" "distinct_keys m'"
      "map_of m' \<subseteq>\<^sub>m (map_of m)(key := None)"
    unfolding disk_ok_def
  proof (intro conjI exI [of _ "es @ [?e]"])
    show "\<forall>k iv. map_of (replay (es @ [?e])) k = Some iv \<longrightarrow> entry_ok K' p n k iv"
      using es(3) e(1) that(1) by (auto simp: replay_append split: if_splits)
    show "map_of m' \<subseteq>\<^sub>m map_of (replay (es @ [?e]))"
      using that(1,3) es(4) by (auto simp: replay_append map_le_def split: if_splits) fastforce
  qed (use hw p that c keys jn in auto)
  show "disk_ok K' p n m'" if "seg \<noteq> INDEX_DELETED" "distinct_keys m'"
      "map_of m' \<subseteq>\<^sub>m (map_of m)(key \<mapsto> make_index_value seg off ts ttl pr)"
      "entry_ok K p n key (make_index_value seg off ts ttl pr)"
    unfolding disk_ok_def
  proof (intro conjI exI [of _ "es @ [?e]"])
    show "\<forall>k iv. map_of (replay (es @ [?e])) k = Some iv \<longrightarrow> entry_ok K' p n k iv"
      using es(3) e(1) that(1,4) by (auto simp: replay_append split: if_splits)
    show "map_of m' \<subseteq>\<^sub>m map_of (replay (es @ [?e]))"
      using that(1,3) es(4) by (auto simp: replay_append map_le_def split: if_splits) fastforce
  qed (use hw p that c keys jn in auto)
qed

section \<open>Writing a record\<close>

lemma store_ok_active:
  assumes "store_ok s"
  obtains f i where "active_file s = Some f" "append_handle f i"
    "dir (kern s) (segment_name (base_prefix s) (current_segment s)) = Some i"
    "current_offset s = length (inodes (kern s) i)" "healthy (kern s)" "kernel_wf (kern s)"
proof -
  from assms obtain f i where "active_file s = Some f" "append_handle f i"
    "dir (kern s) (segment_name (base_prefix s) (current_segment s)) = Some i"
    by (auto simp: store_ok_def handle_on_def)
  moreover have "healthy (kern s)" "kernel_wf (kern s)" using assms by (simp_all add: store_ok_def disk_ok_def)
  ultimately show thesis using assms by (intro that [of f i]) (simp_all add: store_ok_def contents_def)
qed

lemma append_record_ok:
  assumes "store_ok s" "concat chunks = xs"
  obtains f i where "dir (kern s) (segment_name (base_prefix s) (current_segment s)) = Some i"
    "append_handle f i" "current_offset s = length (inodes (kern s) i)"
    "flush_buffer (append_all chunks s) =
       (True, s\<lparr>active_file := Some f, kern := append_ino i xs (kern s)\<rparr>)"
proof -
  obtain f i where f: "active_file s = Some f" "append_handle f i"
    "dir (kern s) (segment_name (base_prefix s) (current_segment s)) = Some i"
    "current_offset s = length (inodes (kern s) i)" "healthy (kern s)" "kernel_wf (kern s)"
    by (rule store_ok_active [OF assms(1)])
  have "write_buf s = []" using assms(1) by (simp add: store_ok_def)
  from sound.buffered_writes_append [OF f(1,2,5) this, of chunks] assms(2) f that show thesis by auto
qed

lemma persist_entry_ok:
  assumes "handle_on (index_file s) (index_name (base_prefix s)) (kern s)" "healthy (kern s)"
  obtains g j where "dir (kern s) (index_name (base_prefix s)) = Some j" "append_handle g j"
    "persist_index_entry key seg off ts ttl pr s =
       (True, s\<lparr>index_file := Some g, kern := append_ino j (enc_entry (key, seg, off, ts, ttl, pr)) (kern s)\<rparr>)"
proof -
  from assms(1) obtain f j where f: "index_file s = Some f" "append_handle f j"
      "dir (kern s) (index_name (base_prefix s)) = Some j"
    by (auto simp: handle_on_def)
  obtain g where "file_write_seq (index_entry_writes key seg off ts ttl pr) f (kern s) =
      (g, append_ino j (concat (index_entry_writes key seg off ts ttl pr)) (kern s))" "append_handle g j"
    by (rule file_write_seq_tail [OF append_handle_tail [OF f(2)] assms(2)]) (use f(2) in blast)
  with f show thesis by (intro that [of j g]) (simp_all add: persist_index_entry_def enc_entry_def)
qed

lemma stored_eqI:
  assumes "map_of (index s') k = map_of (index s) k" "base_prefix s' = base_prefix s"
    "\<And>iv. map_of (index s) k = Some iv \<Longrightarrow>
       entry_record (kern s') (base_prefix s) iv = entry_record (kern s) (base_prefix s) iv"
  shows "stored s' k = stored s k"
  using assms by (simp add: stored_def split: option.split)

text \<open>The memory state after a commit: the index holds the new entry and a part of the old ones.\<close>

lemma commit_put_index:
  assumes "distinct_keys (index s)"
  obtains m d where
    "commit_put key len off ttl ts pr s =
       (let s' = snd (persist_index_entry key (of_nat (current_segment s)) (of_nat off) ts ttl pr
                 (s\<lparr>index := m, dead_since_compact := d\<rparr>))
        in s'\<lparr>current_offset := current_offset s' + HEADER_SIZE + length key + len + COMMIT_SIZE\<rparr>)"
    "distinct_keys m"
    "map_of m \<subseteq>\<^sub>m (map_of (index s))(key \<mapsto> make_index_value (of_nat (current_segment s)) (of_nat off) ts ttl pr)"
    "policy_max_recs s = 0 \<Longrightarrow> map_of m =
       (map_of (index s))(key \<mapsto> make_index_value (of_nat (current_segment s)) (of_nat off) ts ttl pr)"
    "policy_max_recs s \<noteq> 0 \<Longrightarrow> length m \<le> unat (policy_max_recs s)"
    "length m \<le> Suc (length (index s))"
proof -
  define s1 where "s1 = (if index_find key s \<noteq> None
      then s\<lparr>dead_since_compact := dead_since_compact s + 1\<rparr> else s)"
  define s2 where "s2 = index_insert key (of_nat (current_segment s1)) (of_nat off) ts ttl pr s1"
  define s3 where "s3 = (if policy_max_recs s2 > 0 \<and> length (index s2) > unat (policy_max_recs s2)
      then snd (prune_index_to_max_recs s2) else s2)"
  have s1: "s1 = s\<lparr>dead_since_compact := dead_since_compact s1\<rparr>" by (simp add: s1_def)
  then have f1: "current_segment s1 = current_segment s" "index s1 = index s"
      "policy_max_recs s1 = policy_max_recs s"
    by (simp_all add: s1_def)
  let ?miv = "make_index_value (of_nat (current_segment s)) (of_nat off) ts ttl pr"
  have s2: "s2 = s1\<lparr>index := AList.update key ?miv (index s)\<rparr>"
    by (simp add: s2_def index_insert_def f1)
  have d2: "distinct_keys (index s2)" using assms by (simp add: s2)
  have m2: "map_of (index s2) = (map_of (index s))(key \<mapsto> ?miv)" by (simp add: s2)
  have s3: "s3 = s\<lparr>index := index s3, dead_since_compact := dead_since_compact s3\<rparr>"
  proof -
    have "s2 = s\<lparr>index := index s2, dead_since_compact := dead_since_compact s2\<rparr>"
      by (simp add: s2_def s1_def index_insert_def)
    moreover obtain m d where "snd (prune_index_to_max_recs s2) = s2\<lparr>index := m, dead_since_compact := d\<rparr>"
      using prune_shape by blast
    ultimately show ?thesis unfolding s3_def by (cases s2) auto
  qed
  have d3: "distinct_keys (index s3)" using d2 by (simp add: s3_def prune_distinct)
  have le: "map_of (index s3) \<subseteq>\<^sub>m map_of (index s2)"
    using d2 d3 prune_index_subset [of s2] by (auto simp: s3_def intro: map_le_filter)
  have pm: "policy_max_recs s2 = policy_max_recs s" by (simp add: s2 f1)
  have len3: "length (index s3) \<le> unat (policy_max_recs s)" if "policy_max_recs s \<noteq> 0"
    using prune_length [OF d2] that by (auto simp: s3_def pm word_gt_0 not_less)
  have same: "s3 = s2" if "policy_max_recs s = 0" using that pm by (simp add: s3_def)
  have len2: "length (index s2) \<le> Suc (length (index s))"
    by (cases "map_of (index s) key") (simp_all add: s2 length_update_new length_update_old)
  have len: "length (index s3) \<le> Suc (length (index s))"
  proof (cases "s3 = s2")
    case False
    then have "policy_max_recs s2 > 0 \<and> length (index s2) > unat (policy_max_recs s2)"
      by (auto simp: s3_def split: if_splits)
    moreover then have "length (index s3) \<le> unat (policy_max_recs s2)"
      using prune_length [OF d2] by (auto simp: s3_def)
    ultimately show ?thesis using len2 by linarith
  qed (use len2 in simp)
  have c: "commit_put key len off ttl ts pr s =
       (let s' = snd (persist_index_entry key (of_nat (current_segment s)) (of_nat off) ts ttl pr s3)
        in s'\<lparr>current_offset := current_offset s' + HEADER_SIZE + length key + len + COMMIT_SIZE\<rparr>)"
    unfolding commit_put_def Let_def s1_def [symmetric] s2_def [symmetric] s3_def [symmetric]
    using arg_cong [OF s3, of current_segment] by simp
  show thesis
    by (rule that [where m = "index s3" and d = "dead_since_compact s3"])
      (use c s3 d3 le m2 same len3 len in auto)
qed

lemma unat_segment_narrow:
  "c < 256 \<Longrightarrow> unat (iv_segment (make_index_value (of_nat c) off ts ttl pr)) = c"
  by (simp add: make_index_value_def unat_ucast_mod unat_of_nat)

lemma unat_offset_narrow:
  "off < 2 ^ 24 \<Longrightarrow> unat (u24_get (iv_offset (make_index_value seg (of_nat off) ts ttl pr))) = off"
  by (simp add: make_index_value_def unat_u24_get_set unat_of_nat)

lemma of_nat_not_deleted: "c < 256 \<Longrightarrow> (of_nat c :: u32) \<noteq> INDEX_DELETED"
proof
  assume "c < 256" "(of_nat c :: u32) = INDEX_DELETED"
  then have "unat (of_nat c :: u32) = 4294967295" by (simp add: INDEX_DELETED_def)
  with \<open>c < 256\<close> show False by (simp add: unat_of_nat)
qed

definition put_payload :: "bytes \<Rightarrow> u32 \<Rightarrow> u32 \<Rightarrow> u8 \<Rightarrow> payload" where
  "put_payload data ts ttl pr = (data, ts, u24_get (u24_set ttl), pr)"

text \<open>The fields that \<open>put\<close> and \<open>remove\<close> leave alone.\<close>

definition same_config :: "store \<Rightarrow> store \<Rightarrow> bool" where
  "same_config s s' \<longleftrightarrow> base_prefix s' = base_prefix s \<and> segment_size s' = segment_size s \<and>
     segment_count s' = segment_count s \<and> policy_ttl_secs s' = policy_ttl_secs s \<and>
     policy_max_recs s' = policy_max_recs s \<and> fs_valid s' = fs_valid s"

lemma same_config_refl [simp]: "same_config s s"
  by (simp add: same_config_def)

lemma same_config_trans: "same_config a b \<Longrightarrow> same_config b c \<Longrightarrow> same_config a c"
  by (simp add: same_config_def)

lemma entry_ok_new:
  assumes "disk_ok K p n m" "n \<le> 256" "c < n" "dir K (segment_name p c) = Some i"
    "wf_record (h, k, v)" "rh_flags h AND FLAG_DELETE = 0" "length (inodes K i) < 2 ^ 24"
  defines "K' \<equiv> append_ino i (enc_rec (h, k, v)) K"
    and "iv \<equiv> make_index_value (of_nat c) (of_nat (length (inodes K i))) (rh_timestamp h) (rh_ttl h) (rh_priority h)"
  shows "entry_ok K' p n k iv" "entry_record K' p iv = Some (h, k, v)"
proof -
  have seg: "unat (iv_segment iv) = c" using assms(2,3) unfolding iv_def
    by (intro unat_segment_narrow) simp
  have off: "unat (u24_get (iv_offset iv)) = length (inodes K i)" unfolding iv_def
    by (rule unat_offset_narrow [OF assms(7)])
  have c: "contents K' (segment_name p (unat (iv_segment iv))) = Some (inodes K i @ enc_rec (h, k, v) @ [])"
    using assms(4) by (simp add: seg K'_def contents_def)
  have f: "iv_timestamp iv = rh_timestamp h" "iv_ttl iv = u24_set (rh_ttl h)" "iv_priority iv = rh_priority h"
    by (simp_all add: iv_def make_index_value_def)
  have "record_at (inodes K i @ enc_rec (h, k, v) @ []) (unat (u24_get (iv_offset iv))) (h, k, v)"
    unfolding off by (rule record_at_here)
  from entry_okI [OF _ c assms(5) this assms(6) f] seg assms(3)
  show "entry_ok K' p n k iv" "entry_record K' p iv = Some (h, k, v)" by simp_all
qed

text \<open>Where the store stands after the two appends of a commit.\<close>

lemma store_ok_committed:
  assumes ok: "store_ok s"
    and active: "dir (kern s) (segment_name (base_prefix s) (current_segment s)) = Some i" "append_handle f i"
    and ixf: "dir (kern s) (index_name (base_prefix s)) = Some j" "append_handle g j"
    and disk: "disk_ok (append_ino j es (append_ino i xs (kern s))) (base_prefix s)
      (unat (segment_count s)) m"
    and offs: "off = length (inodes (kern s) i) + length xs"
  shows "store_ok (s\<lparr>active_file := Some f, index_file := Some g,
    kern := append_ino j es (append_ino i xs (kern s)), index := m, dead_since_compact := d,
    current_offset := off\<rparr>)"
proof -
  let ?p = "base_prefix s" and ?K = "kern s"
  have p: "prefix_ok ?p" and wf: "healthy ?K" "kernel_wf ?K"
    using ok by (simp_all add: store_ok_def disk_ok_def)
  have n: "current_segment s < 256"
    using ok by (intro segment_count_less [of _ s]) (simp add: store_ok_def)
  have ij: "i \<noteq> j" using kernel_wf_inj [OF wf(2) active(1), of "index_name ?p"] ixf(1) p n by auto
  have high: "contents (append_ino j es (append_ino i xs ?K)) (segment_name ?p c) = None"
    if "current_segment s < c" "c < unat (segment_count s)" for c
    using ok that by (auto simp: store_ok_def contents_def)
  show ?thesis
    using ok active ixf disk offs high ij
    by (simp add: store_ok_def handle_on_def contents_def)
qed


lemma segment_count_le: "unat (segment_count s) \<le> 256"
  using unat_u8_less [of "segment_count s"] by linarith

text \<open>The index entry that follows a record that has just been appended.\<close>

lemma persist_after_record:
  assumes ok: "store_ok s" and disk: "disk_ok K (base_prefix s) n (index s)"
    and ixd: "dir K (index_name (base_prefix s)) = dir (kern s) (index_name (base_prefix s))"
    and t: "t = s\<lparr>active_file := f, kern := K, index := m, dead_since_compact := d\<rparr>"
  obtains g j where "dir K (index_name (base_prefix s)) = Some j" "append_handle g j"
    "persist_index_entry key seg off ts ttl pr t =
       (True, t\<lparr>index_file := Some g, kern := append_ino j (enc_entry (key, seg, off, ts, ttl, pr)) K\<rparr>)"
proof -
  have frame: "kern t = K" "base_prefix t = base_prefix s" by (simp_all add: t)
  have "handle_on (index_file t) (index_name (base_prefix t)) (kern t)"
    using ok ixd unfolding frame by (simp add: store_ok_def handle_on_def t)
  moreover have "healthy (kern t)" unfolding frame using disk by (simp add: disk_ok_def)
  ultimately show thesis
    by (rule persist_entry_ok [of t key seg off ts ttl pr]) (use that frame in simp)
qed

text \<open>The contents after a put, entry by entry; the capacity policy may have removed entries.\<close>

lemma put_stored:
  assumes m: "map_of (index s2) \<subseteq>\<^sub>m (map_of (index s))(key \<mapsto> miv)" and p: "base_prefix s2 = base_prefix s"
    and new: "entry_record (kern s2) (base_prefix s) miv = Some r"
    and keep: "\<And>k iv. map_of (index s) k = Some iv \<Longrightarrow>
      entry_record (kern s2) (base_prefix s) iv = entry_record (kern s) (base_prefix s) iv"
  shows "stored s2 \<subseteq>\<^sub>m (stored s)(key \<mapsto> payload_of r)"
    "map_of (index s2) = (map_of (index s))(key \<mapsto> miv) \<Longrightarrow> stored s2 = (stored s)(key \<mapsto> payload_of r)"
proof -
  have val: "stored s2 k = ((stored s)(key \<mapsto> payload_of r)) k" if "map_of (index s2) k = Some iv" for k iv
  proof (cases "k = key")
    case True
    from that m have "iv = miv" unfolding map_le_def True by (metis domI fun_upd_same option.inject)
    with that True new p show ?thesis by (simp add: stored_def)
  next
    case False
    from that m False have "map_of (index s) k = Some iv"
      unfolding map_le_def by (metis domI fun_upd_other)
    with keep [OF this] that False p show ?thesis by (simp add: stored_def)
  qed
  have none: "stored s2 k = None" if "map_of (index s2) k = None" for k
    using that by (simp add: stored_def)
  show "stored s2 \<subseteq>\<^sub>m (stored s)(key \<mapsto> payload_of r)"
    unfolding map_le_def using val none by (metis domIff option.exhaust_sel)
  assume all: "map_of (index s2) = (map_of (index s))(key \<mapsto> miv)"
  show "stored s2 = (stored s)(key \<mapsto> payload_of r)"
  proof
    fix k show "stored s2 k = ((stored s)(key \<mapsto> payload_of r)) k"
    proof (cases "map_of (index s2) k")
      case None
      with all have "k \<noteq> key" "map_of (index s) k = None" by (auto split: if_splits)
      with none [OF None] show ?thesis by (simp add: stored_missing)
    qed (use val in blast)
  qed
qed

lemma put_core_ok:
  assumes ok: "store_ok s" and key: "0 < length key" "length key \<le> MAX_KEY_LEN"
    and data: "length data \<le> MAX_VALUE_LEN" and off: "current_offset s < 2 ^ 24"
  obtains s1 s2 where "write_record (put_header key data ttl ts pr) key data s = (True, s1)"
    "s2 = commit_put key (length data) (current_offset s) ttl ts pr s1"
    "store_ok s2" "same_config s s2" "stored s2 \<subseteq>\<^sub>m (stored s)(key \<mapsto> put_payload data ts ttl pr)"
    "policy_max_recs s = 0 \<Longrightarrow> stored s2 = (stored s)(key \<mapsto> put_payload data ts ttl pr)"
    "policy_max_recs s \<noteq> 0 \<Longrightarrow> length (index s2) \<le> unat (policy_max_recs s)"
    "length (index s2) \<le> Suc (length (index s))"
    "current_offset s2 = current_offset s + HEADER_SIZE + length key + length data + COMMIT_SIZE"
    "current_segment s2 = current_segment s"
proof -
  let ?p = "base_prefix s" and ?K = "kern s" and ?n = "unat (segment_count s)"
  let ?h = "put_header key data ttl ts pr"
  let ?miv = "make_index_value (of_nat (current_segment s)) (of_nat (current_offset s)) ts ttl pr"
  let ?e = "(key, of_nat (current_segment s), of_nat (current_offset s), ts, ttl, pr)"
  have disk: "disk_ok ?K ?p ?n (index s)" and cur: "current_segment s < ?n"
    using ok by (simp_all add: store_ok_def)
  note n = segment_count_le [of s]
  have wf: "wf_record (?h, key, data)" by (rule wf_put_record [OF key data])
  have chunks: "concat [enc_header ?h, key, data, enc_commit MAGIC_COMMIT] = enc_rec (?h, key, data)"
    by (simp add: enc_rec_def enc_record_def)
  obtain f i where f: "dir ?K (segment_name ?p (current_segment s)) = Some i" "append_handle f i"
      "current_offset s = length (inodes ?K i)"
      "flush_buffer (append_all [enc_header ?h, key, data, enc_commit MAGIC_COMMIT] s) =
         (True, s\<lparr>active_file := Some f, kern := append_ino i (enc_rec (?h, key, data)) ?K\<rparr>)"
    by (rule append_record_ok [OF ok chunks])
  define K1 where "K1 = append_ino i (enc_rec (?h, key, data)) ?K"
  define s1 where "s1 = s\<lparr>active_file := Some f, kern := K1\<rparr>"
  have w: "write_record ?h key data s = (True, s1)" using f(4) by (simp add: write_record_def s1_def K1_def)
  have disk1: "disk_ok K1 ?p ?n (index s)"
    and keep1: "\<And>k iv. entry_ok ?K ?p ?n k iv \<Longrightarrow> entry_record K1 ?p iv = entry_record ?K ?p iv"
    unfolding K1_def using disk_ok_grow [OF disk n cur f(1)] by blast+
  have "rh_flags ?h AND FLAG_DELETE = 0" by simp
  from entry_ok_new [OF disk n cur f(1) wf this]
  have new: "entry_ok K1 ?p ?n key ?miv" "entry_record K1 ?p ?miv = Some (?h, key, data)"
    using off f(3) by (simp_all add: K1_def)
  have "distinct_keys (index s1)" using store_ok_distinct [OF ok] by (simp add: s1_def)
  then obtain m d where m: "commit_put key (length data) (current_offset s) ttl ts pr s1 =
       (let s' = snd (persist_index_entry key (of_nat (current_segment s)) (of_nat (current_offset s)) ts ttl pr
                 (s1\<lparr>index := m, dead_since_compact := d\<rparr>))
        in s'\<lparr>current_offset := current_offset s' + HEADER_SIZE + length key + length data + COMMIT_SIZE\<rparr>)"
      "distinct_keys m" "map_of m \<subseteq>\<^sub>m (map_of (index s))(key \<mapsto> ?miv)"
      "policy_max_recs s = 0 \<Longrightarrow> map_of m = (map_of (index s))(key \<mapsto> ?miv)"
      "policy_max_recs s \<noteq> 0 \<Longrightarrow> length m \<le> unat (policy_max_recs s)" "length m \<le> Suc (length (index s))"
    by (rule commit_put_index [where key = key and len = "length data" and off = "current_offset s"
          and ttl = ttl and ts = ts and pr = pr]) (simp_all add: s1_def)
  have ixd: "dir K1 (index_name ?p) = dir ?K (index_name ?p)" by (simp add: K1_def)
  let ?t = "s1\<lparr>index := m, dead_since_compact := d\<rparr>"
  have t: "?t = s\<lparr>active_file := Some f, kern := K1, index := m, dead_since_compact := d\<rparr>"
    by (simp add: s1_def)
  obtain g j where g: "dir K1 (index_name ?p) = Some j"
      "persist_index_entry key (of_nat (current_segment s)) (of_nat (current_offset s)) ts ttl pr ?t =
       (True, ?t\<lparr>index_file := Some g, kern := append_ino j (enc_entry ?e) K1\<rparr>)" "append_handle g j"
    using persist_after_record [OF ok disk1 ixd t] by metis
  define s2 where "s2 = s\<lparr>active_file := Some f, index_file := Some g,
      kern := append_ino j (enc_entry ?e) K1, index := m, dead_since_compact := d,
      current_offset := current_offset s + HEADER_SIZE + length key + length data + COMMIT_SIZE\<rparr>"
  have s2: "s2 = commit_put key (length data) (current_offset s) ttl ts pr s1"
    unfolding m(1) g(2) by (rule store.equality) (simp_all add: s2_def s1_def)
  have nd: "(of_nat (current_segment s) :: u32) \<noteq> INDEX_DELETED"
    using cur n by (intro of_nat_not_deleted) simp
  note ix = disk_ok_append_index [OF disk1 n g(1) key(2), where seg = "of_nat (current_segment s)"
      and off = "of_nat (current_offset s)" and ts = ts and ttl = ttl and pr = pr]
  have disk2: "disk_ok (append_ino j (enc_entry ?e) K1) ?p ?n m"
    using ix(4) [OF nd m(2,3) new(1)] .
  have "store_ok (s\<lparr>active_file := Some f, index_file := Some g,
      kern := append_ino j (enc_entry ?e) (append_ino i (enc_rec (?h, key, data)) ?K), index := m,
      dead_since_compact := d, current_offset := current_offset s + HEADER_SIZE + length key + length data + COMMIT_SIZE\<rparr>)"
    using g(1) disk2 f(3) ixd
    by (intro store_ok_committed [OF ok f(1,2) _ g(3)])
      (simp_all add: K1_def enc_rec_def add.assoc)
  then have ok2: "store_ok s2" by (simp add: s2_def K1_def)
  have keep: "entry_record (kern s2) ?p iv = entry_record ?K ?p iv" if "map_of (index s) k = Some iv" for k iv
    using disk_ok_entry [OF disk1 that] disk_ok_entry [OF disk that] ix(2) keep1 by (simp add: s2_def)
  have s2f: "map_of (index s2) \<subseteq>\<^sub>m (map_of (index s))(key \<mapsto> ?miv)" "base_prefix s2 = ?p"
      "entry_record (kern s2) ?p ?miv = Some (?h, key, data)"
    using m(3) ix(2) [OF new(1)] new(2) by (simp_all add: s2_def)
  have pl: "payload_of (?h, key, data) = put_payload data ts ttl pr"
    by (simp add: payload_of_def put_payload_def)
  note st = put_stored [OF s2f keep, unfolded pl]
  have all: "stored s2 = (stored s)(key \<mapsto> put_payload data ts ttl pr)" if "policy_max_recs s = 0"
    by (rule st(2)) (simp_all add: s2_def m(4) [OF that])
  show thesis
    using st(1) m(5,6)
    by (intro that [OF w s2 ok2 _ _ all]) (simp_all add: s2_def s1_def same_config_def)
qed

lemma remove_core_ok:
  assumes ok: "store_ok s" and key: "0 < length key" "length key \<le> MAX_KEY_LEN"
  obtains s1 s2 where
    "snd (flush_buffer (append_all [enc_header (tombstone_header jt jp key), key, enc_commit MAGIC_COMMIT] s)) = s1"
    "s2 = commit_remove key s1" "store_ok s2" "same_config s s2" "stored s2 = (stored s)(key := None)"
    "length (index s2) \<le> length (index s)"
    "current_offset s2 = current_offset s + HEADER_SIZE + length key + COMMIT_SIZE"
    "current_segment s2 = current_segment s" "map_of (index s2) = (map_of (index s))(key := None)"
proof -
  let ?p = "base_prefix s" and ?K = "kern s" and ?n = "unat (segment_count s)"
  let ?h = "tombstone_header jt jp key" and ?e = "(key, INDEX_DELETED, 0, 0, 0, 0)"
  have disk: "disk_ok ?K ?p ?n (index s)" and cur: "current_segment s < ?n"
    using ok by (simp_all add: store_ok_def)
  note n = segment_count_le [of s]
  have chunks: "concat [enc_header ?h, key, enc_commit MAGIC_COMMIT] = enc_rec (?h, key, [])"
    by (simp add: enc_rec_def enc_record_def)
  obtain f i where f: "dir ?K (segment_name ?p (current_segment s)) = Some i" "append_handle f i"
      "current_offset s = length (inodes ?K i)"
      "flush_buffer (append_all [enc_header ?h, key, enc_commit MAGIC_COMMIT] s) =
         (True, s\<lparr>active_file := Some f, kern := append_ino i (enc_rec (?h, key, [])) ?K\<rparr>)"
    by (rule append_record_ok [OF ok chunks])
  define K1 where "K1 = append_ino i (enc_rec (?h, key, [])) ?K"
  define s1 where "s1 = s\<lparr>active_file := Some f, kern := K1\<rparr>"
  define m where "m = AList.delete key (index s)"
  define d where "d = (if index_find key s1 \<noteq> None then dead_since_compact s + 1 else dead_since_compact s)"
  have disk1: "disk_ok K1 ?p ?n (index s)"
    and keep1: "\<And>k iv. entry_ok ?K ?p ?n k iv \<Longrightarrow> entry_record K1 ?p iv = entry_record ?K ?p iv"
    unfolding K1_def using disk_ok_grow [OF disk n cur f(1)] by blast+
  have ixd: "dir K1 (index_name ?p) = dir ?K (index_name ?p)" by (simp add: K1_def)
  let ?t = "s1\<lparr>index := m, dead_since_compact := d\<rparr>"
  have t: "?t = s\<lparr>active_file := Some f, kern := K1, index := m, dead_since_compact := d\<rparr>"
    by (simp add: s1_def)
  obtain g j where g: "dir K1 (index_name ?p) = Some j"
      "persist_index_entry key INDEX_DELETED 0 0 0 0 ?t =
       (True, ?t\<lparr>index_file := Some g, kern := append_ino j (enc_entry ?e) K1\<rparr>)" "append_handle g j"
    using persist_after_record [OF ok disk1 ixd t] by metis
  define s2 where "s2 = s\<lparr>active_file := Some f, index_file := Some g,
      kern := append_ino j (enc_entry ?e) K1, index := m, dead_since_compact := d,
      current_offset := current_offset s + HEADER_SIZE + length key + COMMIT_SIZE\<rparr>"
  have tt: "index_remove key (if index_find key s1 \<noteq> None
      then s1\<lparr>dead_since_compact := dead_since_compact s1 + 1\<rparr> else s1) = ?t"
    by (rule store.equality) (simp_all add: index_remove_def s1_def m_def d_def)
  have s2: "s2 = commit_remove key s1"
    unfolding commit_remove_def Let_def tt g(2) by (rule store.equality) (simp_all add: s2_def s1_def)
  note ix = disk_ok_append_index [OF disk1 n g(1) key(2), where seg = INDEX_DELETED
      and off = 0 and ts = 0 and ttl = 0 and pr = 0]
  have dm: "distinct_keys m" using store_ok_distinct [OF ok] by (simp add: m_def)
  have disk2: "disk_ok (append_ino j (enc_entry ?e) K1) ?p ?n m"
    by (rule ix(3) [OF refl dm]) (simp add: m_def)
  have "store_ok (s\<lparr>active_file := Some f, index_file := Some g,
      kern := append_ino j (enc_entry ?e) (append_ino i (enc_rec (?h, key, [])) ?K), index := m,
      dead_since_compact := d, current_offset := current_offset s + HEADER_SIZE + length key + COMMIT_SIZE\<rparr>)"
    using g(1) disk2 f(3) ixd
    by (intro store_ok_committed [OF ok f(1,2) _ g(3)])
      (simp_all add: K1_def enc_rec_def add.assoc)
  then have ok2: "store_ok s2" by (simp add: s2_def K1_def)
  have keep: "entry_record (kern s2) ?p iv = entry_record ?K ?p iv" if "map_of (index s) k = Some iv" for k iv
    using disk_ok_entry [OF disk1 that] disk_ok_entry [OF disk that] ix(2) keep1 by (simp add: s2_def)
  have "stored s2 = (stored s)(key := None)"
  proof
    fix k show "stored s2 k = ((stored s)(key := None)) k"
    proof (cases "k = key")
      case False
      then show ?thesis using keep by (auto simp: stored_def s2_def m_def split: option.split)
    qed (simp add: stored_def s2_def m_def)
  qed
  moreover have "length m \<le> length (index s)" by (simp add: m_def AList.delete_eq)
  moreover have "snd (flush_buffer (append_all [enc_header ?h, key, enc_commit MAGIC_COMMIT] s)) = s1"
    using f(4) by (simp add: s1_def K1_def)
  moreover have "same_config s s2" by (simp add: same_config_def s2_def)
  moreover have "index s2 = m" "current_segment s2 = current_segment s"
      "current_offset s2 = current_offset s + HEADER_SIZE + length key + COMMIT_SIZE"
    by (simp_all add: s2_def)
  ultimately show thesis using ok2 s2 by (intro that [of s1 s2]) (simp_all add: m_def)
qed

end
