(* ===== verification/CompactionProof.thy ===== *)
theory CompactionProof
  imports WritePath
begin

text \<open>
  Compaction on a disk without faults: the temporary file receives exactly the live records, the
  finished compaction leaves them in segment 0 with an index that leads to them, and nothing that was
  visible changes.
\<close>

section \<open>Copying records\<close>

definition reads_ino :: "fhandle \<Rightarrow> nat \<Rightarrow> bool" where
  "reads_ino f i \<longleftrightarrow> (case pf_fd (f_impl f) of None \<Rightarrow> False | Some d \<Rightarrow> o_rd d \<and> o_ino d = i)"

lemma reads_ino_readable: "reads_ino f i \<Longrightarrow> file_readable f"
  by (auto simp: reads_ino_def file_readable_def split: option.splits)

lemma reads_ino_data: "reads_ino f i \<Longrightarrow> file_data K f = inodes K i"
  by (auto simp: reads_ino_def file_data_def split: option.splits)

lemma reads_ino_read: "reads_ino f i \<Longrightarrow> reads_ino (snd (file_read n f K)) i"
  by (auto simp: reads_ino_def file_read_def pf_read_bytes_def sys_read_def Let_def
      split: option.splits prod.splits if_splits)

lemma reads_ino_seek: "reads_ino f i \<Longrightarrow> reads_ino (snd (file_seek n m f K)) i"
  by (auto simp: reads_ino_def file_seek_def pf_seek_def sys_lseek_def Let_def
      split: option.splits prod.splits seek_mode.splits)

lemma fs_open_reads:
  assumes "dir K p = Some i"
  obtains f where "fs_open p ModeRead K = (Some f, K)" "reads_ino f i"
  using assms by (intro that [of "\<lparr>f_impl = pf_new (open_desc i (posix_flags ModeRead)) K, f_crc = 0\<rparr>"])
    (simp_all add: fs_open_read reads_ino_def pf_new_def open_desc_def posix_flags_def)

lemma read_live_ok:
  assumes "reads_ino src i" "record_at (inodes K i) (unat off) (h, k, v)" "wf_record (h, k, v)"
  obtains src' where "read_live off src K = (Some (h, k, v), src')" "reads_ino src' i"
proof -
  note data = reads_ino_data [OF assms(1), of K]
  let ?f1 = "snd (file_seek (unat off) SeekModeSet src K)"
  let ?f2 = "snd (file_read HEADER_SIZE ?f1 K)"
  let ?f3 = "snd (file_read (length k) ?f2 K)"
  let ?f4 = "snd (file_read (length v) ?f3 K)"
  note hd = read_record_header [OF reads_ino_readable [OF assms(1)], of K "unat off" h k v,
      unfolded data, OF assms(2,3)]
  have hdr: "dec_header (enc_header h) = h" using hdr.dec_enc [of h "[]"] by simp
  have wf: "rh_magic h = MAGIC_RECORD" "unat (rh_key_len h) = length k" "unat (rh_length h) = length v"
      "\<not> length k > MAX_KEY_LEN" "\<not> length v > MAX_VALUE_LEN"
    using assms(3) by (simp_all add: wf_record_def)
  have pos: "rh_length h > 0 \<longleftrightarrow> v \<noteq> []" using wf(3) by (auto simp: word_gt_0 unat_eq_0 [symmetric])
  have b: "drop (unat off + HEADER_SIZE) (inodes K i) =
      k @ v @ drop (unat off + HEADER_SIZE + length k + length v) (inodes K i)" by (rule hd(5))
  have kb: "fst (file_read (length k) ?f2 K) = k"
    using hd(2,3,4) by (simp add: fr.rd_bytes) (subst b, simp)
  have "file_readable ?f3" "file_data K ?f3 = inodes K i" "file_pos ?f3 = unat off + HEADER_SIZE + length k"
    using hd(2,3,4) kb by (simp_all add: fr.rd_readable fr.rd_src fr.rd_pos)
  then have "fst (file_read (length v) ?f3 K) = take (length v) (drop (length k) (drop (unat off + HEADER_SIZE) (inodes K i)))"
    by (simp add: fr.rd_bytes add.commute)
  then have vb: "fst (file_read (length v) ?f3 K) = v" by (subst (asm) b) simp
  have r: "reads_ino ?f3 i" "reads_ino ?f4 i"
    using assms(1) by (simp_all add: reads_ino_read reads_ino_seek)
  show thesis
  proof (cases "v = []")
    case True
    then have "read_live off src K = (Some (h, k, v), ?f3)"
      unfolding read_live_def Let_def case_prod_unfold hd(1) hdr wf kb
      using pos wf by (simp add: hdr.enc_length)
    with r show thesis by (intro that)
  next
    case False
    then have "read_live off src K = (Some (h, k, v), ?f4)"
      unfolding read_live_def Let_def case_prod_unfold hd(1) hdr wf kb vb
      using pos wf by (simp add: hdr.enc_length)
    with r show thesis by (intro that)
  qed
qed

lemma write_live_ok:
  assumes "tail_handle outf t K" "healthy K" "wf_record (h, k, v)"
  obtains outf' where "write_live (h, k, v) outf K = (True, outf', append_ino t (enc_rec (h, k, v)) K)"
    "tail_handle outf' t (append_ino t (enc_rec (h, k, v)) K)"
proof -
  have step: "\<exists>f'. file_write bs f K = (length bs, f', append_ino t bs K) \<and>
      tail_handle f' t (append_ino t bs K)" if "tail_handle f t K" "healthy K" for bs f K
    using file_write_tail [OF that, of bs] by metis
  from step [OF assms(1,2), of "enc_header h"] obtain f1 where
    f1: "file_write (enc_header h) outf K = (HEADER_SIZE, f1, append_ino t (enc_header h) K)"
      "tail_handle f1 t (append_ino t (enc_header h) K)" by (auto simp: hdr.enc_length)
  from step [OF f1(2), of k] assms(2) obtain f2 where
    f2: "file_write k f1 (append_ino t (enc_header h) K) = (length k, f2, append_ino t (enc_header h @ k) K)"
      "tail_handle f2 t (append_ino t (enc_header h @ k) K)" by auto
  have wf: "unat (rh_key_len h) = length k" "unat (rh_length h) = length v"
    using assms(3) by (simp_all add: wf_record_def)
  have pos: "rh_length h > 0 \<longleftrightarrow> v \<noteq> []" using wf(2) by (auto simp: word_gt_0 unat_eq_0 [symmetric])
  from step [OF f2(2), of v] assms(2) obtain f3 where
    f3: "(if rh_length h > 0 then file_write v f2 (append_ino t (enc_header h @ k) K)
          else (0, f2, append_ino t (enc_header h @ k) K)) = (length v, f3, append_ino t (enc_header h @ k @ v) K)"
      "tail_handle f3 t (append_ino t (enc_header h @ k @ v) K)"
    using f2(2) pos by (cases "v = []") auto
  from step [OF f3(2), of "enc_commit MAGIC_COMMIT"] assms(2) obtain f4 where
    f4: "file_write (enc_commit MAGIC_COMMIT) f3 (append_ino t (enc_header h @ k @ v) K) =
        (COMMIT_SIZE, f4, append_ino t (enc_rec (h, k, v)) K)"
      "tail_handle f4 t (append_ino t (enc_rec (h, k, v)) K)"
    by (auto simp: commit.enc_length enc_rec_def enc_record_def)
  have "write_live (h, k, v) outf K = (True, f4, append_ino t (enc_rec (h, k, v)) K)"
    unfolding write_live_def by (simp only: prod.case Let_def f1(1) f2(1) f3(1) f4(1) wf) simp
  with f4(2) show thesis by (intro that)
qed

lemma copy_live_ok:
  assumes "reads_ino src i" "tail_handle outf t K" "healthy K" "i \<noteq> t"
    "\<forall>off \<in> set offs. wf_record (fetch_record (inodes K i) (unat off)) \<and>
       record_at (inodes K i) (unat off) (fetch_record (inodes K i) (unat off))"
  shows "\<exists>outf'. copy_live offs src outf K =
      (True, outf', append_ino t (enc_log (map (\<lambda>off. fetch_record (inodes K i) (unat off)) offs)) K) \<and>
    tail_handle outf' t (append_ino t (enc_log (map (\<lambda>off. fetch_record (inodes K i) (unat off)) offs)) K)"
  using assms
proof (induction offs arbitrary: src outf K)
  case (Cons off offs)
  obtain h k v where r: "fetch_record (inodes K i) (unat off) = (h, k, v)"
    by (cases "fetch_record (inodes K i) (unat off)")
  from Cons.prems(5) r have rec: "record_at (inodes K i) (unat off) (h, k, v)" "wf_record (h, k, v)" by auto
  obtain src' where src': "read_live off src K = (Some (h, k, v), src')" "reads_ino src' i"
    by (rule read_live_ok [OF Cons.prems(1) rec])
  let ?K = "append_ino t (enc_rec (h, k, v)) K"
  obtain outf' where o: "write_live (h, k, v) outf K = (True, outf', ?K)" "tail_handle outf' t ?K"
    by (rule write_live_ok [OF Cons.prems(2,3) rec(2)])
  have same: "inodes ?K i = inodes K i" using Cons.prems(4) by simp
  have "healthy ?K" using Cons.prems(3) by simp
  from Cons.IH [OF src'(2) o(2) this Cons.prems(4)] Cons.prems(5)
  obtain outf'' where c: "copy_live offs src' outf' ?K =
      (True, outf'', append_ino t (enc_log (map (\<lambda>off. fetch_record (inodes K i) (unat off)) offs)) ?K)"
    "tail_handle outf'' t (append_ino t (enc_log (map (\<lambda>off. fetch_record (inodes K i) (unat off)) offs)) ?K)"
    unfolding same by auto
  show ?case
    using src'(1) o(1) c r by (intro exI [of _ outf'']) simp
qed simp

section \<open>The live records\<close>

definition is_live :: "clock \<Rightarrow> store \<Rightarrow> bytes \<times> index_value \<Rightarrow> bool" where
  "is_live clk s e \<longleftrightarrow> \<not> is_ttl_expired clk (iv_timestamp (snd e)) (u24_get (iv_ttl (snd e))) s"

definition live_records :: "clock \<Rightarrow> store \<Rightarrow> nat \<Rightarrow> log_record list" where
  "live_records clk s c = map (\<lambda>off. fetch_record (the (contents (kern s) (segment_name (base_prefix s) c))) (unat off))
     (live_offsets clk c s)"

definition all_live :: "clock \<Rightarrow> store \<Rightarrow> nat \<Rightarrow> log_record list" where
  "all_live clk s n = concat (map (live_records clk s) [0..<n])"

lemma live_offsets_entries:
  assumes "off \<in> set (live_offsets clk c s)"
  obtains k iv where "(k, iv) \<in> set (index s)" "unat (iv_segment iv) = c" "off = u24_get (iv_offset iv)"
    "is_live clk s (k, iv)"
  using assms by (auto simp: live_offsets_def is_live_def)

lemma live_record_ok:
  assumes "\<forall>(k, iv) \<in> set (index s). entry_ok (kern s) (base_prefix s) n k iv"
    "off \<in> set (live_offsets clk c s)"
  obtains bs where "contents (kern s) (segment_name (base_prefix s) c) = Some bs"
    "wf_record (fetch_record bs (unat off))" "record_at bs (unat off) (fetch_record bs (unat off))"
proof -
  obtain k iv where e: "(k, iv) \<in> set (index s)" "unat (iv_segment iv) = c" "off = u24_get (iv_offset iv)"
    using live_offsets_entries [OF assms(2)] by metis
  from assms(1) e(1) have "entry_ok (kern s) (base_prefix s) n k iv" by auto
  then obtain h v bs where "contents (kern s) (segment_name (base_prefix s) (unat (iv_segment iv))) = Some bs"
    "wf_record (h, k, v)" "record_at bs (unat (u24_get (iv_offset iv))) (h, k, v)"
    "fetch_record bs (unat (u24_get (iv_offset iv))) = (h, k, v)" by (rule entry_okE)
  with e show thesis by (intro that [of bs]) simp_all
qed

lemma write_journal_ok:
  assumes "healthy (kern s)" "kernel_wf (kern s)"
  obtains K' where "write_journal st n v s = s\<lparr>kern := K'\<rparr>"
    "touches {journal_name (base_prefix s)} (kern s) K'"
    "contents K' (journal_name (base_prefix s)) = Some (enc_journal \<lparr>j_magic = JOURNAL_MAGIC,
       j_state = journal_state_code st, j_next_seg = of_nat n, j_tmp_valid_size = of_nat v\<rparr>)"
proof -
  let ?j = "\<lparr>j_magic = JOURNAL_MAGIC, j_state = journal_state_code st, j_next_seg = of_nat n,
      j_tmp_valid_size = of_nat v\<rparr>"
  obtain f K1 m g K' where "fs_open (journal_name (base_prefix s)) ModeWrite (kern s) = (Some f, K1)"
      "file_write (enc_journal ?j) f K1 = (m, g, K')" "touches {journal_name (base_prefix s)} (kern s) K'"
      "contents K' (journal_name (base_prefix s)) = Some (enc_journal ?j)"
    using write_from_scratch [OF assms, of "journal_name (base_prefix s)" "enc_journal ?j"] by metis
  then show thesis by (intro that [of K']) (simp_all add: write_journal_def Let_def)
qed

lemma live_offsets_cong:
  "index s' = index s \<Longrightarrow> policy_ttl_secs s' = policy_ttl_secs s \<Longrightarrow> live_offsets clk c s' = live_offsets clk c s"
  by (simp add: live_offsets_def is_ttl_expired_def)

text \<open>The live records of a segment, if there are any, go to the end of the temporary file.\<close>

lemma copy_segment_ok:
  assumes entries: "\<forall>(k, iv) \<in> set (index s0). entry_ok (kern s0) (base_prefix s0) n k iv"
    and p: "prefix_ok (base_prefix s0)" and c: "c < 256"
    and K: "healthy K" "kernel_wf K" "dir K (tmp_name (base_prefix s0)) = Some t" "tail_handle outf t K"
    and same: "contents K (segment_name (base_prefix s0) c) = contents (kern s0) (segment_name (base_prefix s0) c)"
    and s: "s = s0\<lparr>kern := K\<rparr>"
  obtains outf' where "(if live_offsets clk c s0 = [] then (True, outf, s)
       else case fs_open (segment_name (base_prefix s0) c) ModeRead K of
           (None, K) \<Rightarrow> (True, outf, s\<lparr>kern := K\<rparr>)
         | (Some src, K) \<Rightarrow> (case copy_live (live_offsets clk c s0) src outf K of
             (ok, outf, K) \<Rightarrow> (ok, outf, s\<lparr>kern := K\<rparr>))) =
      (True, outf', s0\<lparr>kern := append_ino t (enc_log (live_records clk s0 c)) K\<rparr>)"
    "tail_handle outf' t (append_ino t (enc_log (live_records clk s0 c)) K)"
proof (cases "live_offsets clk c s0 = []")
  case True
  then show ?thesis using s K(4) that [of outf] by (simp add: live_records_def)
next
  case False
  let ?src = "segment_name (base_prefix s0) c" and ?new = "enc_log (live_records clk s0 c)"
  from False obtain off where "off \<in> set (live_offsets clk c s0)" by (meson list.set_sel(1))
  then obtain bs where bs: "contents (kern s0) ?src = Some bs"
    using live_record_ok [OF entries] by metis
  then obtain i where i: "dir K ?src = Some i" "inodes K i = bs" using same by (auto simp: contents_def)
  obtain src where src: "fs_open ?src ModeRead K = (Some src, K)" "reads_ino src i"
    by (rule fs_open_reads [OF i(1)])
  have it: "i \<noteq> t" using kernel_wf_inj [OF K(2) i(1), of "tmp_name (base_prefix s0)"] K(3) p c by auto
  have "\<forall>off \<in> set (live_offsets clk c s0). wf_record (fetch_record (inodes K i) (unat off)) \<and>
     record_at (inodes K i) (unat off) (fetch_record (inodes K i) (unat off))"
    using live_record_ok [OF entries] bs i(2) by (metis option.inject)
  from copy_live_ok [OF src(2) K(4,1) it this]
  obtain outf' where "copy_live (live_offsets clk c s0) src outf K = (True, outf', append_ino t ?new K)"
      "tail_handle outf' t (append_ino t ?new K)"
    using bs i(2) by (auto simp: live_records_def)
  with False src(1) s that [of outf'] show ?thesis by auto
qed

text \<open>One round of the loop: copy, note the progress in the journal, remove the segment.\<close>

lemma compact_segment_step:
  assumes entries: "\<forall>(k, iv) \<in> set (index s0). entry_ok (kern s0) (base_prefix s0) n k iv"
    and p: "prefix_ok (base_prefix s0)" and c: "c < 256"
    and K: "healthy K" "kernel_wf K" "dir K (tmp_name (base_prefix s0)) = Some t" "tail_handle outf t K"
    and same: "contents K (segment_name (base_prefix s0) c) = contents (kern s0) (segment_name (base_prefix s0) c)"
    and s: "s = s0\<lparr>kern := K\<rparr>"
  obtains outf' K3 where
    "\<And>ns cs. compact_segments clk (c # ns) outf cs s = compact_segments clk ns outf' (cs + 1) (s0\<lparr>kern := K3\<rparr>)"
    "dir K3 (tmp_name (base_prefix s0)) = Some t" "inodes K3 t = inodes K t @ enc_log (live_records clk s0 c)"
    "tail_handle outf' t K3"
    "touches {tmp_name (base_prefix s0), journal_name (base_prefix s0), segment_name (base_prefix s0) c} K K3"
    "contents K3 (segment_name (base_prefix s0) c) = None"
    "\<exists>v. contents K3 (journal_name (base_prefix s0)) = Some (enc_journal \<lparr>j_magic = JOURNAL_MAGIC,
       j_state = journal_state_code JOURNAL_COMPACTING, j_next_seg = of_nat (c + 1), j_tmp_valid_size = v\<rparr>)"
proof -
  let ?p = "base_prefix s0"
  let ?src = "segment_name ?p c" and ?tmp = "tmp_name ?p" and ?jn = "journal_name ?p"
  let ?new = "enc_log (live_records clk s0 c)"
  have sb: "base_prefix s = ?p" "kern s = K" "index s = index s0" using s by simp_all
  have offs: "live_offsets clk c s = live_offsets clk c s0" using s by (intro live_offsets_cong) simp_all
  obtain outf' where copied: "(if live_offsets clk c s0 = [] then (True, outf, s)
       else case fs_open ?src ModeRead K of
           (None, K) \<Rightarrow> (True, outf, s\<lparr>kern := K\<rparr>)
         | (Some src, K) \<Rightarrow> (case copy_live (live_offsets clk c s0) src outf K of
             (ok, outf, K) \<Rightarrow> (ok, outf, s\<lparr>kern := K\<rparr>))) =
      (True, outf', s0\<lparr>kern := append_ino t ?new K\<rparr>)" "tail_handle outf' t (append_ino t ?new K)"
    by (rule copy_segment_ok [OF assms])
  define K1 where "K1 = append_ino t ?new K"
  note app = touches_append [OF K(1-3), of ?new, folded K1_def]
  note wf1 = touches_wf [OF app(1)]
  have "healthy (kern (s0\<lparr>kern := K1\<rparr>))" "kernel_wf (kern (s0\<lparr>kern := K1\<rparr>))" using wf1 by simp_all
  then obtain K2 where "write_journal JOURNAL_COMPACTING (c + 1) (file_tell outf') (s0\<lparr>kern := K1\<rparr>) =
        s0\<lparr>kern := K1\<rparr>\<lparr>kern := K2\<rparr>"
      "touches {journal_name (base_prefix (s0\<lparr>kern := K1\<rparr>))} (kern (s0\<lparr>kern := K1\<rparr>)) K2"
      "contents K2 (journal_name (base_prefix (s0\<lparr>kern := K1\<rparr>))) = Some (enc_journal \<lparr>j_magic = JOURNAL_MAGIC,
       j_state = journal_state_code JOURNAL_COMPACTING, j_next_seg = of_nat (c + 1),
       j_tmp_valid_size = of_nat (file_tell outf')\<rparr>)"
    by (rule write_journal_ok)
  then have K2: "write_journal JOURNAL_COMPACTING (c + 1) (file_tell outf') (s0\<lparr>kern := K1\<rparr>) =
        s0\<lparr>kern := K2\<rparr>" "touches {?jn} K1 K2" "contents K2 ?jn = Some (enc_journal \<lparr>j_magic = JOURNAL_MAGIC,
       j_state = journal_state_code JOURNAL_COMPACTING, j_next_seg = of_nat (c + 1),
       j_tmp_valid_size = of_nat (file_tell outf')\<rparr>)" by simp_all
  note wf2 = touches_wf [OF K2(2)]
  define K3 where "K3 = fs_remove ?src K2"
  note rm = touches_remove [OF conjunct1 [OF wf2] conjunct2 [OF wf2], of ?src, folded K3_def]
  have nm: "?tmp \<noteq> ?jn" "?tmp \<noteq> ?src" "?jn \<noteq> ?src" using p c by simp_all
  have tmp3: "dir K3 ?tmp = Some t" "inodes K3 t = inodes K t @ ?new"
    using app(2) K(3) nm touches_dir [OF K2(2), of ?tmp] touches_dir [OF rm(1), of ?tmp]
      touches_inodes [OF K2(2), of ?tmp t] touches_inodes [OF rm(1), of ?tmp t]
    by (auto simp: K1_def)
  have t3: "tail_handle outf' t K3"
    using copied(2) tmp3(2) unfolding tail_handle_def by (auto simp: K1_def split: option.splits)
  have t13: "touches {?tmp, ?jn, ?src} K K3"
    using touches_trans [OF touches_trans [OF app(1) K2(2)] rm(1)] by (rule touches_mono) auto
  have run: "compact_segments clk (c # ns) outf cs s =
      compact_segments clk ns outf' (cs + 1) (s0\<lparr>kern := K3\<rparr>)" for ns cs
    unfolding compact_segments.simps Let_def offs sb copied(1) [folded K1_def]
    using K2(1) by (simp add: fs_remove_in_def K3_def)
  from that [OF run tmp3 t3 t13] show thesis using rm(3) K2(3) nm by auto
qed

text \<open>One segment after the other moves into the temporary file.\<close>

lemma compact_segments_ok:
  assumes entries: "\<forall>(k, iv) \<in> set (index s0). entry_ok (kern s0) (base_prefix s0) n k iv"
    and p: "prefix_ok (base_prefix s0)"
    and st: "s = s0\<lparr>kern := K\<rparr>" "healthy K" "kernel_wf K" "dir K (tmp_name (base_prefix s0)) = Some t"
      "inodes K t = done" "tail_handle outf t K"
    and ns: "distinct ns" "\<forall>c \<in> set ns. c < 256 \<and>
      contents K (segment_name (base_prefix s0) c) = contents (kern s0) (segment_name (base_prefix s0) c)"
  shows "\<exists>K'. compact_segments clk ns outf cs s = (True, cs + length ns, s0\<lparr>kern := K'\<rparr>) \<and>
    touches ({tmp_name (base_prefix s0), journal_name (base_prefix s0)} \<union> segment_name (base_prefix s0) ` set ns) K K' \<and>
    contents K' (tmp_name (base_prefix s0)) = Some (done @ enc_log (concat (map (live_records clk s0) ns))) \<and>
    (\<forall>c \<in> set ns. contents K' (segment_name (base_prefix s0) c) = None) \<and>
    (ns \<noteq> [] \<longrightarrow> (\<exists>v. contents K' (journal_name (base_prefix s0)) = Some (enc_journal \<lparr>j_magic = JOURNAL_MAGIC,
       j_state = journal_state_code JOURNAL_COMPACTING, j_next_seg = of_nat (last ns + 1), j_tmp_valid_size = v\<rparr>)))"
  using st ns
proof (induction ns arbitrary: s K "done" outf cs)
  case Nil
  then show ?case by (auto simp: touches_refl contents_def)
next
  case (Cons c ns)
  let ?p = "base_prefix s0"
  let ?src = "segment_name ?p c" and ?tmp = "tmp_name ?p" and ?jn = "journal_name ?p"
  let ?new = "enc_log (live_records clk s0 c)"
  have c: "c < 256" and same: "contents K ?src = contents (kern s0) ?src" and dist: "distinct ns"
    using Cons.prems(7,8) by simp_all
  obtain outf' K3 where run: "\<And>ns cs. compact_segments clk (c # ns) outf cs s =
        compact_segments clk ns outf' (cs + 1) (s0\<lparr>kern := K3\<rparr>)"
    and tmp3: "dir K3 ?tmp = Some t" "inodes K3 t = inodes K t @ ?new" and t3: "tail_handle outf' t K3"
    and t13: "touches {?tmp, ?jn, ?src} K K3" and gone: "contents K3 ?src = None"
    and jn: "\<exists>v. contents K3 ?jn = Some (enc_journal \<lparr>j_magic = JOURNAL_MAGIC,
       j_state = journal_state_code JOURNAL_COMPACTING, j_next_seg = of_nat (c + 1), j_tmp_valid_size = v\<rparr>)"
    using compact_segment_step [OF entries p c Cons.prems(2,3,4,6) same Cons.prems(1), where clk = clk] by blast
  note wf3 = touches_wf [OF t13]
  have data: "inodes K3 t = done @ ?new" using tmp3(2) Cons.prems(5) by simp
  have rest: "\<forall>d \<in> set ns. d < 256 \<and> contents K3 (segment_name ?p d) = contents (kern s0) (segment_name ?p d)"
  proof
    fix d assume d: "d \<in> set ns"
    then have "d < 256" "d \<noteq> c" using Cons.prems(7,8) by auto
    moreover from this have "segment_name ?p d \<notin> {?tmp, ?jn, ?src}"
      using p c by (auto simp: segment_name_inj)
    ultimately show "d < 256 \<and> contents K3 (segment_name ?p d) = contents (kern s0) (segment_name ?p d)"
      using touches_contents [OF t13] Cons.prems(8) d by auto
  qed
  obtain K' where K': "compact_segments clk ns outf' (cs + 1) (s0\<lparr>kern := K3\<rparr>) =
        (True, cs + 1 + length ns, s0\<lparr>kern := K'\<rparr>)"
      "touches ({?tmp, ?jn} \<union> segment_name ?p ` set ns) K3 K'"
      "contents K' ?tmp = Some ((done @ ?new) @ enc_log (concat (map (live_records clk s0) ns)))"
      "\<forall>d \<in> set ns. contents K' (segment_name ?p d) = None"
      "ns \<noteq> [] \<longrightarrow> (\<exists>v. contents K' ?jn = Some (enc_journal \<lparr>j_magic = JOURNAL_MAGIC,
         j_state = journal_state_code JOURNAL_COMPACTING, j_next_seg = of_nat (last ns + 1), j_tmp_valid_size = v\<rparr>))"
    using Cons.IH [OF refl conjunct1 [OF wf3] conjunct2 [OF wf3] tmp3(1) data t3 dist rest] by blast
  have "touches ({?tmp, ?jn} \<union> segment_name ?p ` set (c # ns)) K K'"
    using touches_trans [OF t13 K'(2)] by (rule touches_mono) auto
  moreover have "?src \<notin> {?tmp, ?jn} \<union> segment_name ?p ` set ns"
    using p c Cons.prems(7,8) by (auto simp: segment_name_inj)
  then have "contents K' ?src = None" using touches_contents [OF K'(2), of ?src] gone by simp
  moreover have "\<exists>v. contents K' ?jn = Some (enc_journal \<lparr>j_magic = JOURNAL_MAGIC,
       j_state = journal_state_code JOURNAL_COMPACTING, j_next_seg = of_nat (last (c # ns) + 1), j_tmp_valid_size = v\<rparr>)"
  proof (cases "ns = []")
    case True
    then have "s0\<lparr>kern := K3\<rparr> = s0\<lparr>kern := K'\<rparr>" using K'(1) by simp
    then have "K' = K3" by (metis store.select_convs(1) store.surjective store.update_convs(1))
    with True jn show ?thesis by auto
  qed (use K'(5) in simp)
  ultimately show ?case using run K'(1,3,4) by (intro exI [of _ K']) auto
qed

section \<open>The rebuilt index\<close>

fun log_index :: "nat \<Rightarrow> log_record list \<Rightarrow> index_map" where
  "log_index off [] = []"
| "log_index off ((h, k, v) # rs) =
     (k, make_index_value 0 (of_nat off) (rh_timestamp h) (rh_ttl h) (rh_priority h)) #
     log_index (off + rec_size (h, k, v)) rs"

definition rec_key :: "log_record \<Rightarrow> bytes" where
  "rec_key r = fst (snd r)"

lemma rec_key_simp [simp]: "rec_key (h, k, v) = k"
  by (simp add: rec_key_def)

definition is_put :: "log_record \<Rightarrow> bool" where
  "is_put r \<longleftrightarrow> wf_record r \<and> rh_flags (fst r) AND FLAG_DELETE = 0"

lemma log_index_keys: "map fst (log_index off rs) = map rec_key rs"
  by (induction off rs rule: log_index.induct) (simp_all add: rec_key_def)

lemma update_new: "k \<notin> fst ` set m \<Longrightarrow> AList.update k v m = m @ [(k, v)]"
  by (induction m) auto

lemma foldl_finalize_visit:
  assumes "distinct (map fst (index s) @ map rec_key rs)" "\<forall>r \<in> set rs. is_put r"
  shows "foldl finalize_visit s (log_visits off rs) = s\<lparr>index := index s @ log_index off rs\<rparr>"
  using assms
proof (induction off rs arbitrary: s rule: log_visits.induct)
  case (2 off h k v rs)
  let ?e = "(k, make_index_value 0 (of_nat off) (rh_timestamp h) (rh_ttl h) (rh_priority h))"
  have k: "k \<notin> fst ` set (index s)" using 2(2) by auto
  have "finalize_visit s (off, h, k) = s\<lparr>index := index s @ [?e]\<rparr>"
    using 2(3) by (simp add: finalize_visit_def index_insert_def update_new [OF k] is_put_def)
  moreover have "distinct (map fst (index (s\<lparr>index := index s @ [?e]\<rparr>)) @ map rec_key rs)"
    using 2(2) by auto
  ultimately show ?case using 2(1) [of "s\<lparr>index := index s @ [?e]\<rparr>"] 2(3) by simp
qed simp

text \<open>The index of a log leads to its records.\<close>

lemma log_index_entry:
  assumes "map_of (log_index (length (enc_log pre)) rs) k = Some iv" "\<forall>r \<in> set rs. is_put r"
    "contents K (segment_name p 0) = Some (enc_log (pre @ rs))" "length (enc_log (pre @ rs)) < 2 ^ 24" "0 < n"
    "distinct (map rec_key rs)"
  shows "entry_ok K p n k iv \<and> (\<exists>r \<in> set rs. rec_key r = k \<and> entry_record K p iv = Some r)"
  using assms
proof (induction rs arbitrary: pre)
  case (Cons r rs)
  obtain h k' v where r: "r = (h, k', v)" by (cases r)
  let ?iv = "make_index_value 0 (of_nat (length (enc_log pre))) (rh_timestamp h) (rh_ttl h) (rh_priority h)"
  show ?case
  proof (cases "k' = k")
    case True
    with Cons.prems(1) r have iv: "iv = ?iv" by simp
    have off: "unat (u24_get (iv_offset iv)) = length (enc_log pre)"
      unfolding iv using Cons.prems(4) by (intro unat_offset_narrow) simp
    have seg: "unat (iv_segment iv) = 0" by (simp add: iv make_index_value_def)
    have c: "contents K (segment_name p (unat (iv_segment iv))) = Some (enc_log pre @ enc_rec (h, k, v) @ enc_log rs)"
      using Cons.prems(3) by (simp add: seg r True)
    have at: "record_at (enc_log pre @ enc_rec (h, k, v) @ enc_log rs) (unat (u24_get (iv_offset iv))) (h, k, v)"
      unfolding off by (rule record_at_here)
    have wf: "wf_record (h, k, v)" "rh_flags h AND FLAG_DELETE = 0"
      using Cons.prems(2) r True by (auto simp: is_put_def)
    have f: "iv_timestamp iv = rh_timestamp h" "iv_ttl iv = u24_set (rh_ttl h)" "iv_priority iv = rh_priority h"
      by (simp_all add: iv make_index_value_def)
    from entry_okI [OF _ c wf(1) at wf(2) f, of n] Cons.prems(5) seg
    have "entry_ok K p n k iv" "entry_record K p iv = Some (h, k, v)" by simp_all
    then show ?thesis using r True by (auto simp: rec_key_def)
  next
    case False
    have "length (enc_log (pre @ [r])) = length (enc_log pre) + rec_size r" by (simp add: rec_size_def)
    with Cons.prems(1) r False have "map_of (log_index (length (enc_log (pre @ [r]))) rs) k = Some iv" by simp
    from Cons.IH [OF this] Cons.prems r show ?thesis by auto
  qed
qed simp

section \<open>What is live\<close>

lemma mset_concat_partition:
  assumes "\<forall>x \<in> set xs. f x < (n :: nat)"
  shows "mset (concat (map (\<lambda>c. filter (\<lambda>x. f x = c) xs) [0..<n])) = mset xs"
  using assms
proof (induction xs)
  case Nil
  show ?case by (induction n) auto
next
  case (Cons x xs)
  have "mset (concat (map (\<lambda>c. filter (\<lambda>y. f y = c) (x # xs)) [0..<m])) =
      (if f x < m then add_mset x (mset (concat (map (\<lambda>c. filter (\<lambda>y. f y = c) xs) [0..<m])))
       else mset (concat (map (\<lambda>c. filter (\<lambda>y. f y = c) xs) [0..<m])))" for m
    by (induction m) auto
  from this [of n] Cons show ?case by simp
qed

definition entry_rec :: "store \<Rightarrow> bytes \<times> index_value \<Rightarrow> log_record" where
  "entry_rec s e = the (entry_record (kern s) (base_prefix s) (snd e))"

lemma all_live_mset:
  assumes "\<forall>(k, iv) \<in> set (index s). entry_ok (kern s) (base_prefix s) n k iv"
  shows "mset (all_live clk s n) = mset (map (entry_rec s) (filter (is_live clk s) (index s)))"
proof -
  let ?seg = "\<lambda>e. unat (iv_segment (snd e))"
  let ?live = "filter (is_live clk s) (index s)"
  have seg: "\<forall>e \<in> set ?live. ?seg e < n" using assms by (auto simp: entry_ok_def)
  have one: "mset (live_records clk s c) = mset (map (entry_rec s) (filter (\<lambda>e. ?seg e = c) ?live))" for c
  proof -
    have f: "(\<lambda>(k, iv). unat (iv_segment iv) = c \<and> \<not> is_ttl_expired clk (iv_timestamp iv) (u24_get (iv_ttl iv)) s)
        = (\<lambda>e. ?seg e = c \<and> is_live clk s e)"
      by (auto simp: is_live_def)
    have "live_records clk s c = map (\<lambda>off. fetch_record (the (contents (kern s) (segment_name (base_prefix s) c))) (unat off))
        (sort (map (\<lambda>(k, iv). u24_get (iv_offset iv)) (filter (\<lambda>e. ?seg e = c \<and> is_live clk s e) (index s))))"
      unfolding live_records_def live_offsets_def f ..
    then have "mset (live_records clk s c) =
        mset (map (\<lambda>e. fetch_record (the (contents (kern s) (segment_name (base_prefix s) c))) (unat (u24_get (iv_offset (snd e)))))
          (filter (\<lambda>e. ?seg e = c \<and> is_live clk s e) (index s)))"
      by (simp add: case_prod_unfold image_mset.compositionality comp_def)
    also have "filter (\<lambda>e. ?seg e = c \<and> is_live clk s e) (index s) = filter (\<lambda>e. ?seg e = c) ?live"
      by (simp add: conj_commute)
    also have "map (\<lambda>e. fetch_record (the (contents (kern s) (segment_name (base_prefix s) c))) (unat (u24_get (iv_offset (snd e)))))
          (filter (\<lambda>e. ?seg e = c) ?live) = map (entry_rec s) (filter (\<lambda>e. ?seg e = c) ?live)"
      using assms
      by (auto simp: entry_rec_def entry_record_def entry_ok_def split: option.splits)
    finally show ?thesis .
  qed
  have "mset (all_live clk s n) = (\<Sum>c \<leftarrow> [0..<n]. mset (live_records clk s c))"
    by (simp add: all_live_def mset_concat comp_def)
  also have "\<dots> = (\<Sum>c \<leftarrow> [0..<n]. mset (map (entry_rec s) (filter (\<lambda>e. ?seg e = c) ?live)))"
    by (simp only: one)
  also have "\<dots> = image_mset (entry_rec s) (mset (concat (map (\<lambda>c. filter (\<lambda>e. ?seg e = c) ?live) [0..<n])))"
    by (induction n) simp_all
  also have "\<dots> = mset (map (entry_rec s) ?live)"
    by (simp only: mset_concat_partition [OF seg] mset_map)
  finally show ?thesis .
qed

lemma remove_segments_ok:
  assumes "healthy (kern s)" "kernel_wf (kern s)"
  obtains K' where "remove_segments is s = s\<lparr>kern := K'\<rparr>"
    "touches (segment_name (base_prefix s) ` set is) (kern s) K'"
    "\<forall>c \<in> set is. contents K' (segment_name (base_prefix s) c) = None"
  using assms
proof (induction "is" arbitrary: s thesis)
  case Nil
  then show ?case by (intro Nil(1) [of "kern s"]) (simp_all add: remove_segments_def touches_refl)
next
  case (Cons c cs)
  let ?n = "segment_name (base_prefix s) c"
  note rm = touches_remove [OF Cons.prems(2,3), of ?n]
  let ?s = "s\<lparr>kern := fs_remove ?n (kern s)\<rparr>"
  have "healthy (kern ?s)" "kernel_wf (kern ?s)" using touches_wf [OF rm(1)] by simp_all
  then obtain K' where K': "remove_segments cs ?s = ?s\<lparr>kern := K'\<rparr>"
      "touches (segment_name (base_prefix ?s) ` set cs) (kern ?s) K'"
      "\<forall>c \<in> set cs. contents K' (segment_name (base_prefix ?s) c) = None"
    using Cons.IH [of ?s] by metis
  have "contents K' ?n = None"
  proof (cases "?n \<in> segment_name (base_prefix s) ` set cs")
    case True
    with K'(3) show ?thesis by auto
  next
    case False
    with touches_contents [OF K'(2), of ?n] rm(3) show ?thesis by simp
  qed
  moreover have "touches (segment_name (base_prefix s) ` set (c # cs)) (kern s) K'"
  proof -
    have "touches (segment_name (base_prefix s) ` set cs) (fs_remove ?n (kern s)) K'" using K'(2) by simp
    from touches_trans [OF rm(1) this] show ?thesis by simp
  qed
  ultimately show ?case
    using K' by (intro Cons.prems(1) [of K']) (simp_all add: remove_segments_def fs_remove_in_def)
qed

lemma touches_write_new:
  assumes "healthy K" "kernel_wf K" "dir K p = None"
  shows "touches {p} K (write_new p bs K)" "contents (write_new p bs K) p = Some bs"
    "dir (write_new p bs K) p = Some (next_ino K)"
proof -
  note cr = touches_create [OF assms(1,2), of p]
  have d: "dir (create_ino p K) p = Some (next_ino K)" "inodes (create_ino p K) (next_ino K) = []"
    using assms(3) by (simp_all add: create_ino_def)
  note app = touches_append [OF _ _ d(1), of bs]
  show "touches {p} K (write_new p bs K)"
    using touches_trans_same [OF cr(1)] app(1) touches_wf [OF cr(1)] by (simp add: write_new_def)
  show "contents (write_new p bs K) p = Some bs" "dir (write_new p bs K) p = Some (next_ino K)"
    using app touches_wf [OF cr(1)] d by (simp_all add: write_new_def)
qed

lemma open_index_ok:
  assumes "healthy (kern s)"
  obtains g where "open_index_for_append s = s\<lparr>index_file := Some g,
      kern := create_ino (index_name (base_prefix s)) (kern s)\<rparr>"
    "handle_on (Some g) (index_name (base_prefix s)) (create_ino (index_name (base_prefix s)) (kern s))"
proof -
  obtain f i where "fs_open (index_name (base_prefix s)) ModeAppend (kern s) =
      (Some f, create_ino (index_name (base_prefix s)) (kern s))"
    "dir (create_ino (index_name (base_prefix s)) (kern s)) (index_name (base_prefix s)) = Some i"
    "append_handle f i"
    using fs_open_append [OF assms, of ModeAppend "index_name (base_prefix s)"] by blast
  then show thesis
    by (intro that [of f]) (auto simp: open_index_for_append_def handle_on_def)
qed

lemma create_existing: "dir K p = Some i \<Longrightarrow> create_ino p K = K"
  by (simp add: create_ino_def)

lemma close_index_shape: "\<exists>f. close_index s = s\<lparr>index_file := f\<rparr>"
  by (cases "valid_file (index_file s)")
    (auto simp: close_index_def intro: exI [of _ "index_file s"])

text \<open>The end of a compaction, over a finished temporary file.\<close>

lemma finalize_ok:
  assumes wf: "healthy (kern s)" "kernel_wf (kern s)" and p: "prefix_ok (base_prefix s)"
    and n: "0 < unat (segment_count s)"
    and tmp: "contents (kern s) (tmp_name (base_prefix s)) = Some (enc_log R)"
    and R: "\<forall>r \<in> set R. is_put r" "distinct (map rec_key R)"
  obtains K' g where
    "finalize_compaction s = s\<lparr>kern := K', index_file := Some g, index := log_index 0 R, current_segment := 0\<rparr>"
    "touches ({tmp_name (base_prefix s), index_name (base_prefix s)} \<union>
       segment_name (base_prefix s) ` {..<unat (segment_count s)}) (kern s) K'"
    "contents K' (segment_name (base_prefix s) 0) = Some (enc_log R)"
    "\<forall>c. 0 < c \<longrightarrow> c < unat (segment_count s) \<longrightarrow> contents K' (segment_name (base_prefix s) c) = None"
    "contents K' (index_name (base_prefix s)) = Some (enc_entries (map entry_of (log_index 0 R)))"
    "handle_on (Some g) (index_name (base_prefix s)) K'"
proof -
  let ?p = "base_prefix s" and ?n = "unat (segment_count s)"
  let ?tmp = "tmp_name ?p" and ?seg0 = "segment_name ?p 0" and ?ix = "index_name ?p"
  let ?m = "log_index 0 R"
  have small: "c < 256" if "c < ?n" for c using that by (rule segment_count_less)
  have nseg: "?tmp \<notin> segment_name ?p ` {..<?n}" "?ix \<notin> segment_name ?p ` {..<?n}"
    using p small by (auto simp: image_iff)
  obtain K1 where K1: "remove_segments [0..<?n] s = s\<lparr>kern := K1\<rparr>"
      "touches (segment_name ?p ` set [0..<?n]) (kern s) K1"
      "\<forall>c \<in> set [0..<?n]. contents K1 (segment_name ?p c) = None"
    by (rule remove_segments_ok [OF wf])
  note wf1 = touches_wf [OF K1(2)]
  have "contents K1 ?tmp = Some (enc_log R)"
    using touches_contents [OF K1(2), of ?tmp] nseg tmp by (simp add: atLeast0LessThan)
  then obtain i where i: "dir K1 ?tmp = Some i" by (auto simp: contents_def)
  have ne: "?tmp \<noteq> ?seg0" using p by simp
  obtain K2 where K2: "fs_rename ?tmp ?seg0 K1 = (True, K2)" "touches {?tmp, ?seg0} K1 K2"
      "dir K2 ?tmp = None" "contents K2 ?seg0 = contents K1 ?tmp"
    by (rule fs_rename_healthy [OF conjunct1 [OF wf1] conjunct2 [OF wf1] i ne])
  note wf2 = touches_wf [OF K2(2)]
  have seg0: "contents K2 ?seg0 = Some (enc_log R)" using K2(4) \<open>contents K1 ?tmp = _\<close> by simp
  obtain f where f: "fs_open ?seg0 ModeRead K2 = (Some f, K2)" "file_readable f" "file_pos f = 0"
      "file_data K2 f = enc_log R" by (rule fs_open_read_contents [OF seg0])
  have "\<forall>r \<in> set R. wf_record r" using R(1) by (simp add: is_put_def)
  from scan_enc_log [OF this, of 0 "[]"] f have scan: "scan_records scan_ok K2 f 0 = log_visits 0 R"
    by (simp add: scan_records_bytes)
  let ?s2 = "s\<lparr>index := [], kern := K2\<rparr>"
  have visit: "foldl finalize_visit ?s2 (log_visits 0 R) = s\<lparr>kern := K2, index := ?m\<rparr>"
    using foldl_finalize_visit [of ?s2 R 0] R by simp
  obtain g0 where g0: "close_index (s\<lparr>kern := K2, index := ?m\<rparr>) = s\<lparr>kern := K2, index := ?m\<rparr>\<lparr>index_file := g0\<rparr>"
    using close_index_shape by blast
  define K3 where "K3 = fs_remove ?ix K2"
  note rm = touches_remove [OF conjunct1 [OF wf2] conjunct2 [OF wf2], of ?ix, folded K3_def]
  note wf3 = touches_wf [OF rm(1)]
  define s3 where "s3 = s\<lparr>kern := K3, index := ?m, index_file := g0\<rparr>"
  define K4 where "K4 = write_new ?ix (enc_entries (map entry_of ?m)) K3"
  note wn = touches_write_new [OF conjunct1 [OF wf3] conjunct2 [OF wf3] rm(2), of "enc_entries (map entry_of ?m)",
      folded K4_def]
  note wf4 = touches_wf [OF wn(1)]
  have bulk: "write_index_bulk s3 = (True, s3\<lparr>kern := K4\<rparr>)"
    using write_index_bulk_new [of s3] wf3 rm(2) by (simp add: s3_def K4_def)
  let ?s4 = "s3\<lparr>kern := K4\<rparr>"
  obtain g where g: "open_index_for_append ?s4 = ?s4\<lparr>index_file := Some g,
      kern := create_ino (index_name (base_prefix ?s4)) (kern ?s4)\<rparr>"
    "handle_on (Some g) (index_name (base_prefix ?s4)) (create_ino (index_name (base_prefix ?s4)) (kern ?s4))"
    by (rule open_index_ok [of ?s4]) (use wf4 in auto)
  have same: "create_ino (index_name (base_prefix ?s4)) (kern ?s4) = K4"
    using create_existing [OF wn(3)] by (simp add: s3_def)
  have rem: "fs_remove_in ?ix (s\<lparr>kern := K2, index := ?m\<rparr>\<lparr>index_file := g0\<rparr>) = s3"
    by (simp add: fs_remove_in_def s3_def K3_def)
  have fin: "finalize_compaction s = s\<lparr>kern := K4, index_file := Some g, index := ?m, current_segment := 0\<rparr>"
    unfolding finalize_compaction_def Let_def
    using K1(1) K2(1) f(1) scan visit g0 rem bulk g(1) same
    by (simp add: s3_def)
  have t: "touches ({?tmp, ?ix} \<union> segment_name ?p ` {..<?n}) (kern s) K4"
    using touches_trans [OF touches_trans [OF touches_trans [OF K1(2) K2(2)] rm(1)] wn(1)]
    by (rule touches_mono) (use n in \<open>auto simp: image_iff\<close>)
  have "contents K4 ?seg0 = Some (enc_log R)"
    using touches_contents [OF wn(1), of ?seg0] touches_contents [OF rm(1), of ?seg0] seg0 p by simp
  moreover have "contents K4 (segment_name ?p c) = None" if "0 < c" "c < ?n" for c
  proof -
    have "segment_name ?p c \<notin> {?tmp, ?seg0}" "segment_name ?p c \<noteq> ?ix"
      using p small [OF that(2)] that by (auto simp: segment_name_inj)
    then show ?thesis
      using touches_contents [OF wn(1)] touches_contents [OF rm(1)] touches_contents [OF K2(2)] K1(3) that
      by simp
  qed
  moreover have "handle_on (Some g) ?ix K4" using g(2) same by (simp add: s3_def)
  ultimately show thesis using fin t wn(2) by (intro that [where K' = K4 and g = g]) auto
qed

section \<open>compact\<close>

lemma replay_entry_of:
  assumes "distinct_keys m"
  shows "replay (map entry_of m) = m"
proof -
  let ?s = "new_store 0 0 empty_kernel"
  have "foldl (\<lambda>s e. apply_entry e s) (?s\<lparr>index := []\<rparr>) (map entry_of m) = ?s\<lparr>index := []\<rparr>\<lparr>index := [] @ m\<rparr>"
    by (rule replay_entries_of) (use assms in simp_all)
  from trans [OF foldl_apply_entry [symmetric] this]
  have "?s\<lparr>index := replay (map entry_of m)\<rparr> = ?s\<lparr>index := m\<rparr>" by simp
  from arg_cong [OF this, of index] show ?thesis by simp
qed

lemma prune_kern: "prune_index_to_max_recs (s\<lparr>kern := K\<rparr>) =
    (fst (prune_index_to_max_recs s), (snd (prune_index_to_max_recs s))\<lparr>kern := K\<rparr>)"
proof -
  have "candidate_of (s\<lparr>kern := K\<rparr>) = candidate_of s"
    by (rule ext) (simp add: candidate_of_def effective_ttl_def)
  then have "eviction_keys n (s\<lparr>kern := K\<rparr>) = eviction_keys n s" for n
    by (simp add: eviction_keys_def)
  then show ?thesis by (simp add: prune_index_to_max_recs_def Let_def foldl_index_remove)
qed

lemma all_live_facts:
  assumes "\<forall>(k, iv) \<in> set (index s). entry_ok (kern s) (base_prefix s) n k iv" "distinct_keys (index s)"
  shows "\<forall>r \<in> set (all_live clk s n). is_put r" "distinct (map rec_key (all_live clk s n))"
    "length (all_live clk s n) \<le> length (index s)"
    "r \<in> set (all_live clk s n) \<longleftrightarrow> (\<exists>k iv. (k, iv) \<in> set (index s) \<and> is_live clk s (k, iv) \<and>
       entry_record (kern s) (base_prefix s) iv = Some r \<and> rec_key r = k)"
proof -
  note m = all_live_mset [OF assms(1), of clk]
  let ?live = "filter (is_live clk s) (index s)"
  have rec: "entry_record (kern s) (base_prefix s) iv = Some (entry_rec s (k, iv)) \<and>
      rec_key (entry_rec s (k, iv)) = k \<and> is_put (entry_rec s (k, iv))" if "(k, iv) \<in> set (index s)" for k iv
  proof -
    from that assms(1) have "entry_ok (kern s) (base_prefix s) n k iv" by auto
    then obtain h v bs where "entry_record (kern s) (base_prefix s) iv = Some (h, k, v)" "wf_record (h, k, v)"
        "rh_flags h AND FLAG_DELETE = 0" by (rule entry_okE)
    then show ?thesis by (simp add: entry_rec_def is_put_def)
  qed
  have set: "set (all_live clk s n) = entry_rec s ` set ?live" using m by (metis set_map set_mset_mset)
  show "\<forall>r \<in> set (all_live clk s n). is_put r" using rec by (auto simp: set)
  have "map rec_key (map (entry_rec s) ?live) = map fst ?live" using rec by auto
  moreover have "mset (map rec_key (all_live clk s n)) = mset (map rec_key (map (entry_rec s) ?live))"
    by (simp only: mset_map m)
  ultimately show "distinct (map rec_key (all_live clk s n))"
    using assms(2) by (metis distinct_keys_filter mset_eq_imp_distinct_iff)
  have "length (all_live clk s n) = length ?live" using m by (metis length_map size_mset)
  then show "length (all_live clk s n) \<le> length (index s)" by simp
  show "r \<in> set (all_live clk s n) \<longleftrightarrow> (\<exists>k iv. (k, iv) \<in> set (index s) \<and> is_live clk s (k, iv) \<and>
       entry_record (kern s) (base_prefix s) iv = Some r \<and> rec_key r = k)"
    using rec by (auto simp: set image_iff) (metis option.inject)
qed

lemma rec_size_bound: "wf_record r \<Longrightarrow> rec_size r \<le> 1113"
  by (cases r) (auto simp: wf_record_def rec_size_def enc_rec_def HEADER_SIZE_def COMMIT_SIZE_def
      MAX_KEY_LEN_def MAX_VALUE_LEN_def)

lemma enc_log_bound: "\<forall>r \<in> set rs. wf_record r \<Longrightarrow> length (enc_log rs) \<le> 1113 * length rs"
proof (induction rs)
  case (Cons r rs)
  then show ?case using rec_size_bound [of r] by (simp add: rec_size_def)
qed simp

lemma map_of_log_index_None: "map_of (log_index off rs) k = None \<longleftrightarrow> k \<notin> rec_key ` set rs"
  by (metis log_index_keys list.set_map map_of_eq_None_iff)

text \<open>The bound on the number of keys keeps the compacted segment below the 16 MiB that the offsets of
  the index can address.\<close>

definition max_keys :: nat where "max_keys = 15000"

definition compacted :: "clock \<Rightarrow> store \<Rightarrow> store \<Rightarrow> bool" where
  "compacted clk s s' \<longleftrightarrow> same_config s s' \<and>
     disk_ok (kern s') (base_prefix s) (unat (segment_count s)) (index s') \<and>
     stored s' = visible clk (snd (prune_index_to_max_recs s)) \<and>
     contents (kern s') (index_name (base_prefix s)) = Some (enc_entries (map entry_of (index s'))) \<and>
     handle_on (index_file s') (index_name (base_prefix s)) (kern s') \<and>
     (\<forall>c. 0 < c \<longrightarrow> c < unat (segment_count s) \<longrightarrow> contents (kern s') (segment_name (base_prefix s) c) = None) \<and>
     length (index s') \<le> length (index (snd (prune_index_to_max_recs s))) \<and>
     active_file s' = active_file s \<and> write_buf s' = write_buf s \<and> dead_since_compact s' = 0"

text \<open>Up to the commit: the journal is written, the temporary file holds the live records.\<close>

lemma compact_copied:
  assumes disk: "disk_ok (kern s) (base_prefix s) (unat (segment_count s)) (index s)"
    and sp_def: "sp = snd (prune_index_to_max_recs s)"
  obtains K1 outf K2 K3 where
    "write_journal JOURNAL_COMPACTING 0 0 s = s\<lparr>kern := K1\<rparr>"
    "fs_open (tmp_name (base_prefix s)) ModeWrite K1 = (Some outf, K2)"
    "snd (prune_index_to_max_recs (s\<lparr>kern := K1\<rparr>\<lparr>kern := K2\<rparr>)) = sp\<lparr>kern := K2\<rparr>"
    "compact_segments clk [0..<unat (segment_count s)] outf 0 (sp\<lparr>kern := K2\<rparr>) =
       (True, unat (segment_count s), sp\<lparr>kern := K3\<rparr>)"
    "touches ({tmp_name (base_prefix s), journal_name (base_prefix s)} \<union>
       segment_name (base_prefix s) ` {..<unat (segment_count s)}) (kern s) K3"
    "contents K3 (tmp_name (base_prefix s)) = Some (enc_log (all_live clk (sp\<lparr>kern := K2\<rparr>) (unat (segment_count s))))"
    "\<forall>i < unat (segment_count s). contents K3 (segment_name (base_prefix s) i) = None"
    "\<forall>(k, iv) \<in> set (index sp). entry_ok K2 (base_prefix s) (unat (segment_count s)) k iv"
    "\<And>k iv. (k, iv) \<in> set (index sp) \<Longrightarrow> entry_record K2 (base_prefix s) iv = entry_record (kern s) (base_prefix s) iv"
    "\<And>k iv. (k, iv) \<in> set (index sp) \<Longrightarrow> entry_ok (kern s) (base_prefix s) (unat (segment_count s)) k iv"
proof -
  let ?p = "base_prefix s" and ?n = "unat (segment_count s)"
  let ?tmp = "tmp_name ?p" and ?jn = "journal_name ?p" and ?ix = "index_name ?p"
  have p: "prefix_ok ?p" and wf: "healthy (kern s)" "kernel_wf (kern s)"
    using disk by (simp_all add: disk_ok_def)
  have small: "c < 256" if "c < ?n" for c using that by (rule segment_count_less)
  obtain K1 where K1: "write_journal JOURNAL_COMPACTING 0 0 s = s\<lparr>kern := K1\<rparr>" "touches {?jn} (kern s) K1"
    by (rule write_journal_ok [OF wf])
  note wf1 = touches_wf [OF K1(2)]
  obtain outf t K2 where K2: "fs_open ?tmp ModeWrite K1 = (Some outf, K2)" "touches {?tmp} K1 K2"
      "dir K2 ?tmp = Some t" "inodes K2 t = []" "tail_handle outf t K2"
    by (rule fs_open_write [OF conjunct1 [OF wf1] conjunct2 [OF wf1]])
  note wf2 = touches_wf [OF K2(2)]
  define s2 where "s2 = sp\<lparr>kern := K2\<rparr>"
  have pr: "snd (prune_index_to_max_recs (s\<lparr>kern := K1\<rparr>\<lparr>kern := K2\<rparr>)) = s2"
    using prune_kern [where s = s and K = K2] by (simp add: s2_def sp_def)
  have spf: "base_prefix sp = ?p" "segment_count sp = segment_count s" "kern sp = kern s"
      "policy_ttl_secs sp = policy_ttl_secs s" "same_config s sp" "active_file sp = active_file s"
      "write_buf sp = write_buf s"
    by (simp_all add: sp_def prune_frame same_config_def)
  have s2f: "base_prefix s2 = ?p" "segment_count s2 = segment_count s" "kern s2 = K2" "index s2 = index sp"
    using spf by (simp_all add: s2_def)
  have sub: "set (index sp) \<subseteq> set (index s)" unfolding sp_def by (rule prune_index_subset)
  have ok: "entry_ok (kern s) ?p ?n k iv" if "(k, iv) \<in> set (index sp)" for k iv
  proof -
    have "distinct_keys (index s)" using disk by (simp add: disk_ok_def)
    moreover have "(k, iv) \<in> set (index s)" using that sub by auto
    ultimately show ?thesis by (intro disk_ok_entry [OF disk]) simp
  qed
  have t12: "touches {?jn, ?tmp} (kern s) K2" using touches_trans [OF K1(2) K2(2)] by (rule touches_mono) auto
  have segs: "contents K2 (segment_name ?p c) = contents (kern s) (segment_name ?p c)" if "c < ?n" for c
    using touches_contents [OF t12] p small [OF that] by simp
  have ok2: "entry_ok K2 ?p ?n k iv" "entry_record K2 ?p iv = entry_record (kern s) ?p iv"
    if "(k, iv) \<in> set (index sp)" for k iv
  proof -
    have "\<exists>xs. contents K2 (segment_name ?p c) = Some (bs @ xs)"
      if "c < ?n" "contents (kern s) (segment_name ?p c) = Some bs" for c bs
      using segs [OF that(1)] that(2) by (intro exI [of _ "[]"]) simp
    with entry_ok_mono [OF ok [OF that]] show "entry_ok K2 ?p ?n k iv"
      "entry_record K2 ?p iv = entry_record (kern s) ?p iv" by blast+
  qed
  have entries: "\<forall>(k, iv) \<in> set (index s2). entry_ok (kern s2) (base_prefix s2) ?n k iv"
    using ok2(1) s2f by auto
  obtain K3 where K3: "compact_segments clk [0..<?n] outf 0 s2 = (True, ?n, s2\<lparr>kern := K3\<rparr>)"
      "touches ({?tmp, ?jn} \<union> segment_name ?p ` set [0..<?n]) K2 K3" "contents K3 ?tmp = Some (enc_log (all_live clk s2 ?n))"
      "\<forall>i < ?n. contents K3 (segment_name ?p i) = None"
    using compact_segments_ok [OF entries, of s2 K2 t "[]" outf "[0..<?n]" clk 0] p wf2 K2(3-5) s2f small
    by (auto simp: all_live_def s2_def)
  have t13: "touches ({?tmp, ?jn} \<union> segment_name ?p ` {..<?n}) (kern s) K3"
    using touches_trans [OF t12 K3(2)] by (rule touches_mono) auto
  show thesis
    by (rule that [OF K1(1) K2(1) pr [unfolded s2_def] _ t13])
      (use K3 entries ok ok2(2) s2f in \<open>simp_all add: s2_def\<close>)
qed

text \<open>A segment 0 that holds the live records, with the index written for it, is a sound disk.\<close>

lemma compacted_disk_ok:
  assumes wf: "healthy K" "kernel_wf K" "prefix_ok p" "contents K (journal_name p) = None"
    and seg: "contents K (segment_name p 0) = Some (enc_log R)"
    and ix: "contents K (index_name p) = Some (enc_entries (map entry_of (log_index 0 R)))"
    and R: "\<forall>r \<in> set R. is_put r" "distinct (map rec_key R)" "length (enc_log R) < 2 ^ 24" and n: "0 < n"
  shows "disk_ok K p n (log_index 0 R)"
    "map_of (log_index 0 R) k = Some iv \<Longrightarrow>
       entry_ok K p n k iv \<and> (\<exists>r \<in> set R. rec_key r = k \<and> entry_record K p iv = Some r)"
proof -
  have new: "entry_ok K p n k iv \<and> (\<exists>r \<in> set R. rec_key r = k \<and> entry_record K p iv = Some r)"
    if "map_of (log_index 0 R) k = Some iv" for k iv
    using log_index_entry [of "[]" R k iv K p n] that R seg n by simp
  then show "map_of (log_index 0 R) k = Some iv \<Longrightarrow>
      entry_ok K p n k iv \<and> (\<exists>r \<in> set R. rec_key r = k \<and> entry_record K p iv = Some r)" .
  have dix: "distinct_keys (log_index 0 R)" using R(2) by (simp only: log_index_keys)
  have "\<forall>e \<in> set (map entry_of (log_index 0 R)). length (fst e) \<le> MAX_KEY_LEN"
  proof
    fix e assume "e \<in> set (map entry_of (log_index 0 R))"
    then obtain k iv where "(k, iv) \<in> set (log_index 0 R)" "fst e = k" by (auto simp: entry_of_def)
    then have "map_of (log_index 0 R) k = Some iv" using dix by simp
    from new [OF this] \<open>fst e = k\<close> show "length (fst e) \<le> MAX_KEY_LEN"
      by (auto simp: entry_ok_def wf_record_def split: option.splits prod.splits)
  qed
  then show "disk_ok K p n (log_index 0 R)"
    unfolding disk_ok_def using wf ix dix new
    by (intro conjI exI [of _ "map entry_of (log_index 0 R)"]) (simp_all add: replay_entry_of)
qed

text \<open>An entry is visible when it is live, with the payload of its record.\<close>

lemma visible_entry:
  assumes "(k, iv) \<in> set (index s)" "distinct_keys (index s)"
    "entry_ok (kern s) (base_prefix s) n k iv"
  shows "visible clk s k = (if is_live clk s (k, iv)
    then map_option payload_of (entry_record (kern s) (base_prefix s) iv) else None)"
proof -
  obtain h v bs where e: "entry_record (kern s) (base_prefix s) iv = Some (h, k, v)"
      "payload_of (h, k, v) = (v, iv_timestamp iv, u24_get (iv_ttl iv), iv_priority iv)"
    by (rule entry_okE [OF assms(3)])
  have "map_of (index s) k = Some iv" using assms(1,2) by simp
  with e show ?thesis
    by (simp add: visible_def stored_def is_live_def is_ttl_expired_payload [of _ _ _ s v "iv_priority iv"])
qed

text \<open>A log is packed when it holds one record for each visible key, that of its visible value, and nothing else:
  no tombstone, no record that was overwritten or removed, none that has expired.\<close>

definition packed :: "clock \<Rightarrow> store \<Rightarrow> bytes \<Rightarrow> bool" where
  "packed clk s bs \<longleftrightarrow> (\<exists>R. bs = enc_log R \<and> (\<forall>r \<in> set R. is_put r) \<and> distinct (map rec_key R) \<and>
     rec_key ` set R = dom (visible clk s) \<and> (\<forall>r \<in> set R. visible clk s (rec_key r) = Some (payload_of r)))"

lemma all_live_iff:
  assumes ent: "\<forall>(k, iv) \<in> set (index s). entry_ok K (base_prefix s) n k iv" and dist: "distinct_keys (index s)"
    and same: "\<forall>(k, iv) \<in> set (index s).
      entry_record K (base_prefix s) iv = entry_record (kern s) (base_prefix s) iv"
  shows "r \<in> set (all_live clk (s\<lparr>kern := K\<rparr>) n) \<longleftrightarrow> (\<exists>k iv. (k, iv) \<in> set (index s) \<and> is_live clk s (k, iv) \<and>
    entry_record (kern s) (base_prefix s) iv = Some r \<and> rec_key r = k)"
proof -
  let ?t = "s\<lparr>kern := K\<rparr>"
  have "\<forall>(k, iv) \<in> set (index ?t). entry_ok (kern ?t) (base_prefix ?t) n k iv" "distinct_keys (index ?t)"
    using ent dist by simp_all
  note live = all_live_facts(4) [OF this, of r clk]
  have "is_live clk ?t = is_live clk s" by (simp add: fun_eq_iff is_live_def is_ttl_expired_def)
  with live same show ?thesis by fastforce
qed

lemma all_live_packed:
  assumes ent: "\<forall>(k, iv) \<in> set (index s). entry_ok K (base_prefix s) n k iv" and dist: "distinct_keys (index s)"
    and same: "\<forall>(k, iv) \<in> set (index s).
      entry_record K (base_prefix s) iv = entry_record (kern s) (base_prefix s) iv"
    and ok: "\<forall>(k, iv) \<in> set (index s). entry_ok (kern s) (base_prefix s) n k iv"
  shows "packed clk s (enc_log (all_live clk (s\<lparr>kern := K\<rparr>) n))"
proof -
  let ?R = "all_live clk (s\<lparr>kern := K\<rparr>) n"
  have "\<forall>(k, iv) \<in> set (index (s\<lparr>kern := K\<rparr>)). entry_ok (kern (s\<lparr>kern := K\<rparr>)) (base_prefix (s\<lparr>kern := K\<rparr>)) n k iv"
    "distinct_keys (index (s\<lparr>kern := K\<rparr>))" using ent dist by simp_all
  note facts = all_live_facts(1,2) [OF this]
  note live = all_live_iff [OF ent dist same, where clk = clk]
  have vis: "visible clk s k = (if is_live clk s (k, iv)
      then map_option payload_of (entry_record (kern s) (base_prefix s) iv) else None)"
    if "(k, iv) \<in> set (index s)" for k iv
    using ok that by (intro visible_entry [OF that dist, of n]) auto
  have val: "visible clk s (rec_key r) = Some (payload_of r)" if "r \<in> set ?R" for r
  proof -
    from live [of r] that obtain iv where "(rec_key r, iv) \<in> set (index s)" "is_live clk s (rec_key r, iv)"
        "entry_record (kern s) (base_prefix s) iv = Some r" by auto
    then show ?thesis by (simp add: vis)
  qed
  have "k \<in> rec_key ` set ?R" if pl: "visible clk s k = Some pl" for k pl
  proof -
    obtain iv where "map_of (index s) k = Some iv"
      using pl by (cases "map_of (index s) k") (simp_all add: visible_def stored_missing)
    then have mem: "(k, iv) \<in> set (index s)" by (rule map_of_SomeD)
    have "entry_ok (kern s) (base_prefix s) n k iv" using ok mem by auto
    then obtain h v bs where e: "entry_record (kern s) (base_prefix s) iv = Some (h, k, v)"
      by (rule entry_okE)
    have "is_live clk s (k, iv)" using pl vis [OF mem] by (simp split: if_splits)
    with mem e have "(h, k, v) \<in> set ?R" using live [of "(h, k, v)"] by auto
    then show ?thesis by force
  qed
  then have "dom (visible clk s) \<subseteq> rec_key ` set ?R" by (simp add: subset_iff dom_def) blast
  moreover have "rec_key ` set ?R \<subseteq> dom (visible clk s)" using val by (blast intro: domI)
  ultimately have "rec_key ` set ?R = dom (visible clk s)" by (rule subset_antisym [rotated])
  with val facts show ?thesis unfolding packed_def by blast
qed

text \<open>What the rebuilt index leads to is exactly what was visible.\<close>

lemma compacted_stored:
  assumes ok: "\<And>k iv. (k, iv) \<in> set (index s) \<Longrightarrow> entry_ok (kern s) (base_prefix s) n k iv"
    and dist: "distinct_keys (index s)"
    and live: "\<And>r. r \<in> set R \<longleftrightarrow> (\<exists>k iv. (k, iv) \<in> set (index s) \<and> is_live clk s (k, iv) \<and>
       entry_record (kern s) (base_prefix s) iv = Some r \<and> rec_key r = k)"
    and s': "index s' = log_index 0 R" "base_prefix s' = base_prefix s"
    and new: "\<And>k iv. map_of (log_index 0 R) k = Some iv \<Longrightarrow>
       \<exists>r \<in> set R. rec_key r = k \<and> entry_record (kern s') (base_prefix s) iv = Some r"
  shows "stored s' k = visible clk s k"
proof (cases "map_of (log_index 0 R) k")
  case None
  then have notin: "k \<notin> rec_key ` set R" by (simp add: map_of_log_index_None)
  have "visible clk s k = None"
  proof (cases "map_of (index s) k")
    case (Some iv)
    then have mem: "(k, iv) \<in> set (index s)" by (rule map_of_SomeD)
    obtain h v bs where e: "entry_record (kern s) (base_prefix s) iv = Some (h, k, v)"
      by (rule entry_okE [OF ok [OF mem]])
    have "\<not> is_live clk s (k, iv)"
    proof
      assume "is_live clk s (k, iv)"
      with mem e have "(h, k, v) \<in> set R" using live [of "(h, k, v)"] by auto
      with notin show False by force
    qed
    then show ?thesis by (simp add: visible_entry [OF mem dist ok [OF mem]])
  qed (simp add: visible_def stored_missing)
  with None show ?thesis by (simp add: stored_def s')
next
  case (Some iv')
  from new [OF this] obtain r where r: "r \<in> set R" "rec_key r = k"
      "entry_record (kern s') (base_prefix s) iv' = Some r" by blast
  from r(1,2) live [of r] obtain iv where iv: "(k, iv) \<in> set (index s)" "is_live clk s (k, iv)"
      "entry_record (kern s) (base_prefix s) iv = Some r" by auto
  with Some r(3) show ?thesis
    by (simp add: visible_entry [OF iv(1) dist ok [OF iv(1)]] stored_def s')
qed

lemma enc_log_small:
  assumes "\<forall>r \<in> set R. is_put r" "length R \<le> max_keys"
  shows "length (enc_log R) < 2 ^ 24"
proof -
  have "length (enc_log R) \<le> 1113 * length R" using assms(1) by (intro enc_log_bound) (simp add: is_put_def)
  also have "\<dots> \<le> 1113 * max_keys" using assms(2) by simp
  finally show ?thesis by (simp add: max_keys_def)
qed

text \<open>From the commit mark to the cleared journal.\<close>

lemma commit_ok:
  assumes wf: "healthy (kern s)" "kernel_wf (kern s)" and p: "prefix_ok (base_prefix s)"
    and n: "0 < unat (segment_count s)"
    and tmp: "contents (kern s) (tmp_name (base_prefix s)) = Some (enc_log R)"
    and R: "\<forall>r \<in> set R. is_put r" "distinct (map rec_key R)"
  obtains K g where
    "clear_journal (finalize_compaction (write_journal JOURNAL_COMMIT 0 0 s)) =
       s\<lparr>kern := K, index_file := Some g, index := log_index 0 R, current_segment := 0\<rparr>"
    "healthy K" "kernel_wf K" "contents K (journal_name (base_prefix s)) = None"
    "contents K (segment_name (base_prefix s) 0) = Some (enc_log R)"
    "\<forall>c. 0 < c \<longrightarrow> c < unat (segment_count s) \<longrightarrow> contents K (segment_name (base_prefix s) c) = None"
    "contents K (index_name (base_prefix s)) = Some (enc_entries (map entry_of (log_index 0 R)))"
    "handle_on (Some g) (index_name (base_prefix s)) K"
proof -
  let ?p = "base_prefix s" and ?n = "unat (segment_count s)"
  let ?tmp = "tmp_name ?p" and ?jn = "journal_name ?p" and ?ix = "index_name ?p"
  have small: "c < 256" if "c < ?n" for c using that by (rule segment_count_less)
  obtain K4 where K4: "write_journal JOURNAL_COMMIT 0 0 s = s\<lparr>kern := K4\<rparr>" "touches {?jn} (kern s) K4"
    by (rule write_journal_ok [OF wf])
  note wf4 = touches_wf [OF K4(2)]
  let ?s4 = "s\<lparr>kern := K4\<rparr>"
  have tmp4: "contents (kern ?s4) (tmp_name (base_prefix ?s4)) = Some (enc_log R)"
    using touches_contents [OF K4(2), of ?tmp] tmp p by simp
  have hyp4: "healthy (kern ?s4)" "kernel_wf (kern ?s4)" "prefix_ok (base_prefix ?s4)"
      "0 < unat (segment_count ?s4)"
    using wf4 p n by simp_all
  obtain K5 g where K5: "finalize_compaction ?s4 =
        ?s4\<lparr>kern := K5, index_file := Some g, index := log_index 0 R, current_segment := 0\<rparr>"
      "touches ({tmp_name (base_prefix ?s4), index_name (base_prefix ?s4)} \<union>
         segment_name (base_prefix ?s4) ` {..<unat (segment_count ?s4)}) (kern ?s4) K5"
      "contents K5 (segment_name (base_prefix ?s4) 0) = Some (enc_log R)"
      "\<forall>c. 0 < c \<longrightarrow> c < unat (segment_count ?s4) \<longrightarrow> contents K5 (segment_name (base_prefix ?s4) c) = None"
      "contents K5 (index_name (base_prefix ?s4)) = Some (enc_entries (map entry_of (log_index 0 R)))"
      "handle_on (Some g) (index_name (base_prefix ?s4)) K5"
    by (rule finalize_ok [OF hyp4 tmp4 R])
  note wf5 = touches_wf [OF K5(2)]
  note rm = touches_remove [OF conjunct1 [OF wf5] conjunct2 [OF wf5], of ?jn]
  note wf6 = touches_wf [OF rm(1)]
  have c6: "contents (fs_remove ?jn K5) (segment_name ?p c) = contents K5 (segment_name ?p c)" if "c < ?n" for c
    using rm(3) p small [OF that] by simp
  have "handle_on (Some g) ?ix (fs_remove ?jn K5)"
    using K5(6) touches_dir [OF rm(1), of ?ix] p by (simp add: handle_on_def)
  then show thesis
    using K4(1) K5(1,3-5) wf6 rm(3) c6 p n
    by (intro that [where K = "fs_remove ?jn K5" and g = g]) (simp_all add: clear_journal_def fs_remove_in_def)
qed

lemma compact_packed:
  assumes disk: "disk_ok (kern s) (base_prefix s) (unat (segment_count s)) (index s)"
    and n: "0 < unat (segment_count s)" and size: "length (index s) \<le> max_keys"
  obtains s' bs where "compact clk s = (True, s')" "compacted clk s s'"
    "contents (kern s') (segment_name (base_prefix s) 0) = Some bs" "packed clk (snd (prune_index_to_max_recs s)) bs"
proof -
  let ?p = "base_prefix s" and ?n = "unat (segment_count s)"
  let ?tmp = "tmp_name ?p" and ?jn = "journal_name ?p"
  have p: "prefix_ok ?p" using disk by (simp add: disk_ok_def)
  define sp where "sp = snd (prune_index_to_max_recs s)"
  obtain K1 outf K2 K3 where K1: "write_journal JOURNAL_COMPACTING 0 0 s = s\<lparr>kern := K1\<rparr>"
    and K2: "fs_open ?tmp ModeWrite K1 = (Some outf, K2)"
    and pr: "snd (prune_index_to_max_recs (s\<lparr>kern := K1\<rparr>\<lparr>kern := K2\<rparr>)) = sp\<lparr>kern := K2\<rparr>"
    and cs: "compact_segments clk [0..<?n] outf 0 (sp\<lparr>kern := K2\<rparr>) = (True, ?n, sp\<lparr>kern := K3\<rparr>)"
    and K3: "touches ({?tmp, ?jn} \<union> segment_name ?p ` {..<?n}) (kern s) K3"
    and tmp: "contents K3 ?tmp = Some (enc_log (all_live clk (sp\<lparr>kern := K2\<rparr>) ?n))"
    and gone: "\<forall>i < ?n. contents K3 (segment_name ?p i) = None"
    and ent: "\<forall>(k, iv) \<in> set (index sp). entry_ok K2 ?p ?n k iv"
    and same: "\<And>k iv. (k, iv) \<in> set (index sp) \<Longrightarrow> entry_record K2 ?p iv = entry_record (kern s) ?p iv"
    and ok: "\<And>k iv. (k, iv) \<in> set (index sp) \<Longrightarrow> entry_ok (kern s) ?p ?n k iv"
    using compact_copied [OF disk sp_def, of clk] by blast
  define s2 where "s2 = sp\<lparr>kern := K2\<rparr>"
  define R where "R = all_live clk s2 ?n"
  have spf: "base_prefix sp = ?p" "segment_count sp = segment_count s" "kern sp = kern s"
      "same_config s sp" "active_file sp = active_file s" "write_buf sp = write_buf s"
    by (simp_all add: sp_def prune_frame same_config_def)
  have s2f: "base_prefix s2 = ?p" "kern s2 = K2" "index s2 = index sp" using spf by (simp_all add: s2_def)
  have dist: "distinct_keys (index sp)" using disk by (simp add: sp_def prune_distinct disk_ok_def)
  have "\<forall>(k, iv) \<in> set (index s2). entry_ok (kern s2) (base_prefix s2) ?n k iv" "distinct_keys (index s2)"
    using ent dist s2f by simp_all
  note live = all_live_facts [OF this, where clk = clk, folded R_def, unfolded s2f]
  have size': "length R \<le> max_keys" using live(3) prune_length_le [of s] size by (simp add: sp_def)
  let ?s3 = "sp\<lparr>kern := K3\<rparr>"
  have s3: "healthy (kern ?s3)" "kernel_wf (kern ?s3)" "prefix_ok (base_prefix ?s3)"
      "0 < unat (segment_count ?s3)" "contents (kern ?s3) (tmp_name (base_prefix ?s3)) = Some (enc_log R)"
    using touches_wf [OF K3] p n tmp spf by (simp_all add: R_def s2_def)
  obtain K g where fin: "clear_journal (finalize_compaction (write_journal JOURNAL_COMMIT 0 0 ?s3)) =
        ?s3\<lparr>kern := K, index_file := Some g, index := log_index 0 R, current_segment := 0\<rparr>"
    and K: "healthy K" "kernel_wf K" "contents K (journal_name (base_prefix ?s3)) = None"
      "contents K (segment_name (base_prefix ?s3) 0) = Some (enc_log R)"
      "\<forall>c. 0 < c \<longrightarrow> c < unat (segment_count ?s3) \<longrightarrow> contents K (segment_name (base_prefix ?s3) c) = None"
      "contents K (index_name (base_prefix ?s3)) = Some (enc_entries (map entry_of (log_index 0 R)))"
      "handle_on (Some g) (index_name (base_prefix ?s3)) K"
    by (rule commit_ok [OF s3 live(1,2)])
  define s' where "s' = ?s3\<lparr>kern := K, index_file := Some g, index := log_index 0 R, current_segment := 0,
      dead_since_compact := 0\<rparr>"
  have comp: "compact clk s = (True, s')"
    unfolding compact_def Let_def K1 using K2 cs pr spf fin by (simp add: s'_def)
  note disk' = compacted_disk_ok [OF K(1,2) s3(3) K(3,4,6) live(1,2) enc_log_small [OF live(1) size'] n]
  have ent': "\<forall>(k, iv) \<in> set (index sp). entry_ok K2 (base_prefix sp) ?n k iv"
    and ok': "\<forall>(k, iv) \<in> set (index sp). entry_ok (kern sp) (base_prefix sp) ?n k iv"
    and same': "\<forall>(k, iv) \<in> set (index sp).
      entry_record K2 (base_prefix sp) iv = entry_record (kern sp) (base_prefix sp) iv"
    using ent ok same spf by auto
  note iff = all_live_iff [OF ent' dist same', where clk = clk, folded s2_def, folded R_def]
  have pack: "packed clk sp (enc_log R)"
    using all_live_packed [OF ent' dist same' ok', of clk] by (simp add: R_def s2_def)
  note stored = compacted_stored [where s' = s' and n = ?n, OF _ dist iff]
  have "stored s' k = visible clk sp k" for k
    using ok' disk'(2) spf by (intro stored) (auto simp: s'_def)
  moreover have "length (log_index 0 R) \<le> length (index sp)"
    using live(3) by (metis length_map log_index_keys)
  moreover have "same_config s s'" using spf by (simp add: same_config_def s'_def)
  ultimately have "compacted clk s s'"
    unfolding compacted_def using disk'(1) K(5-7) spf
    by (simp add: s'_def sp_def [symmetric] fun_eq_iff)
  then show thesis
    by (rule that [OF comp, of "enc_log R"]) (use K(4) pack spf in \<open>simp_all add: s'_def sp_def [symmetric]\<close>)
qed

lemma compact_ok:
  assumes "disk_ok (kern s) (base_prefix s) (unat (segment_count s)) (index s)"
    and "0 < unat (segment_count s)" "length (index s) \<le> max_keys"
  obtains s' where "compact clk s = (True, s')" "compacted clk s s'"
  using compact_packed [OF assms, of clk] by metis

end
