(* ===== verification/StoreCorrectness.thy ===== *)
theory StoreCorrectness
  imports CompactionProof
begin

text \<open>
  The public operations of \<open>FileStore\<close> against the abstract store: \<open>put\<close>, \<open>remove\<close> and \<open>compact\<close>, with
  every rotation and compaction they may start, on a disk without faults.
\<close>

section \<open>Opening a segment\<close>

lemma append_handle_seek: "append_handle f i \<Longrightarrow> append_handle (snd (file_seek n m f K)) i"
  by (auto simp: append_handle_def file_seek_def pf_seek_def sys_lseek_def pf_is_valid_def Let_def
      split: option.splits prod.splits)

lemma append_handle_seek_end:
  "append_handle f i \<Longrightarrow> file_tell (snd (file_seek 0 SeekModeEnd f K)) = length (inodes K i)"
  by (auto simp: append_handle_def file_seek_def pf_seek_def sys_lseek_def sys_size_def Let_def
      file_tell_def pf_tell_def split: option.splits)

lemma close_active_shape: "\<exists>f. close_active s = s\<lparr>active_file := f\<rparr>"
  by (cases "valid_file (active_file s)") (auto simp: close_active_def intro: exI [of _ "active_file s"])

lemma open_segment_shape:
  assumes "healthy (kern s)" "kernel_wf (kern s)"
  obtains f where "snd (open_segment c s) = s\<lparr>active_file := Some f,
      kern := create_ino (segment_name (base_prefix s) c) (kern s), current_segment := c,
      current_offset := (case contents (kern s) (segment_name (base_prefix s) c) of
        None \<Rightarrow> 0 | Some bs \<Rightarrow> length bs)\<rparr>"
    "handle_on (Some f) (segment_name (base_prefix s) c) (create_ino (segment_name (base_prefix s) c) (kern s))"
    "fst (open_segment c s)"
proof -
  let ?q = "segment_name (base_prefix s) c"
  obtain a where a: "close_active s = s\<lparr>active_file := a\<rparr>" using close_active_shape by blast
  obtain f i where f: "fs_open ?q ModeReadAppend (kern s) = (Some f, create_ino ?q (kern s))"
      "dir (create_ino ?q (kern s)) ?q = Some i" "append_handle f i"
    using fs_open_append [OF assms(1), of ModeReadAppend ?q] by blast
  let ?f = "snd (file_seek 0 SeekModeEnd f (create_ino ?q (kern s)))"
  have "contents (create_ino ?q (kern s)) ?q = Some (inodes (create_ino ?q (kern s)) i)"
    using f(2) by (simp add: contents_def)
  with contents_create [OF assms(2), of ?q ?q]
  have "length (inodes (create_ino ?q (kern s)) i) =
      (case contents (kern s) ?q of None \<Rightarrow> 0 | Some bs \<Rightarrow> length bs)"
    by (auto split: option.splits if_splits)
  with f a append_handle_seek_end [OF f(3)] show thesis
    by (intro that [of ?f]) (auto simp: open_segment_def Let_def handle_on_def intro: append_handle_seek)
qed

lemma disk_ok_create:
  assumes "disk_ok K p n m" "n \<le> 256" "c < n"
  shows "disk_ok (create_ino (segment_name p c) K) p n m"
    "entry_ok K p n k iv \<Longrightarrow> entry_record (create_ino (segment_name p c) K) p iv = entry_record K p iv"
proof -
  have wf: "healthy K" "kernel_wf K" and p: "prefix_ok p" using assms(1) by (simp_all add: disk_ok_def)
  note cr = contents_create [OF wf(2), of "segment_name p c"]
  have grow: "\<exists>xs. contents (create_ino (segment_name p c) K) (segment_name p i) = Some (bs @ xs)"
    if "i < n" "contents K (segment_name p i) = Some bs" for i bs
    using that by (intro exI [of _ "[]"]) (auto simp: cr)
  have e: "entry_ok (create_ino (segment_name p c) K) p n k iv"
      "entry_record (create_ino (segment_name p c) K) p iv = entry_record K p iv"
    if "entry_ok K p n k iv" for k iv
    using entry_ok_mono [OF that grow] by blast+
  then show "entry_ok K p n k iv \<Longrightarrow> entry_record (create_ino (segment_name p c) K) p iv = entry_record K p iv"
    by blast
  have "contents (create_ino (segment_name p c) K) (index_name p) = contents K (index_name p)"
    "contents (create_ino (segment_name p c) K) (journal_name p) = contents K (journal_name p)"
    using p assms(2,3) by (simp_all add: cr)
  then show "disk_ok (create_ino (segment_name p c) K) p n m"
    using assms(1) e(1) wf unfolding disk_ok_def
    by (metis create_ino_simps(1) kernel_wf_create)
qed

lemma store_ok_opened:
  assumes "fs_valid s" "2 \<le> unat (segment_count s)" "write_buf s = []"
    and disk: "disk_ok (kern s) (base_prefix s) (unat (segment_count s)) (index s)"
    and c: "c < unat (segment_count s)"
    and high: "\<forall>i. c < i \<longrightarrow> i < unat (segment_count s) \<longrightarrow>
        contents (kern s) (segment_name (base_prefix s) i) = None"
    and ixf: "handle_on (index_file s) (index_name (base_prefix s)) (kern s)"
  shows "store_ok (snd (open_segment c s))" "stored (snd (open_segment c s)) = stored s"
    "same_config s (snd (open_segment c s))" "index (snd (open_segment c s)) = index s"
    "current_segment (snd (open_segment c s)) = c"
    "current_offset (snd (open_segment c s)) =
       (case contents (kern s) (segment_name (base_prefix s) c) of None \<Rightarrow> 0 | Some bs \<Rightarrow> length bs)"
    "dead_since_compact (snd (open_segment c s)) = dead_since_compact s"
proof -
  let ?p = "base_prefix s" and ?n = "unat (segment_count s)"
  let ?q = "segment_name ?p c"
  let ?K = "create_ino ?q (kern s)"
  have wf: "healthy (kern s)" "kernel_wf (kern s)" and p: "prefix_ok ?p"
    using disk by (simp_all add: disk_ok_def)
  have c256: "c < 256" using c by (rule segment_count_less)
  obtain f where f: "snd (open_segment c s) = s\<lparr>active_file := Some f, kern := ?K, current_segment := c,
      current_offset := (case contents (kern s) ?q of None \<Rightarrow> 0 | Some bs \<Rightarrow> length bs)\<rparr>"
    "handle_on (Some f) ?q ?K" by (rule open_segment_shape [OF wf])
  note cr = contents_create [OF wf(2), of ?q]
  note d = disk_ok_create [OF disk segment_count_le c]
  have "handle_on (index_file s) (index_name ?p) ?K"
    using ixf c256 p by (auto simp: handle_on_def)
  moreover have "contents ?K (segment_name ?p i) = None" if "c < i" "i < ?n" for i
    using high that c256 p segment_count_less [OF that(2)] by (simp add: cr segment_name_inj)
  moreover have "contents ?K ?q = Some (case contents (kern s) ?q of None \<Rightarrow> [] | Some bs \<Rightarrow> bs)"
    by (simp add: cr split: option.split)
  ultimately show "store_ok (snd (open_segment c s))"
    unfolding f(1) store_ok_def using assms d(1) f(2) by (simp split: option.split)
  show "stored (snd (open_segment c s)) = stored s"
  proof
    fix k
    have "entry_record ?K ?p iv = entry_record (kern s) ?p iv" if "map_of (index s) k = Some iv" for iv
      by (rule d(2) [OF disk_ok_entry [OF disk that]])
    then show "stored (snd (open_segment c s)) k = stored s k"
      unfolding f(1) by (intro stored_eqI) simp_all
  qed
  show "same_config s (snd (open_segment c s))" "index (snd (open_segment c s)) = index s"
    "current_segment (snd (open_segment c s)) = c"
    "current_offset (snd (open_segment c s)) =
       (case contents (kern s) ?q of None \<Rightarrow> 0 | Some bs \<Rightarrow> length bs)"
    "dead_since_compact (snd (open_segment c s)) = dead_since_compact s"
    by (simp_all add: f(1) same_config_def)
qed

section \<open>Steps that lose nothing\<close>

text \<open>What a rotation or a compaction does to the visible store: nothing, unless a record limit is set;
  then it may evict.\<close>

definition keeps :: "clock \<Rightarrow> store \<Rightarrow> store \<Rightarrow> bool" where
  "keeps clk s s' \<longleftrightarrow> same_config s s' \<and> visible clk s' \<subseteq>\<^sub>m visible clk s \<and>
     (policy_max_recs s = 0 \<longrightarrow> visible clk s' = visible clk s) \<and> length (index s') \<le> length (index s)"

lemma keeps_trans: "keeps clk a b \<Longrightarrow> keeps clk b c \<Longrightarrow> keeps clk a c"
  unfolding keeps_def by (auto intro: map_le_trans same_config_trans simp: same_config_def)

lemma stored_cong:
  "index s' = index s \<Longrightarrow> kern s' = kern s \<Longrightarrow> base_prefix s' = base_prefix s \<Longrightarrow> stored s' = stored s"
  by (rule ext) (simp add: stored_def cong: option.case_cong)

lemma visible_cong:
  "stored s' = stored s \<Longrightarrow> policy_ttl_secs s' = policy_ttl_secs s \<Longrightarrow> visible clk s' = visible clk s"
  by (rule ext) (simp add: visible_def cong: option.case_cong)

lemma keepsI:
  "stored s' = stored s \<Longrightarrow> same_config s s' \<Longrightarrow> length (index s') \<le> length (index s) \<Longrightarrow> keeps clk s s'"
proof -
  assume a: "stored s' = stored s" "same_config s s'" "length (index s') \<le> length (index s)"
  then have "policy_ttl_secs s' = policy_ttl_secs s" by (simp add: same_config_def)
  with a have "visible clk s' = visible clk s" by (intro visible_cong)
  with a show "keeps clk s s'" by (simp add: keeps_def)
qed

lemma visible_visible:
  assumes "stored s' = visible clk s" "policy_ttl_secs s' = policy_ttl_secs s"
  shows "visible clk s' = visible clk s"
proof
  fix k
  have st: "stored s' k = visible clk s k" by (simp add: assms(1))
  show "visible clk s' k = visible clk s k"
  proof (cases "visible clk s k")
    case None
    with st show ?thesis by (simp add: visible_def [of clk s'])
  next
    case (Some pl)
    then have "\<not> expired clk (policy_ttl_secs s) pl" by (auto simp: visible_def split: option.splits if_splits)
    with Some st assms(2) show ?thesis by (simp add: visible_def [of clk s'])
  qed
qed

lemma visible_prune:
  assumes "distinct_keys (index s)"
  shows "visible clk (snd (prune_index_to_max_recs s)) \<subseteq>\<^sub>m visible clk s"
proof -
  let ?s = "snd (prune_index_to_max_recs s)"
  have "map_of (index ?s) \<subseteq>\<^sub>m map_of (index s)"
    using assms by (intro map_le_filter prune_index_subset prune_distinct)
  then have "stored ?s k = stored s k" if "stored ?s k \<noteq> None" for k
    using that by (auto simp: stored_def prune_frame map_le_def split: option.splits) (force simp: domI)+
  then show ?thesis
    by (auto simp: map_le_def visible_def prune_frame dom_def split: option.splits)
qed

lemma compacted_keeps:
  assumes "compacted clk s s'" "distinct_keys (index s)"
  shows "keeps clk s s'"
proof -
  let ?sp = "snd (prune_index_to_max_recs s)"
  have v: "visible clk s' = visible clk ?sp"
    using assms(1) by (intro visible_visible) (simp_all add: compacted_def prune_frame same_config_def)
  have "length (index s') \<le> length (index s)"
    using assms(1) prune_length_le [of s] by (simp add: compacted_def)
  then show ?thesis
    using assms v visible_prune [OF assms(2)] by (auto simp: keeps_def compacted_def prune_off)
qed

lemma store_ok_segs_high:
  "store_ok s \<Longrightarrow> current_segment s < c \<Longrightarrow> c < unat (segment_count s) \<Longrightarrow>
   contents (kern s) (segment_name (base_prefix s) c) = None"
  by (simp add: store_ok_def)

text \<open>\<open>t\<close> differs from \<open>s\<close> in the active file, the counters and the cooldown only.\<close>

definition same_data :: "store \<Rightarrow> store \<Rightarrow> bool" where
  "same_data s t \<longleftrightarrow> kern t = kern s \<and> index t = index s \<and> index_file t = index_file s \<and> same_config s t \<and>
     write_buf t = write_buf s"

text \<open>After a compaction the store is opened again at segment 1.\<close>

lemma compacted_reopen:
  assumes disk: "disk_ok (kern s) (base_prefix s) (unat (segment_count s)) (index s)"
    and s: "fs_valid s" "2 \<le> unat (segment_count s)" "write_buf s = []"
    and s': "compacted clk s s'" and t: "same_data s' t"
  shows "store_ok (snd (open_segment 1 t))" "keeps clk s (snd (open_segment 1 t))"
    "current_offset (snd (open_segment 1 t)) = 0" "stored (snd (open_segment 1 t)) = stored s'"
    "index (snd (open_segment 1 t)) = index s'" "base_prefix (snd (open_segment 1 t)) = base_prefix s"
    "contents (kern (snd (open_segment 1 t))) (index_name (base_prefix s)) = Some (enc_entries (map entry_of (index s')))"
proof -
  have dist: "distinct_keys (index s)" using disk by (simp add: disk_ok_def)
  note keep = compacted_keeps [OF s' dist]
  have cfg: "base_prefix s' = base_prefix s" "segment_count s' = segment_count s" "fs_valid s' = fs_valid s"
    using s' by (simp_all add: compacted_def same_config_def)
  have t': "kern t = kern s'" "index t = index s'" "index_file t = index_file s'" "same_config s' t"
      "write_buf t = write_buf s'"
    using t by (simp_all add: same_data_def)
  have tc: "base_prefix t = base_prefix s" "segment_count t = segment_count s" "fs_valid t = fs_valid s"
    using t'(4) cfg by (simp_all add: same_config_def)
  have hyps: "fs_valid t" "2 \<le> unat (segment_count t)" "write_buf t = []"
    "disk_ok (kern t) (base_prefix t) (unat (segment_count t)) (index t)"
    "1 < unat (segment_count t)"
    "\<forall>i. 1 < i \<longrightarrow> i < unat (segment_count t) \<longrightarrow> contents (kern t) (segment_name (base_prefix t) i) = None"
    "handle_on (index_file t) (index_name (base_prefix t)) (kern t)"
    using s s' t'(1-3,5) tc by (simp_all add: compacted_def)
  have none: "contents (kern t) (segment_name (base_prefix t) 1) = None"
    using s' s(2) t'(1) tc by (simp add: compacted_def)
  note op = store_ok_opened [OF hyps]
  have st: "stored t = stored s'" using t'(1,2) tc cfg by (intro stored_cong) simp_all
  then have "keeps clk s' (snd (open_segment 1 t))"
    using op(2-4) t'(2,4) by (intro keepsI) (auto intro: same_config_trans)
  with keep show "keeps clk s (snd (open_segment 1 t))" by (rule keeps_trans)
  show "store_ok (snd (open_segment 1 t))" "current_offset (snd (open_segment 1 t)) = 0"
    "stored (snd (open_segment 1 t)) = stored s'" "index (snd (open_segment 1 t)) = index s'"
    using op(1,2,4,6) none st t'(2) by simp_all
  show "base_prefix (snd (open_segment 1 t)) = base_prefix s" using op(3) tc by (simp add: same_config_def)
  have p: "prefix_ok (base_prefix t)" "healthy (kern t)" "kernel_wf (kern t)" using hyps(4) by (simp_all add: disk_ok_def)
  have ix: "contents (kern t) (index_name (base_prefix s)) = Some (enc_entries (map entry_of (index s')))"
    using s' t'(1) by (simp add: compacted_def)
  show "contents (kern (snd (open_segment 1 t))) (index_name (base_prefix s)) = Some (enc_entries (map entry_of (index s')))"
    by (rule open_segment_shape [OF p(2,3), of 1]) (use p ix tc in \<open>simp add: contents_create\<close>)
qed

lemma compact_reopen:
  assumes disk: "disk_ok (kern s) (base_prefix s) (unat (segment_count s)) (index s)"
    and s: "fs_valid s" "2 \<le> unat (segment_count s)" "write_buf s = []" "length (index s) \<le> max_keys"
  obtains s' where "compact clk s = (True, s')" "compacted clk s s'"
    "\<And>b x. store_ok (snd (open_segment 1 (s'\<lparr>compact_in_cooldown := b, current_segment := x\<rparr>))) \<and>
       keeps clk s (snd (open_segment 1 (s'\<lparr>compact_in_cooldown := b, current_segment := x\<rparr>))) \<and>
       current_offset (snd (open_segment 1 (s'\<lparr>compact_in_cooldown := b, current_segment := x\<rparr>))) = 0"
    "\<And>x. store_ok (snd (open_segment 1 (s'\<lparr>current_segment := x\<rparr>))) \<and>
       keeps clk s (snd (open_segment 1 (s'\<lparr>current_segment := x\<rparr>)))"
proof -
  have "0 < unat (segment_count s)" using s(2) by simp
  then obtain s' where s': "compact clk s = (True, s')" "compacted clk s s'"
    using compact_ok [OF disk _ s(4)] by metis
  note one = compacted_reopen [OF disk s(1-3) s'(2)]
  show thesis
    by (rule that [OF s']) (use one in \<open>simp_all add: same_data_def same_config_def\<close>)
qed

lemma compact_if_threshold_ok:
  assumes "store_ok s" "length (index s) \<le> max_keys"
  shows "store_ok (compact_if_threshold clk s) \<and> keeps clk s (compact_if_threshold clk s)"
proof -
  have s: "disk_ok (kern s) (base_prefix s) (unat (segment_count s)) (index s)" "fs_valid s"
    "2 \<le> unat (segment_count s)" "write_buf s = []"
    using assms(1) by (simp_all add: store_ok_def)
  obtain s' where s': "compact clk s = (True, s')"
    "\<And>x. store_ok (snd (open_segment 1 (s'\<lparr>current_segment := x\<rparr>))) \<and>
       keeps clk s (snd (open_segment 1 (s'\<lparr>current_segment := x\<rparr>)))"
    using compact_reopen [OF s assms(2), of clk] by metis
  have "keeps clk s s" by (rule keepsI) simp_all
  with s' assms(1) show ?thesis by (simp add: compact_if_threshold_def Let_def)
qed

lemma rotate_cases:
  assumes ok: "store_ok s" and size: "length (index s) \<le> max_keys"
  obtains (stay) "snd (rotate_segment_if_needed clk w s) = s"
  | (segment) c t where "snd (rotate_segment_if_needed clk w s) = snd (open_segment c t)" "same_data s t"
      "c < unat (segment_count s)"
      "\<forall>i. c < i \<longrightarrow> i < unat (segment_count s) \<longrightarrow> contents (kern s) (segment_name (base_prefix s) i) = None"
      "(case contents (kern s) (segment_name (base_prefix s) c) of None \<Rightarrow> 0 | Some bs \<Rightarrow> length bs) \<le> current_offset s"
  | (compacted) u s' t where "snd (rotate_segment_if_needed clk w s) = snd (open_segment 1 t)" "same_data s u"
      "compacted clk u s'" "same_data s' t"
proof (cases "current_offset s + w + HEADER_SIZE + COMMIT_SIZE < unat (segment_size s)")
  case True
  then show thesis by (intro stay) (simp add: rotate_segment_if_needed_def)
next
  case False
  let ?n = "unat (segment_count s)" and ?p = "base_prefix s"
  obtain a where a: "close_active s = s\<lparr>active_file := a\<rparr>" using close_active_shape by blast
  let ?s = "s\<lparr>active_file := a, current_segment := Suc (current_segment s)\<rparr>"
  have s: "disk_ok (kern s) ?p ?n (index s)" "fs_valid s" "2 \<le> ?n" "write_buf s = []" "current_segment s < ?n"
    using ok by (simp_all add: store_ok_def)
  have rot: "rotate_segment_if_needed clk w s =
      (if current_segment ?s < ?n then (True, snd (open_segment (current_segment ?s) ?s))
       else if compact_in_cooldown ?s \<and> clk_millis clk - compact_cooldown_start_ms ?s < COMPACT_RETRY_MS then
         (False, snd (open_segment (?n - 1) (s\<lparr>active_file := a, current_segment := ?n - 1\<rparr>)))
       else case compact clk ?s of
           (False, s) \<Rightarrow>
             (False, snd (open_segment (unat (segment_count s) - 1)
                (s\<lparr>compact_in_cooldown := True, compact_cooldown_start_ms := clk_millis clk,
                   current_segment := unat (segment_count s) - 1\<rparr>)))
         | (True, s) \<Rightarrow>
             (True, snd (open_segment 1 (s\<lparr>compact_in_cooldown := False, current_segment := 1\<rparr>))))"
    unfolding rotate_segment_if_needed_def Let_def using False s(4) a by simp
  consider (next_seg) "Suc (current_segment s) < ?n"
    | (cooldown) "\<not> Suc (current_segment s) < ?n"
        "compact_in_cooldown s \<and> clk_millis clk - compact_cooldown_start_ms s < COMPACT_RETRY_MS"
    | (compact) "\<not> Suc (current_segment s) < ?n"
        "\<not> (compact_in_cooldown s \<and> clk_millis clk - compact_cooldown_start_ms s < COMPACT_RETRY_MS)"
    by blast
  then show thesis
  proof cases
    case next_seg
    have "contents (kern s) (segment_name ?p (Suc (current_segment s))) = None"
      using store_ok_segs_high [OF ok _ next_seg] by simp
    then show thesis
      by (intro segment [of "Suc (current_segment s)" ?s])
        (use next_seg store_ok_segs_high [OF ok] rot in \<open>simp_all add: same_data_def same_config_def\<close>)
  next
    case cooldown
    then have cur: "current_segment s = ?n - 1" using s(5) by linarith
    have "current_offset s = (case contents (kern s) (segment_name ?p (?n - 1)) of None \<Rightarrow> 0 | Some bs \<Rightarrow> length bs)"
      using ok unfolding store_ok_def cur by (auto split: option.splits)
    moreover have "?n - 1 < ?n" using s(5) by linarith
    ultimately show thesis
      by (intro segment [of "?n - 1" "s\<lparr>active_file := a, current_segment := ?n - 1\<rparr>"])
        (use cooldown rot in \<open>auto simp: same_data_def same_config_def\<close>)
  next
    case compact
    have disk: "disk_ok (kern ?s) (base_prefix ?s) (unat (segment_count ?s)) (index ?s)" "fs_valid ?s"
      "2 \<le> unat (segment_count ?s)" "write_buf ?s = []" "length (index ?s) \<le> max_keys"
      using s size by simp_all
    obtain s' where s': "compact clk ?s = (True, s')" "compacted clk ?s s'"
      by (rule compact_reopen [OF disk, of clk]) blast
    have "snd (rotate_segment_if_needed clk w s) =
        snd (open_segment 1 (s'\<lparr>compact_in_cooldown := False, current_segment := 1\<rparr>))"
      unfolding rot s'(1) using compact by auto
    then show thesis
      by (rule compacted [OF _ _ s'(2)]) (simp_all add: same_data_def same_config_def)
  qed
qed

lemma same_data_disk:
  assumes "store_ok s" "same_data s u"
  shows "disk_ok (kern u) (base_prefix u) (unat (segment_count u)) (index u)" "fs_valid u"
    "2 \<le> unat (segment_count u)" "write_buf u = []" "handle_on (index_file u) (index_name (base_prefix u)) (kern u)"
    "stored u = stored s"
proof -
  show "stored u = stored s" using assms(2) by (intro stored_cong) (simp_all add: same_data_def same_config_def)
qed (use assms in \<open>simp_all add: store_ok_def same_data_def same_config_def\<close>)

lemma rotate_ok:
  assumes ok: "store_ok s" and size: "length (index s) \<le> max_keys"
  shows "store_ok (snd (rotate_segment_if_needed clk w s)) \<and> keeps clk s (snd (rotate_segment_if_needed clk w s)) \<and>
    current_offset (snd (rotate_segment_if_needed clk w s)) \<le> current_offset s"
proof (rule rotate_cases [OF assms, of clk w])
  assume "snd (rotate_segment_if_needed clk w s) = s"
  moreover have "keeps clk s s" by (rule keepsI) simp_all
  ultimately show ?thesis using ok by simp
next
  fix c t
  assume r: "snd (rotate_segment_if_needed clk w s) = snd (open_segment c t)" and t: "same_data s t"
    and c: "c < unat (segment_count s)"
      "\<forall>i. c < i \<longrightarrow> i < unat (segment_count s) \<longrightarrow> contents (kern s) (segment_name (base_prefix s) i) = None"
      "(case contents (kern s) (segment_name (base_prefix s) c) of None \<Rightarrow> 0 | Some bs \<Rightarrow> length bs) \<le> current_offset s"
  note d = same_data_disk [OF ok t]
  have e: "base_prefix t = base_prefix s" "segment_count t = segment_count s" "kern t = kern s" "index t = index s"
      "same_config s t"
    using t by (simp_all add: same_data_def same_config_def)
  have c': "c < unat (segment_count t)"
    "\<forall>i. c < i \<longrightarrow> i < unat (segment_count t) \<longrightarrow> contents (kern t) (segment_name (base_prefix t) i) = None"
    using c(1,2) e(1-3) by simp_all
  note op = store_ok_opened [OF d(2-4,1) c' d(5)]
  have "keeps clk s (snd (open_segment c t))"
    using op(2-4) d(6) e by (intro keepsI) (auto intro: same_config_trans)
  then show ?thesis using op(1,6) c(3) e(1-3) by (simp add: r)
next
  fix u s' t
  assume r: "snd (rotate_segment_if_needed clk w s) = snd (open_segment 1 t)" and u: "same_data s u"
    and c: "compacted clk u s'" "same_data s' t"
  note d = same_data_disk [OF ok u]
  note one = compacted_reopen [OF d(1-4) c]
  have "keeps clk s u" using u d(6) by (intro keepsI) (simp_all add: same_data_def)
  then show ?thesis using one(1-3) by (auto simp: r intro: keeps_trans)
qed

section \<open>put and remove\<close>

text \<open>The visible store after a \<open>put\<close>: the new record (unless it is expired from the start), everything
  else as before.\<close>

definition put_visible :: "clock \<Rightarrow> store \<Rightarrow> bytes \<Rightarrow> payload \<Rightarrow> (bytes \<Rightarrow> payload option)" where
  "put_visible clk s key pl = (visible clk s)(key := if expired clk (policy_ttl_secs s) pl then None else Some pl)"

lemma visible_upd:
  assumes "stored s' = (stored s)(key \<mapsto> pl)" "policy_ttl_secs s' = policy_ttl_secs s"
  shows "visible clk s' = put_visible clk s key pl"
  by (rule ext) (simp add: assms visible_def put_visible_def cong: option.case_cong)

lemma visible_upd_le:
  assumes "stored s' \<subseteq>\<^sub>m (stored s)(key \<mapsto> pl)" "policy_ttl_secs s' = policy_ttl_secs s"
  shows "visible clk s' \<subseteq>\<^sub>m put_visible clk s key pl"
  unfolding map_le_def
proof
  fix k assume "k \<in> dom (visible clk s')"
  then obtain pl' where pl': "stored s' k = Some pl'" "\<not> expired clk (policy_ttl_secs s) pl'"
      "visible clk s' k = Some pl'"
    using assms(2) by (auto simp: visible_def split: option.splits if_splits)
  then have "((stored s)(key \<mapsto> pl)) k = Some pl'" using assms(1) unfolding map_le_def by (metis domI)
  with pl' show "visible clk s' k = put_visible clk s key pl k"
    by (auto simp: put_visible_def visible_def split: if_splits)
qed

text \<open>a \<open>put\<close> on a good store succeeds, whatever rotation or compaction it goes through. Afterwards
  the key has the new value, timestamp, TTL (modulo \<open>2 ^ 24\<close>) and priority, and without a record limit
  all other keys are as before; with a limit, at most that many keys are left, each as it was.\<close>

lemma store_put_ok:
  assumes "store_ok s" "0 < length key" "length key \<le> MAX_KEY_LEN" "length data \<le> MAX_VALUE_LEN"
    "length (index s) < max_keys" "current_offset s < 2 ^ 24"
  shows "fst (store_put clk key data ttl ts pr s) \<and> store_ok (snd (store_put clk key data ttl ts pr s)) \<and>
    visible clk (snd (store_put clk key data ttl ts pr s))
      \<subseteq>\<^sub>m put_visible clk s key (put_payload data ts ttl pr) \<and>
    (policy_max_recs s = 0 \<longrightarrow> visible clk (snd (store_put clk key data ttl ts pr s))
      = put_visible clk s key (put_payload data ts ttl pr)) \<and>
    (policy_max_recs s \<noteq> 0 \<longrightarrow>
      length (index (snd (store_put clk key data ttl ts pr s))) \<le> unat (policy_max_recs s)) \<and>
    same_config s (snd (store_put clk key data ttl ts pr s)) \<and>
    length (index (snd (store_put clk key data ttl ts pr s))) \<le> Suc (length (index s))"
proof -
  let ?pl = "put_payload data ts ttl pr"
  let ?r = "snd (rotate_segment_if_needed clk (length data) s)"
  have r: "store_ok ?r" "keeps clk s ?r" "current_offset ?r \<le> current_offset s"
    using rotate_ok [OF assms(1), of clk "length data"] assms(5) by simp_all
  have "current_offset ?r < 2 ^ 24" using r(3) assms(6) by simp
  then obtain s1 s2 where w: "write_record (put_header key data ttl ts pr) key data ?r = (True, s1)"
    "s2 = commit_put key (length data) (current_offset ?r) ttl ts pr s1"
    "store_ok s2" "same_config ?r s2" "stored s2 \<subseteq>\<^sub>m (stored ?r)(key \<mapsto> ?pl)"
    "policy_max_recs ?r = 0 \<Longrightarrow> stored s2 = (stored ?r)(key \<mapsto> ?pl)"
    "policy_max_recs ?r \<noteq> 0 \<Longrightarrow> length (index s2) \<le> unat (policy_max_recs ?r)"
    "length (index s2) \<le> Suc (length (index ?r))"
    using put_core_ok [OF r(1) assms(2-4), where ts = ts and ttl = ttl and pr = pr] by blast
  have size: "length (index s2) \<le> max_keys" using w(8) r(2) assms(5) by (simp add: keeps_def)
  let ?s' = "compact_if_threshold clk s2"
  have c: "store_ok ?s'" "keeps clk s2 ?s'" using compact_if_threshold_ok [OF w(3) size] by simp_all
  have valid: "fs_valid s" using assms(1) by (simp add: store_ok_def)
  have lens: "\<not> length key > MAX_KEY_LEN" "\<not> length data > MAX_VALUE_LEN" using assms(3,4) by simp_all
  have put: "store_put clk key data ttl ts pr s = (True, ?s')"
    unfolding store_put_def Let_def w(1) w(2) using valid lens by simp
  have cfg: "policy_ttl_secs ?r = policy_ttl_secs s" "policy_max_recs ?r = policy_max_recs s"
      "policy_ttl_secs s2 = policy_ttl_secs ?r" "policy_max_recs s2 = policy_max_recs s"
    using r(2) w(4) by (simp_all add: keeps_def same_config_def)
  have le: "put_visible clk ?r key ?pl \<subseteq>\<^sub>m put_visible clk s key ?pl"
    using r(2) cfg by (auto simp: keeps_def put_visible_def map_le_def)
  have c1: "visible clk ?s' \<subseteq>\<^sub>m visible clk s2" using c(2) by (simp add: keeps_def)
  have "visible clk ?s' \<subseteq>\<^sub>m put_visible clk s key ?pl"
    by (rule map_le_trans [OF c1 map_le_trans [OF visible_upd_le [OF w(5) cfg(3)] le]])
  moreover have "visible clk ?s' = put_visible clk s key ?pl" if "policy_max_recs s = 0"
  proof -
    have "visible clk ?s' = visible clk s2" using c(2) that cfg by (simp add: keeps_def)
    also have "\<dots> = put_visible clk ?r key ?pl" using that cfg by (intro visible_upd w(6)) simp_all
    also have "\<dots> = put_visible clk s key ?pl"
      using r(2) that cfg by (simp add: keeps_def put_visible_def)
    finally show ?thesis .
  qed
  moreover have "length (index ?s') \<le> unat (policy_max_recs s)" if "policy_max_recs s \<noteq> 0"
    using c(2) w(7) that cfg by (simp add: keeps_def)
  moreover have "same_config s ?s'"
    using r(2) w(4) c(2) unfolding keeps_def by (metis same_config_trans)
  moreover have "length (index ?s') \<le> Suc (length (index s))"
    using w(8) r(2) c(2) by (simp add: keeps_def)
  ultimately show ?thesis using c(1) by (simp add: put)
qed

text \<open>a \<open>remove\<close> on a good store succeeds, the key is gone, and without a record limit all other keys
  are as before.\<close>

lemma store_remove_ok:
  assumes "store_ok s" "0 < length key" "length key \<le> MAX_KEY_LEN" "length (index s) \<le> max_keys"
  shows "fst (store_remove clk jt jp key s) \<and> store_ok (snd (store_remove clk jt jp key s)) \<and>
    visible clk (snd (store_remove clk jt jp key s)) \<subseteq>\<^sub>m (visible clk s)(key := None) \<and>
    (policy_max_recs s = 0 \<longrightarrow>
      visible clk (snd (store_remove clk jt jp key s)) = (visible clk s)(key := None)) \<and>
    same_config s (snd (store_remove clk jt jp key s)) \<and>
    length (index (snd (store_remove clk jt jp key s))) \<le> length (index s)"
proof -
  obtain s1 s2 where w:
    "snd (flush_buffer (append_all [enc_header (tombstone_header jt jp key), key, enc_commit MAGIC_COMMIT] s)) = s1"
    "s2 = commit_remove key s1" "store_ok s2" "same_config s s2" "stored s2 = (stored s)(key := None)"
    "length (index s2) \<le> length (index s)"
    using remove_core_ok [OF assms(1-3), where jt = jt and jp = jp] by blast
  let ?s' = "compact_if_threshold clk s2"
  have size: "length (index s2) \<le> max_keys" using w(6) assms(4) by simp
  have c: "store_ok ?s'" "keeps clk s2 ?s'" using compact_if_threshold_ok [OF w(3) size] by simp_all
  have valid: "fs_valid s" using assms(1) by (simp add: store_ok_def)
  have lens: "\<not> length key > MAX_KEY_LEN" using assms(3) by simp
  have rm: "store_remove clk jt jp key s = (True, ?s')"
    unfolding store_remove_def Let_def w(1) w(2) using valid lens by simp
  have cfg: "policy_ttl_secs s2 = policy_ttl_secs s" "policy_max_recs s2 = policy_max_recs s"
    using w(4) by (simp_all add: same_config_def)
  have "visible clk s2 = (visible clk s)(key := None)"
    by (rule ext) (simp add: w(5) cfg(1) visible_def cong: option.case_cong)
  moreover have "same_config s ?s'"
    using w(4) c(2) unfolding keeps_def by (metis same_config_trans)
  ultimately show ?thesis using c cfg(2) w(6) by (simp add: rm keeps_def)
qed

text \<open>a compaction from a good store succeeds; reopened at segment 1, as its callers inside the store
  do, the store is good again, nothing visible has changed unless a record limit evicts, and no dead
  record is left.\<close>

lemma store_compact_ok:
  assumes "store_ok s" "length (index s) \<le> max_keys"
  shows "fst (compact clk s) \<and> store_ok (snd (open_segment 1 (snd (compact clk s)))) \<and>
    visible clk (snd (open_segment 1 (snd (compact clk s)))) = visible clk (snd (prune_index_to_max_recs s)) \<and>
    (policy_max_recs s = 0 \<longrightarrow> visible clk (snd (open_segment 1 (snd (compact clk s)))) = visible clk s) \<and>
    (\<exists>bs. contents (kern (snd (compact clk s))) (segment_name (base_prefix s) 0) = Some bs \<and>
       packed clk (snd (prune_index_to_max_recs s)) bs) \<and>
    (\<forall>c. 0 < c \<longrightarrow> c < unat (segment_count s) \<longrightarrow>
       contents (kern (snd (compact clk s))) (segment_name (base_prefix s) c) = None)"
proof -
  have s: "disk_ok (kern s) (base_prefix s) (unat (segment_count s)) (index s)" "fs_valid s"
    "2 \<le> unat (segment_count s)" "write_buf s = []"
    using assms(1) by (simp_all add: store_ok_def)
  have "0 < unat (segment_count s)" using s(3) by simp
  then obtain s' bs where s': "compact clk s = (True, s')" "compacted clk s s'"
    "contents (kern s') (segment_name (base_prefix s) 0) = Some bs" "packed clk (snd (prune_index_to_max_recs s)) bs"
    using compact_packed [OF s(1) _ assms(2), of clk] by metis
  have "same_data s' s'" by (simp add: same_data_def)
  note re = compacted_reopen [OF s s'(2) this]
  have "stored (snd (open_segment 1 s')) = visible clk (snd (prune_index_to_max_recs s))"
    using re(4) s'(2) by (simp add: compacted_def)
  moreover have "policy_ttl_secs (snd (open_segment 1 s')) = policy_ttl_secs s"
    using re(2) by (simp add: keeps_def same_config_def)
  ultimately have v: "visible clk (snd (open_segment 1 s')) = visible clk (snd (prune_index_to_max_recs s))"
    by (intro visible_visible) (simp_all add: prune_frame)
  have "policy_max_recs s = 0 \<longrightarrow> visible clk (snd (open_segment 1 s')) = visible clk s"
    using re(2) by (simp add: keeps_def)
  moreover have "\<forall>c. 0 < c \<longrightarrow> c < unat (segment_count s) \<longrightarrow> contents (kern s') (segment_name (base_prefix s) c) = None"
    using s'(2) by (simp add: compacted_def)
  ultimately show ?thesis using re(1) v s' by auto
qed

end
