(* ===== verification/Reboot.thy ===== *)
theory Reboot
  imports StoreCorrectness
begin

text \<open>
  \<open>init\<close>: on an empty disk it gives a good, empty store; on the disk of a good store it shows every record
  that was visible. A power failure takes only what is in memory, so this is the persistence of
  \<open>FileStore\<close>.
\<close>

section \<open>Directories\<close>

lemma contents_subdirs [simp]: "contents (K\<lparr>subdirs := d\<rparr>) p = contents K p"
  by (simp add: contents_def)

lemma kernel_wf_subdirs [simp]: "kernel_wf (K\<lparr>subdirs := d\<rparr>) = kernel_wf K"
  by (simp add: kernel_wf_def)

lemma entry_ok_contents:
  assumes "\<And>q. contents K' q = contents K q"
  shows "entry_ok K' p n k iv = entry_ok K p n k iv" "entry_record K' p iv = entry_record K p iv"
  using assms by (simp_all add: entry_ok_def entry_record_def)

lemma disk_ok_contents:
  assumes "\<And>q. contents K' q = contents K q" "healthy K'" "kernel_wf K'" "disk_ok K p n m"
  shows "disk_ok K' p n m"
  using assms entry_ok_contents [OF assms(1)] by (simp add: disk_ok_def)

lemma fs_mkdir_shape: "healthy K \<Longrightarrow> \<exists>d. snd (fs_mkdir p K) = K\<lparr>subdirs := d\<rparr>"
  by (auto simp: fs_mkdir_def posix_mkdir_def sys_mkdir_def intro: exI [of _ "subdirs K"])

lemma make_prefix_dir_shape:
  assumes "healthy (kern s)"
  obtains d where "make_prefix_dir s = s\<lparr>kern := (kern s)\<lparr>subdirs := d\<rparr>\<rparr>"
proof (cases "base_prefix s \<noteq> [] \<and> last (base_prefix s) = CHR ''/''")
  case True
  with fs_mkdir_shape [OF assms, of "butlast (base_prefix s)"] show thesis
    by (auto simp: make_prefix_dir_def intro: that)
next
  case False
  then show thesis by (intro that [of "subdirs (kern s)"]) (auto simp: make_prefix_dir_def)
qed

lemma recover_no_journal:
  "contents (kern s) (journal_name (base_prefix s)) = None \<Longrightarrow> recover_if_needed s = s"
  by (simp add: recover_if_needed_def fs_open_read_missing)

section \<open>Resuming\<close>

lemma resume_segment_step:
  "foldl (\<lambda>r i. (case fs_open (segment_name p i) ModeRead K of (None, _) \<Rightarrow> r | (Some f, _) \<Rightarrow> i)) r xs =
   foldl (\<lambda>r i. if contents K (segment_name p i) = None then r else i) r xs"
  by (induction xs arbitrary: r) (auto simp: fs_open_read contents_def split: option.splits)

lemma foldl_last_index:
  assumes "P c" "\<And>i. c < i \<Longrightarrow> i < n \<Longrightarrow> \<not> P i" "c < n"
  shows "foldl (\<lambda>r i. if \<not> P i then r else i) r [0..<n] = c"
  using assms
proof (induction n arbitrary: c)
  case (Suc n)
  show ?case
  proof (cases "c = n")
    case True
    with Suc.prems show ?thesis by simp
  next
    case False
    with Suc.prems have "\<not> P n" "c < n" by auto
    moreover from this have "foldl (\<lambda>r i. if \<not> P i then r else i) r [0..<n] = c"
      using Suc.prems by (intro Suc.IH) auto
    ultimately show ?thesis by simp
  qed
qed simp

lemma foldl_no_index:
  "\<forall>i < n. \<not> P i \<Longrightarrow> foldl (\<lambda>r i. if \<not> P i then r else i) r [0..<n] = r"
  by (induction n) auto

lemma resume_segment_eq:
  "resume_segment s = foldl (\<lambda>r i. if \<not> contents (kern s) (segment_name (base_prefix s) i) \<noteq> None then r else i)
     0 [0..<unat (segment_count s)]"
  unfolding resume_segment_def resume_segment_step by simp

section \<open>Rebooting\<close>

text \<open>A store object before \<open>init\<close>: nothing in memory.\<close>

definition cold :: "store \<Rightarrow> bool" where
  "cold t \<longleftrightarrow> index t = [] \<and> write_buf t = [] \<and> policy_max_recs t = 0"

text \<open>The steps of \<open>init\<close> before the recovery leave the files alone.\<close>

lemma init_boot:
  assumes "healthy (kern t)" "kernel_wf (kern t)" "prefix_ok p" "cold t" "unat seg_count \<noteq> 0"
  obtains u where
    "store_init p False seg_size seg_count t =
      (True, let s = open_index_for_append (prune_at_boot (load_or_rebuild (recover_if_needed u)))
             in snd (open_segment (resume_segment s) s))"
    "base_prefix u = p" "segment_count u = seg_count" "fs_valid u" "index u = []" "write_buf u = []"
    "policy_max_recs u = 0" "policy_ttl_secs u = policy_ttl_secs t" "active_file u = active_file t"
    "healthy (kern u)" "kernel_wf (kern u)" "\<And>q. contents (kern u) q = contents (kern t) q"
    "segment_size u = (if seg_size > 0 then seg_size else segment_size t)"
    "dead_since_compact u = dead_since_compact t"
proof -
  define t1 where "t1 = (if seg_size > 0 then t\<lparr>segment_size := seg_size\<rparr> else t)"
  define t2 where "t2 = set_prefix p (t1\<lparr>segment_count := seg_count\<rparr>\<lparr>fs_valid := True\<rparr>)"
  have "length p \<le> MAX_FILENAME_LEN - Suc 0" using assms(3) by (simp add: prefix_ok_def MAX_FILENAME_LEN_def)
  then have k2: "kern t2 = kern t" "base_prefix t2 = p"
    by (simp_all add: t2_def t1_def set_prefix_def)
  obtain d where d: "make_prefix_dir t2 = t2\<lparr>kern := (kern t2)\<lparr>subdirs := d\<rparr>\<rparr>"
    using make_prefix_dir_shape [of t2] assms(1) k2 by metis
  define u where "u = t2\<lparr>kern := (kern t2)\<lparr>subdirs := d\<rparr>\<rparr>"
  have sc: "seg_count > 0" using assms(5) by (simp add: word_gt_0 unat_eq_0 [symmetric] del: unat_eq_0)
  have "store_init p False seg_size seg_count t =
      (True, let s = open_index_for_append (prune_at_boot (load_or_rebuild (recover_if_needed u)))
             in snd (open_segment (resume_segment s) s))"
    unfolding store_init_def Let_def t1_def [symmetric] if_P [OF sc]
    unfolding t2_def [symmetric] d u_def [symmetric] by simp
  moreover have "segment_count u = seg_count" "fs_valid u" "index u = []" "write_buf u = []"
    "policy_max_recs u = 0" "policy_ttl_secs u = policy_ttl_secs t" "active_file u = active_file t"
    "segment_size u = (if seg_size > 0 then seg_size else segment_size t)"
    "dead_since_compact u = dead_since_compact t"
    using assms(4) by (simp_all add: u_def t2_def t1_def set_prefix_def cold_def)
  ultimately show thesis
    using assms(1,2) k2 by (intro that [where u = u]) (simp_all add: u_def)
qed

lemma init_start:
  assumes "healthy (kern t)" "kernel_wf (kern t)" "prefix_ok p"
    "contents (kern t) (journal_name p) = None" "cold t" "unat seg_count \<noteq> 0"
  obtains u where
    "store_init p False seg_size seg_count t =
      (True, let s = open_index_for_append (prune_at_boot (load_or_rebuild u))
             in snd (open_segment (resume_segment s) s))"
    "base_prefix u = p" "segment_count u = seg_count" "fs_valid u" "index u = []" "write_buf u = []"
    "policy_max_recs u = 0" "policy_ttl_secs u = policy_ttl_secs t" "active_file u = active_file t"
    "healthy (kern u)" "kernel_wf (kern u)" "\<And>q. contents (kern u) q = contents (kern t) q"
    "segment_size u = (if seg_size > 0 then seg_size else segment_size t)"
    "dead_since_compact u = dead_since_compact t"
proof -
  obtain u where u: "store_init p False seg_size seg_count t =
      (True, let s = open_index_for_append (prune_at_boot (load_or_rebuild (recover_if_needed u)))
             in snd (open_segment (resume_segment s) s))"
    "base_prefix u = p" "segment_count u = seg_count" "fs_valid u" "index u = []" "write_buf u = []"
    "policy_max_recs u = 0" "policy_ttl_secs u = policy_ttl_secs t" "active_file u = active_file t"
    "healthy (kern u)" "kernel_wf (kern u)" "\<And>q. contents (kern u) q = contents (kern t) q"
    "segment_size u = (if seg_size > 0 then seg_size else segment_size t)"
    "dead_since_compact u = dead_since_compact t"
    by (rule init_boot [OF assms(1,2,3,5,6)]) blast
  have "recover_if_needed u = u"
    using assms(4) u(2,12) by (intro recover_no_journal) simp
  with u show thesis by (intro that [of u]) simp_all
qed

text \<open>The end of \<open>init\<close> on a disk with an index file, whose end may be torn.\<close>

lemma boot_loaded:
  assumes "healthy (kern u)" "kernel_wf (kern u)" "index u = []" "policy_max_recs u = 0"
    "contents (kern u) (index_name (base_prefix u)) = Some (enc_entries es @ torn)" "parse_entries torn = []"
    "\<forall>e \<in> set es. length (fst e) \<le> MAX_KEY_LEN"
  obtains g f where
    "open_index_for_append (prune_at_boot (load_or_rebuild u)) = u\<lparr>index := replay es, index_file := Some g\<rparr>"
    "handle_on (Some g) (index_name (base_prefix u)) (kern u)"
    "snd (open_segment c (u\<lparr>index := replay es, index_file := Some g\<rparr>)) =
       u\<lparr>index := replay es, index_file := Some g, active_file := Some f,
         kern := create_ino (segment_name (base_prefix u) c) (kern u), current_segment := c,
         current_offset := (case contents (kern u) (segment_name (base_prefix u) c) of None \<Rightarrow> 0 | Some bs \<Rightarrow> length bs)\<rparr>"
proof -
  have "load_index u = (True, foldl (\<lambda>s e. apply_entry e s) u es)"
    using assms(5-7) by (intro load_index_eq) simp_all
  moreover have "foldl (\<lambda>s e. apply_entry e s) u es = u\<lparr>index := replay es\<rparr>"
  proof -
    have "u\<lparr>index := []\<rparr> = u" by (rule store.equality) (simp_all add: assms(3))
    then show ?thesis using foldl_apply_entry [of u es] by simp
  qed
  ultimately have load: "load_or_rebuild u = u\<lparr>index := replay es\<rparr>" by (simp add: load_or_rebuild_def)
  let ?v = "u\<lparr>index := replay es\<rparr>"
  have prune: "prune_at_boot ?v = ?v" using assms(4) by (simp add: prune_at_boot_def prune_off)
  obtain j where j: "dir (kern u) (index_name (base_prefix u)) = Some j"
    using assms(5) by (auto simp: contents_def)
  have "healthy (kern ?v)" using assms(1) by simp
  then obtain g where g: "open_index_for_append ?v = ?v\<lparr>index_file := Some g,
      kern := create_ino (index_name (base_prefix ?v)) (kern ?v)\<rparr>"
    "handle_on (Some g) (index_name (base_prefix ?v)) (create_ino (index_name (base_prefix ?v)) (kern ?v))"
    by (rule open_index_ok)
  have cr: "create_ino (index_name (base_prefix ?v)) (kern ?v) = kern u"
    using create_existing [OF j] by simp
  let ?w = "u\<lparr>index := replay es, index_file := Some g\<rparr>"
  have w: "open_index_for_append ?v = ?w" using g(1) cr by simp
  have hw: "healthy (kern ?w)" "kernel_wf (kern ?w)" using assms(1,2) by simp_all
  obtain f where f: "snd (open_segment c ?w) = ?w\<lparr>active_file := Some f,
      kern := create_ino (segment_name (base_prefix ?w) c) (kern ?w), current_segment := c,
      current_offset := (case contents (kern ?w) (segment_name (base_prefix ?w) c) of
        None \<Rightarrow> 0 | Some bs \<Rightarrow> length bs)\<rparr>"
    by (rule open_segment_shape [OF hw, of c]) blast
  show thesis
    by (rule that [of g f]) (use load prune w f g(2) cr in simp_all)
qed

text \<open>A fresh store object initialised on the disk of a good store, with the same prefix and segment count,
  is good and has the index that the index file gives; so it shows whatever was visible.\<close>

lemma store_reboot:
  assumes ok: "store_ok s" and t: "cold t" "kern t = kern s" "policy_ttl_secs t = policy_ttl_secs s"
  obtains v es where "store_init (base_prefix s) False seg_size (segment_count s) t = (True, v)" "store_ok v"
    "contents (kern s) (index_name (base_prefix s)) = Some (enc_entries es)"
    "\<forall>e \<in> set es. length (fst e) \<le> MAX_KEY_LEN" "map_of (index s) \<subseteq>\<^sub>m map_of (replay es)"
    "index v = replay es" "base_prefix v = base_prefix s" "segment_count v = segment_count s"
    "policy_ttl_secs v = policy_ttl_secs s" "policy_max_recs v = 0" "current_offset v = current_offset s"
    "\<And>q. contents (kern v) q = contents (kern s) q"
proof -
  let ?p = "base_prefix s" and ?n = "unat (segment_count s)"
  have disk: "disk_ok (kern s) ?p ?n (index s)" and n: "2 \<le> ?n" and cur: "current_segment s < ?n"
    using ok by (simp_all add: store_ok_def)
  then have wf: "healthy (kern t)" "kernel_wf (kern t)" "prefix_ok ?p" "contents (kern t) (journal_name ?p) = None"
    using t(2) by (simp_all add: disk_ok_def)
  have n0: "unat (segment_count s) \<noteq> 0" using n by simp
  obtain u where u: "store_init ?p False seg_size (segment_count s) t =
      (True, let s = open_index_for_append (prune_at_boot (load_or_rebuild u))
             in snd (open_segment (resume_segment s) s))"
    "base_prefix u = ?p" "segment_count u = segment_count s" "fs_valid u" "index u = []" "write_buf u = []"
    "policy_max_recs u = 0" "policy_ttl_secs u = policy_ttl_secs t" "active_file u = active_file t"
    "healthy (kern u)" "kernel_wf (kern u)" "\<And>q. contents (kern u) q = contents (kern t) q"
    by (rule init_start [OF wf t(1) n0]) blast
  from disk obtain es where es: "contents (kern s) (index_name ?p) = Some (enc_entries es)"
      "\<forall>e \<in> set es. length (fst e) \<le> MAX_KEY_LEN"
      "\<forall>k iv. map_of (replay es) k = Some iv \<longrightarrow> entry_ok (kern s) ?p ?n k iv"
      "map_of (index s) \<subseteq>\<^sub>m map_of (replay es)"
    by (auto simp: disk_ok_def)
  have "load_index u = (True, foldl (\<lambda>s e. apply_entry e s) u es)"
    using es(1,2) u(2,12) t(2) by (intro load_index_eq [of _ _ "[]"]) simp_all
  moreover have "foldl (\<lambda>s e. apply_entry e s) u es = u\<lparr>index := replay es\<rparr>"
  proof -
    have "u\<lparr>index := []\<rparr> = u" by (rule store.equality) (simp_all add: u(5))
    then show ?thesis using foldl_apply_entry [of u es] by simp
  qed
  ultimately have load: "load_or_rebuild u = u\<lparr>index := replay es\<rparr>" by (simp add: load_or_rebuild_def)
  let ?v = "u\<lparr>index := replay es\<rparr>"
  have prune: "prune_at_boot ?v = ?v"
    using u(7) by (simp add: prune_at_boot_def prune_off)
  obtain j where j: "dir (kern u) (index_name ?p) = Some j"
    using es(1) u(12) [of "index_name ?p"] t(2) by (auto simp: contents_def)
  have "healthy (kern ?v)" using u(10) by simp
  then obtain g where g: "open_index_for_append ?v = ?v\<lparr>index_file := Some g,
      kern := create_ino (index_name (base_prefix ?v)) (kern ?v)\<rparr>"
    "handle_on (Some g) (index_name (base_prefix ?v)) (create_ino (index_name (base_prefix ?v)) (kern ?v))"
    by (rule open_index_ok)
  have cr: "create_ino (index_name (base_prefix ?v)) (kern ?v) = kern u"
    using create_existing [OF j] u(2) by simp
  define w where "w = u\<lparr>index := replay es, index_file := Some g\<rparr>"
  have ow: "open_index_for_append ?v = w" using g(1) cr by (simp add: w_def)
  have wk: "kern w = kern u" "base_prefix w = ?p" "segment_count w = segment_count s" by (simp_all add: w_def u)
  have cu: "contents (kern u) q = contents (kern s) q" for q using u(12) t(2) by simp
  then have c: "contents (kern w) q = contents (kern s) q" for q using wk by simp
  have cur_some: "contents (kern s) (segment_name ?p (current_segment s)) \<noteq> None"
    using ok by (simp add: store_ok_def)
  have high: "contents (kern s) (segment_name ?p i) = None" if "current_segment s < i" "i < ?n" for i
    using ok that by (simp add: store_ok_def)
  have res: "resume_segment w = current_segment s"
    unfolding resume_segment_eq wk cu using cur_some high cur by (intro foldl_last_index) auto
  have dm: "disk_ok (kern s) ?p ?n (replay es)"
    using disk es unfolding disk_ok_def by (auto simp: replay_distinct simp del: map_map)
  have dw: "disk_ok (kern w) (base_prefix w) (unat (segment_count w)) (index w)"
    using disk_ok_contents [OF c _ _ dm] u(10,11) wk by (simp add: w_def u(2,3))
  have hw: "handle_on (index_file w) (index_name (base_prefix w)) (kern w)"
    using g(2) cr wk by (simp add: w_def u(2))
  have hh: "\<forall>i. current_segment s < i \<longrightarrow> i < unat (segment_count w) \<longrightarrow>
      contents (kern w) (segment_name (base_prefix w) i) = None"
    using high wk cu by simp
  have vw: "fs_valid w" "2 \<le> unat (segment_count w)" "write_buf w = []" "current_segment s < unat (segment_count w)"
    using u(4,6) n cur wk by (simp_all add: w_def)
  note op = store_ok_opened [OF vw(1-3) dw vw(4) hh hw]
  have init: "store_init ?p False seg_size (segment_count s) t = (True, snd (open_segment (current_segment s) w))"
    unfolding u(1) load prune ow Let_def res ..
  obtain i where "dir (kern w) (segment_name ?p (current_segment s)) = Some i"
    using cur_some c [of "segment_name ?p (current_segment s)"] by (auto simp: contents_def)
  from create_existing [OF this]
  have cr': "create_ino (segment_name (base_prefix w) (current_segment s)) (kern w) = kern w" using wk by simp
  have "healthy (kern w)" "kernel_wf (kern w)" using u(10,11) wk by simp_all
  then obtain f where "snd (open_segment (current_segment s) w) = w\<lparr>active_file := Some f,
      kern := create_ino (segment_name (base_prefix w) (current_segment s)) (kern w), current_segment := current_segment s,
      current_offset := (case contents (kern w) (segment_name (base_prefix w) (current_segment s)) of
        None \<Rightarrow> 0 | Some bs \<Rightarrow> length bs)\<rparr>"
    by (rule open_segment_shape)
  then have "kern (snd (open_segment (current_segment s) w)) = kern w" using cr' by simp
  moreover have "current_offset (snd (open_segment (current_segment s) w)) = current_offset s"
    using op(6) c wk ok by (auto simp: store_ok_def split: option.splits)
  moreover have "policy_max_recs w = 0" "policy_ttl_secs w = policy_ttl_secs s" using u(7,8) t(3) by (simp_all add: w_def)
  ultimately show thesis
    using op(1,3,4) c wk es(4) by (intro that [OF init _ es(1,2)]) (simp_all add: same_config_def w_def)
qed

lemma store_init_ok:
  assumes ok: "store_ok s" and t: "cold t" "kern t = kern s" "policy_ttl_secs t = policy_ttl_secs s"
  shows "fst (store_init (base_prefix s) False seg_size (segment_count s) t) \<and>
    store_ok (snd (store_init (base_prefix s) False seg_size (segment_count s) t)) \<and>
    visible clk s \<subseteq>\<^sub>m visible clk (snd (store_init (base_prefix s) False seg_size (segment_count s) t))"
proof -
  obtain v es where v: "store_init (base_prefix s) False seg_size (segment_count s) t = (True, v)" "store_ok v"
    "map_of (index s) \<subseteq>\<^sub>m map_of (replay es)" "index v = replay es" "base_prefix v = base_prefix s"
    "policy_ttl_secs v = policy_ttl_secs s" "\<And>q. contents (kern v) q = contents (kern s) q"
    by (rule store_reboot [OF assms, of seg_size]) blast
  have "visible clk s \<subseteq>\<^sub>m visible clk v"
    unfolding map_le_def
  proof
    fix k assume "k \<in> dom (visible clk s)"
    then obtain iv where iv: "map_of (index s) k = Some iv" by (auto simp: visible_def stored_def split: option.splits)
    with v(3) have "map_of (replay es) k = Some iv" unfolding map_le_def by (metis domI)
    with iv entry_ok_contents(2) [OF v(7)] v(4,5) have "stored v k = stored s k" by (simp add: stored_def)
    then show "visible clk s k = visible clk v k" unfolding visible_def v(6) by simp
  qed
  with v(1,2) show ?thesis by simp
qed

end
