(* ===== verification/FreshStore.thy ===== *)
theory FreshStore
  imports Reboot
begin

text \<open>
  \<open>init\<close> on a disk that holds no file of the store: the result is a good store that shows nothing. A store
  initialised on an empty disk is the concrete instance of the correctness theorems.
\<close>

section \<open>An empty disk\<close>

lemma rebuild_segments_missing:
  assumes "\<forall>i \<in> set xs. contents (kern s) (segment_name (base_prefix s) i) = None"
  shows "foldl (\<lambda>s seg. rebuild_segment seg s) s xs = s"
  using assms by (induction xs) (simp_all add: rebuild_segment_def fs_open_read_missing)

definition no_files :: "kernel \<Rightarrow> string \<Rightarrow> nat \<Rightarrow> bool" where
  "no_files K p n \<longleftrightarrow> contents K (journal_name p) = None \<and> contents K (index_name p) = None \<and>
     (\<forall>i < n. contents K (segment_name p i) = None)"

lemma no_files_empty [simp]: "no_files empty_kernel p n"
  by (simp add: no_files_def contents_def empty_kernel_def)

text \<open>Without an index file the index is rebuilt, from no segment, and an empty index file is written.\<close>

lemma load_or_rebuild_empty:
  assumes h: "healthy (kern s)" "kernel_wf (kern s)" and p: "prefix_ok (base_prefix s)"
    and none: "no_files (kern s) (base_prefix s) (unat (segment_count s))" and ix: "index s = []"
  obtains K g where "load_or_rebuild s = s\<lparr>kern := K, index_file := g\<rparr>" "healthy K" "kernel_wf K"
    "contents K (index_name (base_prefix s)) = Some []" "contents K (journal_name (base_prefix s)) = None"
    "\<forall>i < unat (segment_count s). contents K (segment_name (base_prefix s) i) = None"
proof -
  let ?ix = "index_name (base_prefix s)"
  have n: "contents (kern s) ?ix = None" "\<forall>i < unat (segment_count s). contents (kern s) (segment_name (base_prefix s) i) = None"
    using none by (simp_all add: no_files_def)
  have s0: "s\<lparr>index := []\<rparr> = s" by (rule store.equality) (simp_all add: ix)
  have load: "load_index s = (False, s)"
    using n(1) by (simp add: load_index_def fs_open_read_missing)
  have segs: "foldl (\<lambda>s seg. rebuild_segment seg s) s [0..<unat (segment_count s)] = s"
    by (rule rebuild_segments_missing) (use n(2) in auto)
  obtain g where g: "close_index s = s\<lparr>index_file := g\<rparr>"
    using close_index_shape by blast
  define K1 where "K1 = fs_remove ?ix (kern s)"
  note rm = touches_remove [OF h, of ?ix, folded K1_def]
  note wf1 = touches_wf [OF rm(1)]
  define K2 where "K2 = write_new ?ix (enc_entries (map entry_of [])) K1"
  note wn = touches_write_new [OF conjunct1 [OF wf1] conjunct2 [OF wf1] rm(2), of "enc_entries (map entry_of [])",
      folded K2_def]
  note wf2 = touches_wf [OF wn(1)]
  define s1 where "s1 = s\<lparr>index_file := g, kern := K1\<rparr>"
  have "write_index_bulk s1 = (True, s1\<lparr>kern := K2\<rparr>)"
    using write_index_bulk_new [of s1] wf1 rm(2) by (simp add: s1_def K2_def ix)
  moreover have "fs_remove_in ?ix (s\<lparr>index_file := g\<rparr>) = s1"
    by (simp add: fs_remove_in_def s1_def K1_def)
  ultimately have "rebuild_index_from_segments s = s1\<lparr>kern := K2\<rparr>"
    unfolding rebuild_index_from_segments_def Let_def s0 segs g by simp
  then have fin: "load_or_rebuild s = s\<lparr>kern := K2, index_file := g\<rparr>"
    by (simp add: load_or_rebuild_def load s1_def)
  have other: "contents K2 q = contents (kern s) q" if "q \<noteq> ?ix" for q
    using touches_contents [OF rm(1), of q] touches_contents [OF wn(1), of q] that by simp
  have "contents K2 (segment_name (base_prefix s) i) = None" if "i < unat (segment_count s)" for i
    using other n(2) that store_names_distinct(1) [OF p segment_count_less [OF that]] by simp
  moreover have "contents K2 (journal_name (base_prefix s)) = None"
    using other none p by (simp add: no_files_def)
  ultimately show thesis using fin wf2 wn(2) by (intro that) auto
qed

lemma init_empty_ok:
  assumes "healthy K" "kernel_wf K" "prefix_ok p" "2 \<le> unat seg_count" "no_files K p (unat seg_count)"
  shows "fst (store_init p False seg_size seg_count (new_store sz c K)) \<and>
    store_ok (snd (store_init p False seg_size seg_count (new_store sz c K))) \<and>
    visible clk (snd (store_init p False seg_size seg_count (new_store sz c K))) = Map.empty \<and>
    index (snd (store_init p False seg_size seg_count (new_store sz c K))) = [] \<and>
    policy_max_recs (snd (store_init p False seg_size seg_count (new_store sz c K))) = 0 \<and>
    policy_ttl_secs (snd (store_init p False seg_size seg_count (new_store sz c K))) = 0 \<and>
    base_prefix (snd (store_init p False seg_size seg_count (new_store sz c K))) = p \<and>
    segment_count (snd (store_init p False seg_size seg_count (new_store sz c K))) = seg_count \<and>
    current_offset (snd (store_init p False seg_size seg_count (new_store sz c K))) = 0 \<and>
    dead_since_compact (snd (store_init p False seg_size seg_count (new_store sz c K))) = 0 \<and>
    segment_size (snd (store_init p False seg_size seg_count (new_store sz c K))) =
      (if seg_size > 0 then seg_size else sz) \<and>
    current_segment (snd (store_init p False seg_size seg_count (new_store sz c K))) = 0 \<and>
    contents (kern (snd (store_init p False seg_size seg_count (new_store sz c K)))) (index_name p) = Some []"
proof -
  let ?t = "new_store sz c K"
  have t: "kern ?t = K" "cold ?t" by (simp_all add: new_store_def cold_def)
  have n0: "unat seg_count \<noteq> 0" using assms(4) by simp
  have j: "contents (kern ?t) (journal_name p) = None" using assms(5) t by (simp add: no_files_def)
  obtain u where u: "store_init p False seg_size seg_count ?t =
      (True, let s = open_index_for_append (prune_at_boot (load_or_rebuild u))
             in snd (open_segment (resume_segment s) s))"
    "base_prefix u = p" "segment_count u = seg_count" "fs_valid u" "index u = []" "write_buf u = []"
    "policy_max_recs u = 0" "policy_ttl_secs u = policy_ttl_secs ?t" "active_file u = active_file ?t"
    "healthy (kern u)" "kernel_wf (kern u)" "\<And>q. contents (kern u) q = contents (kern ?t) q"
    "segment_size u = (if seg_size > 0 then seg_size else segment_size ?t)"
    "dead_since_compact u = dead_since_compact ?t"
    by (rule init_start [OF _ _ assms(3) j t(2) n0, of seg_size]) (use assms(1,2) t(1) in auto)
  have "no_files (kern u) (base_prefix u) (unat (segment_count u))"
    using assms(5) u(2,3,12) t(1) by (simp add: no_files_def)
  then obtain K' g' where load: "load_or_rebuild u = u\<lparr>kern := K', index_file := g'\<rparr>" "healthy K'" "kernel_wf K'"
    "contents K' (index_name p) = Some []" "contents K' (journal_name p) = None"
    "\<forall>i < unat seg_count. contents K' (segment_name p i) = None"
    using load_or_rebuild_empty [OF u(10,11)] assms(3) u(2,3,5) by metis
  let ?v = "u\<lparr>kern := K', index_file := g'\<rparr>"
  have prune: "prune_at_boot ?v = ?v" using u(7) by (simp add: prune_at_boot_def prune_off)
  obtain g where g: "open_index_for_append ?v = ?v\<lparr>index_file := Some g,
      kern := create_ino (index_name (base_prefix ?v)) (kern ?v)\<rparr>"
    "handle_on (Some g) (index_name (base_prefix ?v)) (create_ino (index_name (base_prefix ?v)) (kern ?v))"
    by (rule open_index_ok [of ?v]) (use load(2) in auto)
  obtain i where "dir K' (index_name p) = Some i" using load(4) by (auto simp: contents_def)
  from create_existing [OF this] have cr: "create_ino (index_name (base_prefix ?v)) (kern ?v) = K'"
    using u(2) by simp
  define w where "w = u\<lparr>kern := K', index_file := Some g\<rparr>"
  have ow: "open_index_for_append ?v = w" using g(1) cr by (simp add: w_def)
  have w: "kern w = K'" "base_prefix w = p" "segment_count w = seg_count" "index w = []"
    by (simp_all add: w_def u)
  have res: "resume_segment w = 0"
    unfolding resume_segment_eq w using load(6) by (intro foldl_no_index) simp
  have "disk_ok K' p (unat seg_count) []"
    unfolding disk_ok_def using load(2-5) assms(3)
    by (auto simp: replay_def intro!: exI [of _ "[]"])
  then have dw: "disk_ok (kern w) (base_prefix w) (unat (segment_count w)) (index w)" by (simp add: w)
  have hw: "handle_on (index_file w) (index_name (base_prefix w)) (kern w)"
    using g(2) cr w by (simp add: w_def u(2))
  have hh: "\<forall>i. 0 < i \<longrightarrow> i < unat (segment_count w) \<longrightarrow>
      contents (kern w) (segment_name (base_prefix w) i) = None"
    using load(6) w by simp
  have vw: "fs_valid w" "2 \<le> unat (segment_count w)" "write_buf w = []" "0 < unat (segment_count w)"
    using u(4,6) assms(4) w by (simp_all add: w_def)
  note op = store_ok_opened [OF vw(1-3) dw vw(4) hh hw]
  have init: "store_init p False seg_size seg_count ?t = (True, snd (open_segment 0 w))"
    unfolding u(1) load(1) prune ow Let_def res ..
  have "contents (kern w) (segment_name (base_prefix w) 0) = None" using load(6) vw(4) w by simp
  with op(6) have "current_offset (snd (open_segment 0 w)) = 0" by simp
  moreover have "stored w = Map.empty" using w(4) by (auto simp: stored_def)
  with op(2) have "visible clk (snd (open_segment 0 w)) = Map.empty" by (auto simp: visible_def)
  moreover have "policy_ttl_secs u = 0" "dead_since_compact u = 0" "segment_size u = (if seg_size > 0 then seg_size else sz)"
    using u(8,13,14) by (simp_all add: new_store_def)
  moreover have "contents (kern (snd (open_segment 0 w))) (index_name p) = Some []"
    by (rule open_segment_shape [of w 0]) (use load(2-4) w assms(3) in \<open>simp_all add: contents_create\<close>)
  ultimately show ?thesis using op(1,3,4,5,7) w u(2,3,7) by (simp add: init same_config_def w_def)
qed

text \<open>On an empty disk \<open>init\<close> succeeds and gives a good store that shows no key and has size 0.\<close>

theorem init_empty_disk:
  assumes "healthy K" "kernel_wf K" "prefix_ok p" "2 \<le> unat seg_count" "no_files K p (unat seg_count)"
  shows "fst (store_init p False seg_size seg_count (new_store sz c K)) \<and>
    store_ok (snd (store_init p False seg_size seg_count (new_store sz c K))) \<and>
    visible clk (snd (store_init p False seg_size seg_count (new_store sz c K))) = Map.empty \<and>
    store_size (snd (store_init p False seg_size seg_count (new_store sz c K))) = 0"
  using init_empty_ok [OF assms, of seg_size sz c clk] by (simp add: store_size_def)

theorem init_empty_disk_witness:
  "store_ok (snd (store_init ''store_'' False 65536 8 (new_store 65536 8 empty_kernel)))"
  using init_empty_disk [of empty_kernel "''store_''" 8 65536 65536 8]
  by (simp add: prefix_ok_def)

definition fresh_store :: store where
  "fresh_store = snd (store_init ''store_'' False 65536 8 (new_store 65536 8 empty_kernel))"

lemma fresh_store [simp]:
  "store_ok fresh_store" "visible clk fresh_store = Map.empty" "index fresh_store = []"
  "policy_max_recs fresh_store = 0" "current_offset fresh_store = 0" "policy_ttl_secs fresh_store = 0"
  "base_prefix fresh_store = ''store_''" "segment_count fresh_store = 8"
  "dead_since_compact fresh_store = 0" "segment_size fresh_store = 65536"
  using init_empty_ok [of empty_kernel "''store_''" 8 65536 65536 8 clk]
  by (simp_all add: fresh_store_def prefix_ok_def)

end
