(* ===== verification/FileStoreLaws.thy ===== *)
theory FileStoreLaws
  imports FreshStore KvStore
begin

text \<open>
  The properties of \<open>FileStore\<close> that its clients rely on, stated on the operations, and their instance as
  the contract \<open>kv_store_ttl\<close> of the typed stores.
\<close>

section \<open>Iteration\<close>

definition entry_shown :: "store \<Rightarrow> bytes \<times> index_value \<Rightarrow> store_entry" where
  "entry_shown s p = (case p of (k, iv) \<Rightarrow>
     \<lparr>e_key = k, e_value = (case stored s k of None \<Rightarrow> [] | Some pl \<Rightarrow> fst pl),
      e_timestamp = iv_timestamp iv, e_ttl = u24_get (iv_ttl iv)\<rparr>)"

lemma file_walk_load_meta:
  assumes disk: "disk_ok (kern s) (base_prefix s) n (index s)"
    and "set (it_rest it) \<subseteq> set (index s)"
  shows "file_walk junk (load_meta it) s = map (entry_shown s) (it_rest it)"
  using assms(2)
proof (induction "it_rest it" arbitrary: it)
  case Nil
  then show ?case by (subst file_walk.simps) (simp add: iterator_eq_def store_end_def iterator_at_def)
next
  case (Cons p m)
  obtain k iv where p: "p = (k, iv)" by (cases p)
  have "(k, iv) \<in> set (index s)" using Cons(2) Cons(3) p by (metis in_mono list.set_intros(1))
  then have iv: "map_of (index s) k = Some iv" using disk by (simp add: disk_ok_def)
  obtain h v bs where e: "entry_record (kern s) (base_prefix s) iv = Some (h, k, v)"
    "payload_of (h, k, v) = (v, iv_timestamp iv, u24_get (iv_ttl iv), iv_priority iv)"
    using entry_okE [OF disk_ok_entry [OF disk iv]] by metis
  have st: "stored s k = Some (v, iv_timestamp iv, u24_get (iv_ttl iv), iv_priority iv)"
    using iv e by (simp add: stored_def)
  have lm: "it_rest (load_meta it) = p # m" "it_iv (load_meta it) = Some iv"
    "\<not> it_value_loaded (load_meta it)"
    "it_current (load_meta it) = \<lparr>e_key = k, e_value = [], e_timestamp = iv_timestamp iv, e_ttl = u24_get (iv_ttl iv)\<rparr>"
    using Cons(2) [symmetric] p by (simp_all add: load_meta_def)
  have "it_current (iterator_deref junk (load_meta it) s) = entry_shown s p"
    using load_value_live [OF disk_ok_entry [OF disk iv] lm(2) e(1)] lm st
    by (simp add: iterator_deref_def entry_shown_def p)
  moreover have "file_walk junk (iterator_next (load_meta it)) s = map (entry_shown s) m"
    unfolding iterator_next_def
    using Cons(1) [of "load_meta it\<lparr>it_rest := tl (it_rest (load_meta it))\<rparr>"] Cons(3) lm(1)
    by (simp add: Cons(2) [symmetric])
  moreover have "\<not> iterator_eq (load_meta it) store_end"
    using lm(1) by (simp add: iterator_eq_def store_end_def iterator_at_def)
  ultimately show ?case by (subst file_walk.simps) (simp add: Cons(2) [symmetric])
qed

lemma store_walk_ok:
  assumes "store_ok s"
  shows "store_begin s = (iterator_at (index s), s)"
    "file_walk junk (fst (store_begin s)) s = map (entry_shown s) (index s)"
proof -
  show b: "store_begin s = (iterator_at (index s), s)"
    using assms by (simp add: store_begin_def store_ok_def)
  show "file_walk junk (fst (store_begin s)) s = map (entry_shown s) (index s)"
    unfolding b fst_conv iterator_at_def
    by (subst file_walk_load_meta [OF store_ok_disk [OF assms]]) simp_all
qed

text \<open>C24: a loop over a good store ends and visits every indexed key once, with the value that its record
  holds: every visible key is among them, with its value.\<close>

theorem iteration_visits_every_key:
  assumes "store_ok s"
  shows "map e_key (file_walk junk (fst (store_begin s)) s) = map fst (index s) \<and>
    distinct (map e_key (file_walk junk (fst (store_begin s)) s)) \<and>
    (\<forall>k v ts ttl pr. visible clk s k = Some (v, ts, ttl, pr) \<longrightarrow>
       (\<exists>e \<in> set (file_walk junk (fst (store_begin s)) s). e_key e = k \<and> e_value e = v))"
proof -
  have keys: "map e_key (map (entry_shown s) (index s)) = map fst (index s)"
    by (simp add: entry_shown_def case_prod_unfold)
  moreover have "\<exists>e \<in> set (map (entry_shown s) (index s)). e_key e = k \<and> e_value e = v"
    if "visible clk s k = Some (v, ts, ttl, pr)" for k v ts ttl pr
  proof -
    from that have st: "stored s k = Some (v, ts, ttl, pr)" by (simp add: visible_def split: option.splits if_splits)
    then obtain iv where "map_of (index s) k = Some iv" by (auto simp: stored_def split: option.splits)
    then have "(k, iv) \<in> set (index s)" by (rule map_of_SomeD)
    then have "entry_shown s (k, iv) \<in> set (map (entry_shown s) (index s))" by simp
    with st show ?thesis by (intro bexI [of _ "entry_shown s (k, iv)"]) (simp_all add: entry_shown_def)
  qed
  ultimately show ?thesis
    unfolding store_walk_ok(2) [OF assms] keys using store_ok_distinct [OF assms] by blast
qed

section \<open>The contract of the typed stores\<close>

definition file_view :: "clock \<Rightarrow> store \<Rightarrow> bytes \<Rightarrow> bytes option" where
  "file_view clk s k = map_option fst (visible clk s k)"

text \<open>A good store without a record limit, within the bounds for a compaction.\<close>

definition file_inv :: "store \<Rightarrow> bool" where
  "file_inv s \<longleftrightarrow> store_ok s \<and> policy_max_recs s = 0 \<and> length (index s) \<le> max_keys"

definition file_room :: "store \<Rightarrow> bool" where
  "file_room s \<longleftrightarrow> length (index s) < max_keys \<and> current_offset s < 2 ^ 24"

definition file_backend :: "u32 \<Rightarrow> u8 \<Rightarrow> record_header \<Rightarrow> store backend" where
  "file_backend junk_ttl junk_priority junk = \<lparr>b_valid = fs_valid, b_put = put_vec, b_get = get_vec,
     b_remove = (\<lambda>clk. remove_vec clk junk_ttl junk_priority), b_exists = exists_vec,
     b_size = store_size, b_clear = store_clear,
     b_entries = (\<lambda>s. case store_begin s of (it, s) \<Rightarrow>
       (map (\<lambda>e. (e_key e, e_value e)) (file_walk junk it s), s))\<rparr>"

lemma visible_value_length:
  assumes "store_ok s" "visible clk s k = Some (v, ts, ttl, pr)"
  shows "length v \<le> MAX_VALUE_LEN"
proof -
  from assms(2) have st: "stored s k = Some (v, ts, ttl, pr)" by (simp add: visible_def split: option.splits if_splits)
  then obtain iv where iv: "map_of (index s) k = Some iv" by (auto simp: stored_def split: option.splits)
  obtain h v' bs where e: "entry_record (kern s) (base_prefix s) iv = Some (h, k, v')" "wf_record (h, k, v')"
    "payload_of (h, k, v') = (v', iv_timestamp iv, u24_get (iv_ttl iv), iv_priority iv)"
    using entry_okE [OF disk_ok_entry [OF store_ok_disk [OF assms(1)] iv]] by metis
  with st iv have "v' = v" by (simp add: stored_def)
  with e(2) show ?thesis by (simp add: wf_record_def)
qed

lemma key_fits_narrow: "key_fits k \<Longrightarrow> narrow8 k = k" "key_fits k \<Longrightarrow> length k \<le> MAX_KEY_LEN"
  "key_fits k \<Longrightarrow> 0 < length k"
  by (simp_all add: key_fits_def MAX_KEY_LEN_def)

lemma value_fits_narrow: "value_fits v \<Longrightarrow> narrow16 v = v" "value_fits v \<Longrightarrow> length v \<le> MAX_VALUE_LEN"
  by (simp_all add: value_fits_def MAX_VALUE_LEN_def)

lemma index_remove_bounds:
  "s' \<in> {s, index_remove k s} \<Longrightarrow> length (index s') \<le> length (index s) \<and> current_offset s' = current_offset s \<and>
     policy_max_recs s' = policy_max_recs s"
  by (auto simp: index_remove_def length_delete_le)

lemma get_vec_ok:
  assumes "store_ok s" "key_fits k"
  shows "fst (get_vec clk k s) = file_view clk s k"
    "snd (get_vec clk k s) = snd (store_get clk k True (of_nat MAX_VALUE_LEN) s)"
proof -
  note k = key_fits_narrow [OF assms(2)]
  note g = store_get_ok [OF assms(1) k(2), of clk "of_nat MAX_VALUE_LEN"]
  show "snd (get_vec clk k s) = snd (store_get clk k True (of_nat MAX_VALUE_LEN) s)"
    by (simp add: get_vec_def k(1) split: prod.split option.split)
  have n: "unat (of_nat MAX_VALUE_LEN :: u16) = 1024" by (simp add: MAX_VALUE_LEN_def)
  show "fst (get_vec clk k s) = file_view clk s k"
  proof (cases "visible clk s k")
    case None
    with g show ?thesis by (auto simp: get_vec_def k(1) file_view_def split: prod.splits)
  next
    case (Some pl)
    obtain v ts ttl pr where pl: "pl = (v, ts, ttl, pr)" by (cases pl)
    have "length v \<le> 1024"
      using visible_value_length [OF assms(1) Some [unfolded pl]] by (simp add: MAX_VALUE_LEN_def)
    then have "unat (of_nat (length v) :: u16) = length v" "take 1024 v = v" by (simp_all add: unat_of_nat)
    with g Some pl show ?thesis by (auto simp: get_vec_def k(1) n file_view_def split: prod.splits)
  qed
qed

lemma put_payload_not_expired: "\<not> expired clk p (put_payload v (clk_time clk) ttl pr)"
  by (auto simp: expired_def put_payload_def Let_def unat_gt_0)

lemma file_kv_store:
  "kv_store_ttl (file_backend jt jp junk) file_inv file_room file_view"
proof unfold_locales
  fix s k v clk ttl pr
  let ?B = "file_backend jt jp junk"
  assume inv: "file_inv s"
  then have ok: "store_ok s" "policy_max_recs s = 0" "length (index s) \<le> max_keys" by (simp_all add: file_inv_def)
  show "b_valid ?B s" using ok by (simp add: file_backend_def store_ok_def)
  have ent: "b_entries ?B s = (map (\<lambda>e. (e_key e, e_value e)) (file_walk junk (fst (store_begin s)) s), s)"
    by (simp add: file_backend_def store_walk_ok(1) [OF ok(1)])
  have "distinct_keys (fst (b_entries ?B s))"
    unfolding ent fst_conv store_walk_ok(2) [OF ok(1)]
    using store_ok_distinct [OF ok(1)] by (simp add: comp_def entry_shown_def case_prod_unfold)
  moreover have "(k, v) \<in> set (fst (b_entries ?B s))" if view: "file_view clk s k = Some v" for k v
  proof -
    from view obtain pl where "visible clk s k = Some pl" "v = fst pl" by (auto simp: file_view_def)
    then have st: "stored s k = Some pl" by (simp add: visible_def split: option.splits if_splits)
    then obtain iv where "map_of (index s) k = Some iv" by (auto simp: stored_def split: option.splits)
    then have "(k, iv) \<in> set (index s)" by (rule map_of_SomeD)
    moreover have "(e_key (entry_shown s (k, iv)), e_value (entry_shown s (k, iv))) = (k, v)"
      using st \<open>v = fst pl\<close> by (simp add: entry_shown_def)
    ultimately show ?thesis unfolding ent fst_conv store_walk_ok(2) [OF ok(1)] by force
  qed
  ultimately show "distinct_keys (fst (b_entries ?B s)) \<and>
      (\<forall>k v. file_view clk s k = Some v \<longrightarrow> (k, v) \<in> set (fst (b_entries ?B s)))" by blast
  assume fits: "key_fits k"
  note k = key_fits_narrow [OF fits]
  note g = store_get_ok [OF ok(1) k(2), of clk "of_nat MAX_VALUE_LEN"]
  note gb = index_remove_bounds [OF conjunct2 [OF conjunct2 [OF conjunct2 [OF g]]]]
  have bget: "b_get ?B clk k s = get_vec clk k s" by (simp add: file_backend_def)
  show "fst (b_get ?B clk k s) = file_view clk s k \<and> file_inv (snd (b_get ?B clk k s)) \<and>
      file_view clk (snd (b_get ?B clk k s)) = file_view clk s \<and>
      (file_room s \<longrightarrow> file_room (snd (b_get ?B clk k s)))"
    unfolding bget get_vec_ok [OF ok(1) fits]
    using g gb ok by (auto simp: file_inv_def file_room_def file_view_def [abs_def])
  note x = store_exists_ok [OF ok(1) k(2), of clk]
  note xb = index_remove_bounds [OF conjunct2 [OF conjunct2 [OF conjunct2 [OF x]]]]
  have bexists: "b_exists ?B clk k s = store_exists clk k s"
    by (simp add: file_backend_def exists_vec_def k(1))
  show "(file_view clk s k \<noteq> None \<longrightarrow> fst (b_exists ?B clk k s)) \<and> file_inv (snd (b_exists ?B clk k s)) \<and>
      file_view clk (snd (b_exists ?B clk k s)) = file_view clk s \<and>
      (file_room s \<longrightarrow> file_room (snd (b_exists ?B clk k s)))"
    unfolding bexists using x xb ok by (auto simp: file_inv_def file_room_def file_view_def [abs_def])
  show "fst (b_exists ?B clk k s) = (file_view clk s k \<noteq> None)"
    unfolding bexists using x by (simp add: file_view_def)
  assume room: "file_room s"
  then have r: "length (index s) < max_keys" "current_offset s < 2 ^ 24" by (simp_all add: file_room_def)
  note rm = store_remove_ok [OF ok(1) k(3,2) ok(3), of clk jt jp]
  have brem: "b_remove ?B clk k s = store_remove clk jt jp k s"
    by (simp add: file_backend_def remove_vec_def k(1))
  show "fst (b_remove ?B clk k s) \<and> file_inv (snd (b_remove ?B clk k s)) \<and>
      file_view clk (snd (b_remove ?B clk k s)) = (file_view clk s)(k := None)"
    unfolding brem using rm ok by (auto simp: file_inv_def same_config_def file_view_def [abs_def])
  assume v: "value_fits v"
  note pt = store_put_ok [OF ok(1) k(3,2) value_fits_narrow(2) [OF v] r, of clk ttl "clk_time clk" pr]
  have bput: "b_put ?B clk k v ttl (clk_time clk) pr s = store_put clk k v ttl (clk_time clk) pr s"
    by (simp add: file_backend_def put_vec_def k(1) value_fits_narrow(1) [OF v])
  have "put_visible clk s k (put_payload v (clk_time clk) ttl pr) =
      (visible clk s)(k \<mapsto> put_payload v (clk_time clk) ttl pr)"
    by (simp add: put_visible_def put_payload_not_expired)
  moreover have "fst (put_payload v (clk_time clk) ttl pr) = v" by (simp add: put_payload_def)
  ultimately show "fst (b_put ?B clk k v ttl (clk_time clk) pr s) \<and>
      file_inv (snd (b_put ?B clk k v ttl (clk_time clk) pr s)) \<and>
      file_view clk (snd (b_put ?B clk k v ttl (clk_time clk) pr s)) = (file_view clk s)(k \<mapsto> v)"
    unfolding bput using pt ok r by (auto simp: file_inv_def same_config_def file_view_def [abs_def])
qed

interpretation file_kv: kv_store_ttl "file_backend jt jp junk" file_inv file_room file_view
  by (rule file_kv_store)

section \<open>The operations\<close>

definition demo_clock :: clock where
  "demo_clock = \<lparr>clk_time = 100, clk_millis = 0\<rparr>"

text \<open>C4: a \<open>put\<close> on a good store succeeds, whatever rotation or compaction it goes through. Afterwards the key
  has the new value, timestamp, TTL (modulo \<open>2 ^ 24\<close>) and priority, and without a record limit all
  other keys are as before; with a limit, at most that many keys are left, each as it was.\<close>

theorem put_updates_visible:
  assumes "store_ok s" "0 < length key" "length key \<le> MAX_KEY_LEN" "length data \<le> MAX_VALUE_LEN"
    "length (index s) < max_keys" "current_offset s < 2 ^ 24"
  shows "fst (store_put clk key data ttl ts pr s) \<and> store_ok (snd (store_put clk key data ttl ts pr s)) \<and>
    visible clk (snd (store_put clk key data ttl ts pr s))
      \<subseteq>\<^sub>m put_visible clk s key (put_payload data ts ttl pr) \<and>
    (policy_max_recs s = 0 \<longrightarrow> visible clk (snd (store_put clk key data ttl ts pr s))
      = put_visible clk s key (put_payload data ts ttl pr)) \<and>
    (policy_max_recs s \<noteq> 0 \<longrightarrow>
      length (index (snd (store_put clk key data ttl ts pr s))) \<le> unat (policy_max_recs s))"
  using store_put_ok [OF assms] by blast

theorem put_updates_visible_witness:
  "visible demo_clock (snd (store_put demo_clock [1] [2, 3] 0 90 0 fresh_store)) = [[1] \<mapsto> ([2, 3], 90, 0, 0)]"
proof -
  have "put_visible demo_clock fresh_store [1] (put_payload [2, 3] 90 0 0) = [[1] \<mapsto> ([2, 3], 90, 0, 0)]"
    by (simp add: put_visible_def put_payload_def expired_def)
  then show ?thesis
    using put_updates_visible [of fresh_store "[1]" "[2, 3]" demo_clock 0 90 0]
    by (simp add: MAX_KEY_LEN_def MAX_VALUE_LEN_def max_keys_def)
qed

text \<open>C5: on a good store, \<open>get\<close> returns the visible value of the key (cut to the buffer) and its full length,
  or fails when the key is absent or expired; it keeps the invariant and changes nothing that is
  visible.\<close>

theorem get_returns_visible:
  assumes "store_ok s" "length k \<le> MAX_KEY_LEN"
  shows "fst (store_get clk k True out_size s) =
      (case visible clk s k of None \<Rightarrow> None
       | Some (v, ts, ttl, pr) \<Rightarrow> Some (take (unat out_size) v, of_nat (length v))) \<and>
    store_ok (snd (store_get clk k True out_size s)) \<and>
    visible clk (snd (store_get clk k True out_size s)) = visible clk s"
  using store_get_ok [OF assms] by blast

definition one_record :: store where
  "one_record = snd (store_put demo_clock [1] [2, 3] 0 90 0 fresh_store)"

lemma one_record:
  "store_ok one_record" "visible demo_clock one_record = [[1] \<mapsto> ([2, 3], 90, 0, 0)]"
  "policy_max_recs one_record = 0" "policy_ttl_secs one_record = 0" "length (index one_record) \<le> 1"
  "base_prefix one_record = ''store_''" "segment_count one_record = 8"
proof -
  have "put_visible demo_clock fresh_store [1] (put_payload [2, 3] 90 0 0) = [[1] \<mapsto> ([2, 3], 90, 0, 0)]"
    by (simp add: put_visible_def put_payload_def expired_def)
  with store_put_ok [of fresh_store "[1]" "[2, 3]" demo_clock 0 90 0]
  show "store_ok one_record" "visible demo_clock one_record = [[1] \<mapsto> ([2, 3], 90, 0, 0)]"
    "policy_max_recs one_record = 0" "policy_ttl_secs one_record = 0" "length (index one_record) \<le> 1"
    "base_prefix one_record = ''store_''" "segment_count one_record = 8"
    by (simp_all add: one_record_def MAX_KEY_LEN_def MAX_VALUE_LEN_def max_keys_def same_config_def)
qed

theorem iteration_visits_every_key_witness:
  "\<exists>e \<in> set (file_walk (put_header [] [] 0 0 0) (fst (store_begin one_record)) one_record).
     e_key e = [1] \<and> e_value e = [2, 3]"
  using iteration_visits_every_key [OF one_record(1), of "put_header [] [] 0 0 0" demo_clock] one_record(2) by auto

theorem get_returns_visible_witness:
  "fst (store_get demo_clock [1] True 10 one_record) = Some ([2, 3], 2) \<and>
   fst (store_get demo_clock [7] True 10 one_record) = None"
  using get_returns_visible [of one_record "[1]" demo_clock 10] get_returns_visible [of one_record "[7]" demo_clock 10]
    one_record by (simp add: MAX_KEY_LEN_def)

text \<open>C14: a \<open>remove\<close> on a good store succeeds, the key is gone, and without a record limit all other keys are
  as before.\<close>

theorem remove_hides_key:
  assumes "store_ok s" "0 < length key" "length key \<le> MAX_KEY_LEN" "length (index s) \<le> max_keys"
  shows "fst (store_remove clk jt jp key s) \<and> store_ok (snd (store_remove clk jt jp key s)) \<and>
    visible clk (snd (store_remove clk jt jp key s)) \<subseteq>\<^sub>m (visible clk s)(key := None) \<and>
    (policy_max_recs s = 0 \<longrightarrow>
      visible clk (snd (store_remove clk jt jp key s)) = (visible clk s)(key := None))"
  using store_remove_ok [OF assms] by blast

theorem remove_hides_key_witness:
  "visible demo_clock (snd (store_remove demo_clock 7 7 [1] one_record)) = Map.empty"
  using remove_hides_key [of one_record "[1]" demo_clock 7 7] one_record
  by (simp add: MAX_KEY_LEN_def max_keys_def)

text \<open>C23: \<open>exists\<close> answers whether the key is visible.\<close>

theorem exists_iff_visible:
  assumes "store_ok s" "length k \<le> MAX_KEY_LEN"
  shows "fst (store_exists clk k s) = (visible clk s k \<noteq> None) \<and>
    store_ok (snd (store_exists clk k s)) \<and> visible clk (snd (store_exists clk k s)) = visible clk s"
  using store_exists_ok [OF assms] by blast

theorem exists_iff_visible_witness:
  "fst (store_exists demo_clock [1] one_record) \<and> \<not> fst (store_exists demo_clock [7] one_record)"
  using exists_iff_visible [of one_record "[1]" demo_clock] exists_iff_visible [of one_record "[7]" demo_clock]
    one_record by (simp add: MAX_KEY_LEN_def)

text \<open>C6: a compaction from a good store succeeds and leaves no dead record: segment 0 holds one record for each
  visible key that the record limit keeps, that of its visible value, and nothing else, and there is no other
  segment. Reopened at segment 1, as its callers inside the store do, the store is good again and shows what
  was visible in the store pruned to its limit; without a limit, everything that was visible.\<close>

theorem compact_preserves_visible:
  assumes "store_ok s" "length (index s) \<le> max_keys"
  shows "fst (compact clk s) \<and> store_ok (snd (open_segment 1 (snd (compact clk s)))) \<and>
    visible clk (snd (open_segment 1 (snd (compact clk s)))) = visible clk (snd (prune_index_to_max_recs s)) \<and>
    (policy_max_recs s = 0 \<longrightarrow> visible clk (snd (open_segment 1 (snd (compact clk s)))) = visible clk s) \<and>
    (\<exists>bs. contents (kern (snd (compact clk s))) (segment_name (base_prefix s) 0) = Some bs \<and>
       packed clk (snd (prune_index_to_max_recs s)) bs) \<and>
    (\<forall>c. 0 < c \<longrightarrow> c < unat (segment_count s) \<longrightarrow>
       contents (kern (snd (compact clk s))) (segment_name (base_prefix s) c) = None)"
  by (rule store_compact_ok [OF assms])

theorem compact_preserves_visible_witness:
  "visible demo_clock (snd (open_segment 1 (snd (compact demo_clock one_record)))) = [[1] \<mapsto> ([2, 3], 90, 0, 0)] \<and>
   contents (kern (snd (compact demo_clock one_record))) (segment_name ''store_'' 1) = None"
proof -
  have "length (index one_record) \<le> max_keys" using one_record(5) by (simp add: max_keys_def)
  note c = compact_preserves_visible [OF one_record(1) this, of demo_clock]
  have "visible demo_clock (snd (open_segment 1 (snd (compact demo_clock one_record)))) = [[1] \<mapsto> ([2, 3], 90, 0, 0)]"
    using c unfolding one_record(2,3) by blast
  moreover have "contents (kern (snd (compact demo_clock one_record))) (segment_name ''store_'' 1) = None"
    using c one_record(6,7) by simp
  ultimately show ?thesis by blast
qed

section \<open>Restarts\<close>

text \<open>Whatever was visible in a good store is visible after a restart: a fresh store object initialised on
  the disk of the old one, with the same prefix and segment count, is good, and finds every record.\<close>

theorem init_recovers_visible:
  assumes "store_ok s" "cold t" "kern t = kern s" "policy_ttl_secs t = policy_ttl_secs s"
  shows "fst (store_init (base_prefix s) False seg_size (segment_count s) t) \<and>
    store_ok (snd (store_init (base_prefix s) False seg_size (segment_count s) t)) \<and>
    visible clk s \<subseteq>\<^sub>m visible clk (snd (store_init (base_prefix s) False seg_size (segment_count s) t))"
  by (rule store_init_ok [OF assms])

theorem init_recovers_visible_witness:
  "visible demo_clock (snd (store_init ''store_'' False 65536 8 (new_store 65536 8 (kern one_record)))) [1] =
   Some ([2, 3], 90, 0, 0)"
proof -
  have "visible demo_clock one_record \<subseteq>\<^sub>m
      visible demo_clock (snd (store_init ''store_'' False 65536 8 (new_store 65536 8 (kern one_record))))"
    using init_recovers_visible [of one_record "new_store 65536 8 (kern one_record)" 65536 demo_clock] one_record
    by (simp add: cold_def new_store_def)
  then show ?thesis using one_record(2) by (simp add: map_le_def)
qed

text \<open>C2: durability: once \<open>put\<close> has returned, the value survives a power failure. A store object started on
  the disk that is left, at any later time before the record expires, returns the value.\<close>

theorem put_survives_restart:
  assumes "store_ok s" "0 < length key" "length key \<le> MAX_KEY_LEN" "length data \<le> MAX_VALUE_LEN"
    "length (index s) < max_keys" "current_offset s < 2 ^ 24" "policy_max_recs s = 0"
    and t: "cold t" "kern t = kern (snd (store_put clk key data ttl ts pr s))"
      "policy_ttl_secs t = policy_ttl_secs s"
    and live: "clk_time clk \<le> clk_time clk'" "\<not> expired clk' (policy_ttl_secs s) (put_payload data ts ttl pr)"
  shows "fst (store_get clk' key True out_size
      (snd (store_init (base_prefix s) False seg_size (segment_count s) t))) =
    Some (take (unat out_size) data, of_nat (length data))"
proof -
  let ?s' = "snd (store_put clk key data ttl ts pr s)" and ?pl = "put_payload data ts ttl pr"
  let ?b = "snd (store_init (base_prefix s) False seg_size (segment_count s) t)"
  note put = store_put_ok [OF assms(1-6), of clk ttl ts pr]
  have cfg: "base_prefix ?s' = base_prefix s" "segment_count ?s' = segment_count s"
      "policy_ttl_secs ?s' = policy_ttl_secs s"
    using put by (simp_all add: same_config_def)
  have "\<not> expired clk (policy_ttl_secs s) ?pl"
    using live by (auto simp: expired_def put_payload_def Let_def word_le_nat_alt split: if_splits)
  then have "visible clk ?s' key = Some ?pl" using put assms(7) by (simp add: put_visible_def)
  then have "stored ?s' key = Some ?pl" by (simp add: visible_def split: option.splits if_splits)
  then have v: "visible clk' ?s' key = Some ?pl" using live(2) cfg(3) by (simp add: visible_def)
  have b: "store_ok ?b" "visible clk' ?s' \<subseteq>\<^sub>m visible clk' ?b"
    using store_init_ok [of ?s' t seg_size clk'] put t cfg by simp_all
  from b(2) v have "visible clk' ?b key = Some ?pl" unfolding map_le_def by (metis domI)
  with store_get_ok [OF b(1) assms(3), of clk' out_size] show ?thesis by (simp add: put_payload_def)
qed

theorem put_survives_restart_witness:
  "fst (store_get demo_clock [1] True 10
     (snd (store_init ''store_'' False 65536 8 (new_store 65536 8 (kern one_record))))) = Some ([2, 3], 2)"
  using put_survives_restart [of fresh_store "[1]" "[2, 3]" "new_store 65536 8 (kern one_record)"
      demo_clock 0 90 0 demo_clock 10 65536]
  by (simp add: MAX_KEY_LEN_def MAX_VALUE_LEN_def max_keys_def cold_def new_store_def one_record_def
      expired_def put_payload_def)

section \<open>FileStore as a backend\<close>

text \<open>C21: through the vector overloads the typed stores use, a \<open>put\<close> with the current time is what the next
  \<open>get\<close> returns, and other keys are unaffected; a failed lookup is exactly a negative \<open>exists\<close>.\<close>

theorem get_vec_after_put_vec:
  assumes "file_inv s" "file_room s" "key_fits k" "value_fits v" "key_fits k'"
  shows "fst (get_vec clk k' (snd (put_vec clk k v ttl (clk_time clk) pr s))) =
      (if k' = k then Some v else fst (get_vec clk k' s)) \<and>
    fst (exists_vec clk k' s) = (fst (get_vec clk k' s) \<noteq> None)"
  using file_kv.get_after_put [of s k v 0 0 "put_header [] [] 0 0 0" clk ttl pr]
    file_kv.get_after_put_other [of s k v k' 0 0 "put_header [] [] 0 0 0" clk ttl pr]
    file_kv.exists_iff_get [of s k' 0 0 "put_header [] [] 0 0 0" clk] assms
  by (simp add: file_backend_def)

theorem get_vec_after_put_vec_witness:
  "fst (get_vec demo_clock [1] (snd (put_vec demo_clock [1] [4] 0 100 0 fresh_store))) = Some [4]"
  using get_vec_after_put_vec [of fresh_store "[1]" "[4]" "[1]" demo_clock 0 0]
  by (simp add: file_inv_def file_room_def key_fits_def value_fits_def MAX_KEY_LEN_def MAX_VALUE_LEN_def
      max_keys_def demo_clock_def)

end
