(* ===== verification/HeapStore.thy ===== *)
theory HeapStore
  imports KvStore "HOL-Library.List_Lexorder"
begin

text \<open>
  \<open>HeapStore.h\<close>: the in-memory store. Its \<open>std::map\<close> is an association list in strictly ascending order
  of the keys, which \<open>std::vector\<close> compares lexicographically byte by byte; \<open>begin()\<close> is its first entry.
\<close>

section \<open>std::map\<close>

fun map_set :: "'k::linorder \<Rightarrow> 'v \<Rightarrow> ('k \<times> 'v) list \<Rightarrow> ('k \<times> 'v) list" where
  "map_set k v [] = [(k, v)]"
| "map_set k v ((k', v') # m) =
     (if k < k' then (k, v) # (k', v') # m else if k = k' then (k, v) # m else (k', v') # map_set k v m)"

definition map_erase :: "'k \<Rightarrow> ('k \<times> 'v) list \<Rightarrow> ('k \<times> 'v) list" where
  "map_erase k m = filter (\<lambda>e. fst e \<noteq> k) m"

abbreviation ascending :: "('k::linorder \<times> 'v) list \<Rightarrow> bool" where
  "ascending m \<equiv> sorted_wrt (<) (map fst m)"

lemma keys_map_set: "fst ` set (map_set k v m) = insert k (fst ` set m)"
  by (induction k v m rule: map_set.induct) auto

lemma ascending_map_set [simp]: "ascending m \<Longrightarrow> ascending (map_set k v m)"
proof (induction k v m rule: map_set.induct)
  case (2 k v k' v' m)
  from 2(2) have k': "\<forall>x \<in> fst ` set m. k' < x" and m: "ascending m" by simp_all
  show ?case
  proof (cases "k < k'")
    case True
    with k' have "\<forall>x \<in> fst ` set m. k < x" by (meson less_trans)
    with True 2(2) show ?thesis by simp
  next
    case False
    then consider "k = k'" | "k' < k" by fastforce
    then show ?thesis
    proof cases
      assume "k' < k"
      with k' have "\<forall>x \<in> fst ` set (map_set k v m). k' < x" unfolding keys_map_set by blast
      with 2(1) \<open>k' < k\<close> m show ?thesis by auto
    qed (use 2(2) in simp)
  qed
qed simp

lemma set_map_set: "set (map_set k v m) \<subseteq> insert (k, v) (set m)"
  by (induction k v m rule: map_set.induct) auto

lemma map_of_map_set [simp]: "ascending m \<Longrightarrow> map_of (map_set k v m) = (map_of m)(k \<mapsto> v)"
proof (induction k v m rule: map_set.induct)
  case (2 k v k' v' m)
  then show ?case by (auto simp: fun_eq_iff)
qed simp

lemma length_map_set: "ascending m \<Longrightarrow>
  length (map_set k v m) = (if map_of m k = None then Suc (length m) else length m)"
proof (induction k v m rule: map_set.induct)
  case (2 k v k' v' m)
  have "k < k' \<Longrightarrow> map_of m k = None" using 2(2) by (auto simp: map_of_eq_None_iff)
  with 2 show ?case by auto
qed simp

lemma ascending_filter [simp]: "ascending m \<Longrightarrow> ascending (filter P m)"
  by (induction m) auto

lemma ascending_distinct: "ascending m \<Longrightarrow> distinct_keys m"
  by (simp add: strict_sorted_iff)

lemma ascending_drop [simp]: "ascending m \<Longrightarrow> ascending (drop n m)"
  by (simp add: drop_map [symmetric] sorted_wrt_drop)

lemma map_of_map_erase [simp]: "map_of (map_erase k m) = (map_of m)(k := None)"
  by (induction m) (auto simp: map_erase_def)

section \<open>The store\<close>

record heap_entry =
  he_value :: bytes
  he_timestamp :: u32
  he_ttl :: u32

type_synonym data_map = "(bytes \<times> heap_entry) list"

record heap_store =
  hs_data :: data_map
  hs_ttl_secs :: u32
  hs_max_recs :: u32

definition heap_new :: heap_store where
  "heap_new = \<lparr>hs_data = [], hs_ttl_secs = 0, hs_max_recs = 0\<rparr>"

definition heap_valid :: "heap_store \<Rightarrow> bool" where
  "heap_valid s = True"

definition heap_clear :: "heap_store \<Rightarrow> heap_store" where
  "heap_clear s = (if \<not> heap_valid s then s else s\<lparr>hs_data := []\<rparr>)"

definition heap_init :: "bool \<Rightarrow> heap_store \<Rightarrow> bool \<times> heap_store" where
  "heap_init clear_on_init s = (True, if clear_on_init then heap_clear s else s)"

definition heap_close :: "heap_store \<Rightarrow> heap_store" where
  "heap_close s = s"

text \<open>The age is computed in \<open>uint32_t\<close>: a timestamp ahead of the clock wraps to a large age.\<close>

definition heap_expired :: "clock \<Rightarrow> u32 \<Rightarrow> heap_entry \<Rightarrow> bool" where
  "heap_expired clk policy_ttl e =
     (let effective = (if he_ttl e > 0 then he_ttl e else policy_ttl)
      in effective > 0 \<and> clk_time clk - he_timestamp e \<ge> effective)"

text \<open>The loop that makes room erases the smallest key until the size is below the limit.\<close>

function evict_smallest :: "u32 \<Rightarrow> data_map \<Rightarrow> data_map" where
  "evict_smallest max_recs m =
     (if m \<noteq> [] \<and> length m \<ge> unat max_recs then evict_smallest max_recs (tl m) else m)"
  by auto
termination by (relation "measure (\<lambda>(_, m). length m)") auto

declare evict_smallest.simps [simp del]

definition heap_put :: "clock \<Rightarrow> bytes \<Rightarrow> bytes \<Rightarrow> u32 \<Rightarrow> u32 \<Rightarrow> u8 \<Rightarrow> heap_store \<Rightarrow> bool \<times> heap_store" where
  "heap_put clk key data ttl ts priority s =
     (if \<not> heap_valid s then (False, s)
      else if length key > MAX_KEY_LEN then (False, s)
      else if length data > MAX_VALUE_LEN then (False, s)
      else
        let m = filter (\<lambda>e. \<not> heap_expired clk (hs_ttl_secs s) (snd e)) (hs_data s);
            m = (if hs_max_recs s > 0 \<and> map_of m key = None then evict_smallest (hs_max_recs s) m else m)
        in (True, s\<lparr>hs_data := map_set key \<lparr>he_value = data, he_timestamp = ts, he_ttl = ttl\<rparr> m\<rparr>))"

definition heap_get :: "clock \<Rightarrow> bytes \<Rightarrow> bool \<Rightarrow> u16 \<Rightarrow> heap_store \<Rightarrow> (bytes \<times> u16) option \<times> heap_store" where
  "heap_get clk key has_out out_size s =
     (if \<not> heap_valid s then (None, s)
      else if length key > MAX_KEY_LEN then (None, s)
      else case map_of (hs_data s) key of
        None \<Rightarrow> (None, s)
      | Some e \<Rightarrow>
          if heap_expired clk (hs_ttl_secs s) e then (None, s\<lparr>hs_data := map_erase key (hs_data s)\<rparr>)
          else (Some (if has_out then take (min (unat out_size) (length (he_value e))) (he_value e) else [],
                      of_nat (length (he_value e))), s))"

definition heap_remove :: "bytes \<Rightarrow> heap_store \<Rightarrow> bool \<times> heap_store" where
  "heap_remove key s =
     (if \<not> heap_valid s then (False, s)
      else if length key > MAX_KEY_LEN then (False, s)
      else (True, s\<lparr>hs_data := map_erase key (hs_data s)\<rparr>))"

definition heap_exists :: "bytes \<Rightarrow> heap_store \<Rightarrow> bool" where
  "heap_exists key s =
     (if \<not> heap_valid s then False
      else if length key > MAX_KEY_LEN then False
      else map_of (hs_data s) key \<noteq> None)"

definition heap_size :: "heap_store \<Rightarrow> nat" where
  "heap_size s = (if \<not> heap_valid s then 0 else length (hs_data s))"

definition heap_set_ttl_secs :: "u32 \<Rightarrow> heap_store \<Rightarrow> heap_store" where
  "heap_set_ttl_secs ttl_s s = s\<lparr>hs_ttl_secs := ttl_s\<rparr>"

definition heap_set_max_recs :: "u32 \<Rightarrow> heap_store \<Rightarrow> heap_store" where
  "heap_set_max_recs max_recs s = s\<lparr>hs_max_recs := max_recs\<rparr>"

text \<open>\<open>dumpInfo\<close> prints the number of entries and the bytes they hold.\<close>

definition heap_dump :: "heap_store \<Rightarrow> nat \<times> nat" where
  "heap_dump s = (length (hs_data s), sum_list (map (\<lambda>(k, e). length k + length (he_value e)) (hs_data s)))"

section \<open>Overloads\<close>

text \<open>The key of the C string overloads is the string up to its terminator.\<close>

definition heap_put_cstr :: "clock \<Rightarrow> bytes \<Rightarrow> bytes \<Rightarrow> u32 \<Rightarrow> u32 \<Rightarrow> u8 \<Rightarrow> heap_store \<Rightarrow> bool \<times> heap_store" where
  "heap_put_cstr clk mem data ttl ts priority s =
     heap_put clk (narrow8 (cstr_encode mem)) data ttl ts priority s"

definition heap_get_cstr :: "clock \<Rightarrow> bytes \<Rightarrow> bool \<Rightarrow> u16 \<Rightarrow> heap_store \<Rightarrow> (bytes \<times> u16) option \<times> heap_store" where
  "heap_get_cstr clk mem has_out out_size s = heap_get clk (narrow8 (cstr_encode mem)) has_out out_size s"

definition heap_remove_cstr :: "bytes \<Rightarrow> heap_store \<Rightarrow> bool \<times> heap_store" where
  "heap_remove_cstr mem s = heap_remove (narrow8 (cstr_encode mem)) s"

definition heap_exists_cstr :: "bytes \<Rightarrow> heap_store \<Rightarrow> bool" where
  "heap_exists_cstr mem s = heap_exists (narrow8 (cstr_encode mem)) s"

definition heap_put_vec :: "clock \<Rightarrow> bytes \<Rightarrow> bytes \<Rightarrow> u32 \<Rightarrow> u32 \<Rightarrow> u8 \<Rightarrow> heap_store \<Rightarrow> bool \<times> heap_store" where
  "heap_put_vec clk key data ttl ts priority s =
     heap_put clk (narrow8 key) (narrow16 data) ttl ts priority s"

definition heap_get_vec :: "clock \<Rightarrow> bytes \<Rightarrow> heap_store \<Rightarrow> bytes option \<times> heap_store" where
  "heap_get_vec clk key s = (case heap_get clk (narrow8 key) True (of_nat MAX_VALUE_LEN) s of
      (None, s) \<Rightarrow> (None, s)
    | (Some (bs, n), s) \<Rightarrow> (Some (take (unat n) (bs @ replicate (unat n - length bs) 0)), s))"

definition heap_remove_vec :: "bytes \<Rightarrow> heap_store \<Rightarrow> bool \<times> heap_store" where
  "heap_remove_vec key s = heap_remove (narrow8 key) s"

definition heap_exists_vec :: "bytes \<Rightarrow> heap_store \<Rightarrow> bool" where
  "heap_exists_vec key s = heap_exists (narrow8 key) s"

section \<open>The iterator\<close>

record heap_item =
  hi_key :: bytes
  hi_value :: bytes
  hi_timestamp :: u32
  hi_ttl :: u32

text \<open>An iterator holds the entries from its position on; \<open>end()\<close> has none.\<close>

record heap_iterator =
  hit_rest :: data_map
  hit_current :: heap_item

definition heap_item_of :: "bytes \<times> heap_entry \<Rightarrow> heap_item" where
  "heap_item_of p = \<lparr>hi_key = fst p, hi_value = he_value (snd p), hi_timestamp = he_timestamp (snd p),
     hi_ttl = he_ttl (snd p)\<rparr>"

definition heap_load :: "heap_iterator \<Rightarrow> heap_iterator" where
  "heap_load it = (case hit_rest it of [] \<Rightarrow> it | p # _ \<Rightarrow> it\<lparr>hit_current := heap_item_of p\<rparr>)"

definition heap_iterator_at :: "data_map \<Rightarrow> heap_iterator" where
  "heap_iterator_at m = heap_load \<lparr>hit_rest = m,
     hit_current = \<lparr>hi_key = [], hi_value = [], hi_timestamp = 0, hi_ttl = 0\<rparr>\<rparr>"

definition heap_begin :: "heap_store \<Rightarrow> heap_iterator" where
  "heap_begin s = heap_iterator_at (hs_data s)"

definition heap_end :: heap_iterator where
  "heap_end = heap_iterator_at []"

definition heap_next :: "heap_iterator \<Rightarrow> heap_iterator" where
  "heap_next it = heap_load (it\<lparr>hit_rest := tl (hit_rest it)\<rparr>)"

definition heap_iterator_eq :: "heap_iterator \<Rightarrow> heap_iterator \<Rightarrow> bool" where
  "heap_iterator_eq a b \<longleftrightarrow> hit_rest a = hit_rest b"

lemma heap_load_rest [simp]: "hit_rest (heap_load it) = hit_rest it"
  by (simp add: heap_load_def split: list.split)

text \<open>What \<open>for (auto& e : store)\<close> sees.\<close>

function heap_walk :: "heap_iterator \<Rightarrow> heap_item list" where
  "heap_walk it = (if heap_iterator_eq it heap_end then [] else hit_current it # heap_walk (heap_next it))"
  by auto
termination
proof (relation "measure (\<lambda>it. length (hit_rest it))")
  fix it assume "\<not> heap_iterator_eq it heap_end"
  then have "hit_rest it \<noteq> []"
    by (simp add: heap_iterator_eq_def heap_end_def heap_iterator_at_def heap_load_def)
  then show "(heap_next it, it) \<in> measure (\<lambda>it. length (hit_rest it))"
    by (simp add: heap_next_def)
qed simp

declare heap_walk.simps [simp del]

lemma heap_walk_load: "heap_walk (heap_load it) = map heap_item_of (hit_rest it)"
proof (induction "hit_rest it" arbitrary: it)
  case Nil
  then show ?case
    by (subst heap_walk.simps) (simp add: heap_iterator_eq_def heap_end_def heap_iterator_at_def)
next
  case (Cons p m)
  have "heap_walk (heap_next (heap_load it)) = map heap_item_of m"
    unfolding heap_next_def using Cons(1) [of "heap_load it\<lparr>hit_rest := tl (hit_rest (heap_load it))\<rparr>"]
    by (simp add: Cons(2) [symmetric])
  then show ?case
    by (subst heap_walk.simps)
      (simp add: Cons(2) [symmetric] heap_iterator_eq_def heap_end_def heap_iterator_at_def heap_load_def)
qed

text \<open>a loop over the store ends, and visits every record once, in ascending order of the keys.\<close>

theorem heap_walk_all:
  "heap_walk (heap_begin s) = map heap_item_of (hs_data s) \<and>
   (ascending (hs_data s) \<longrightarrow> sorted_wrt (<) (map hi_key (heap_walk (heap_begin s))))"
proof -
  have w: "heap_walk (heap_begin s) = map heap_item_of (hs_data s)"
    by (simp add: heap_begin_def heap_iterator_at_def heap_walk_load)
  moreover have "hi_key \<circ> heap_item_of = fst" by (simp add: fun_eq_iff heap_item_of_def)
  ultimately show ?thesis by simp
qed

section \<open>Making room\<close>

lemma evict_smallest_eq:
  "evict_smallest n m = (if unat n = 0 then [] else drop (Suc (length m) - unat n) m)"
proof (induction "length m" arbitrary: m)
  case (Suc k)
  then obtain e m' where m: "m = e # m'" "length m' = k" by (cases m) auto
  show ?case
  proof (cases "unat n \<le> length m")
    case True
    then have "evict_smallest n m = evict_smallest n m'" using m by (subst evict_smallest.simps) simp
    with Suc(1) [OF m(2) [symmetric]] True m show ?thesis by (simp add: Suc_diff_le)
  next
    case False
    then show ?thesis by (subst evict_smallest.simps) simp
  qed
qed (simp add: evict_smallest.simps [of n "[]"])

lemma length_evict_smallest: "0 < unat n \<Longrightarrow> length (evict_smallest n m) \<le> unat n - 1"
  by (simp add: evict_smallest_eq)

lemma ascending_evict_smallest [simp]: "ascending m \<Longrightarrow> ascending (evict_smallest n m)"
  by (simp add: evict_smallest_eq)

lemma map_of_drop_le: "distinct_keys m \<Longrightarrow> map_of (drop n m) k = None \<or> map_of (drop n m) k = map_of m k"
  by (metis in_set_dropD map_of_SomeD map_of_eq_Some_iff not_None_eq)

text \<open>C19: the map stays strictly ordered whatever is put, and a record limit holds after every \<open>put\<close> of a
  new key: the bound cannot be exceeded.\<close>

theorem heap_put_invariant:
  assumes "ascending (hs_data s)"
  shows "ascending (hs_data (snd (heap_put clk key data ttl ts pr s))) \<and>
    (hs_max_recs s > 0 \<and> length (hs_data s) \<le> unat (hs_max_recs s) \<longrightarrow>
      length (hs_data (snd (heap_put clk key data ttl ts pr s))) \<le> unat (hs_max_recs s))"
proof -
  let ?f = "filter (\<lambda>e. \<not> heap_expired clk (hs_ttl_secs s) (snd e)) (hs_data s)"
  have f: "ascending ?f" "length ?f \<le> length (hs_data s)" using assms by simp_all
  let ?m = "if hs_max_recs s > 0 \<and> map_of ?f key = None then evict_smallest (hs_max_recs s) ?f else ?f"
  have m: "ascending ?m" using f(1) by simp
  have bound: "length (map_set key e ?m) \<le> unat (hs_max_recs s)"
    if "hs_max_recs s > 0" "length (hs_data s) \<le> unat (hs_max_recs s)" for e
  proof (cases "map_of ?f key")
    case None
    have "0 < unat (hs_max_recs s)" using that(1) by (simp add: word_gt_0 unat_gt_0)
    with length_evict_smallest [OF this, of ?f] None that(1) length_map_set [OF m, of key e] show ?thesis
      by (auto split: if_splits)
  next
    case (Some e')
    with f order_trans [OF f(2) that(2)] show ?thesis by (simp add: length_map_set)
  qed
  show ?thesis
  proof (cases "length key > MAX_KEY_LEN \<or> length data > MAX_VALUE_LEN")
    case True
    with assms show ?thesis by (auto simp: heap_put_def heap_valid_def)
  next
    case False
    then have "snd (heap_put clk key data ttl ts pr s) =
        s\<lparr>hs_data := map_set key \<lparr>he_value = data, he_timestamp = ts, he_ttl = ttl\<rparr> ?m\<rparr>"
      by (simp add: heap_put_def heap_valid_def Let_def)
    with ascending_map_set [OF m] bound show ?thesis by simp
  qed
qed

theorem heap_put_invariant_witness:
  "ascending (hs_data (snd (heap_put \<lparr>clk_time = 9, clk_millis = 0\<rparr> [2] [7] 0 9 0 (heap_set_max_recs 1 heap_new))))"
  using heap_put_invariant [of "heap_set_max_recs 1 heap_new"]
  by (simp add: heap_new_def heap_set_max_recs_def)

text \<open>C29: with a record limit and nothing expired, a \<open>put\<close> of a new key removes exactly the smallest keys, as
  many as needed to end at the limit, whatever their age and priority.\<close>

theorem heap_put_evicts_smallest_keys:
  assumes "hs_max_recs s > 0" "map_of (hs_data s) key = None" "length key \<le> MAX_KEY_LEN"
    "length data \<le> MAX_VALUE_LEN" "\<forall>e \<in> set (hs_data s). \<not> heap_expired clk (hs_ttl_secs s) (snd e)"
  shows "heap_put clk key data ttl ts pr s =
    (True, s\<lparr>hs_data := map_set key \<lparr>he_value = data, he_timestamp = ts, he_ttl = ttl\<rparr>
       (drop (Suc (length (hs_data s)) - unat (hs_max_recs s)) (hs_data s))\<rparr>)"
proof -
  have "unat (hs_max_recs s) \<noteq> 0" using assms(1) by (simp add: word_gt_0 unat_eq_0)
  moreover have "filter (\<lambda>e. \<not> heap_expired clk (hs_ttl_secs s) (snd e)) (hs_data s) = hs_data s"
    using assms(5) by (simp add: filter_id_conv)
  ultimately show ?thesis using assms by (simp add: heap_put_def heap_valid_def evict_smallest_eq Let_def)
qed

definition heap_demo :: heap_store where
  "heap_demo = \<lparr>hs_data = [([1], \<lparr>he_value = [10], he_timestamp = 90, he_ttl = 0\<rparr>),
     ([5], \<lparr>he_value = [50], he_timestamp = 10, he_ttl = 0\<rparr>)], hs_ttl_secs = 0, hs_max_recs = 2\<rparr>"

theorem heap_put_evicts_smallest_keys_witness:
  "map fst (hs_data (snd (heap_put \<lparr>clk_time = 99, clk_millis = 0\<rparr> [3] [30] 0 99 0 heap_demo))) = [[3], [5]]"
proof -
  have "heap_put \<lparr>clk_time = 99, clk_millis = 0\<rparr> [3] [30] 0 99 0 heap_demo =
    (True, heap_demo\<lparr>hs_data := map_set [3] \<lparr>he_value = [30], he_timestamp = 99, he_ttl = 0\<rparr>
       (drop (Suc (length (hs_data heap_demo)) - unat (hs_max_recs heap_demo)) (hs_data heap_demo))\<rparr>)"
    by (rule heap_put_evicts_smallest_keys)
      (simp_all add: heap_demo_def heap_expired_def MAX_KEY_LEN_def MAX_VALUE_LEN_def)
  then show ?thesis by (simp add: heap_demo_def)
qed

section \<open>What the store shows\<close>

definition heap_view :: "clock \<Rightarrow> heap_store \<Rightarrow> bytes \<Rightarrow> bytes option" where
  "heap_view clk s k = (case map_of (hs_data s) k of None \<Rightarrow> None
     | Some e \<Rightarrow> if heap_expired clk (hs_ttl_secs s) e then None else Some (he_value e))"

text \<open>A value is never longer than a \<open>put\<close> accepts.\<close>

definition heap_ok :: "heap_store \<Rightarrow> bool" where
  "heap_ok s \<longleftrightarrow> ascending (hs_data s) \<and> (\<forall>p \<in> set (hs_data s). value_fits (he_value (snd p)))"

lemma heap_view_filter:
  assumes "ascending (hs_data s)"
  shows "(case map_of (filter (\<lambda>e. \<not> heap_expired clk (hs_ttl_secs s) (snd e)) (hs_data s)) k of
      None \<Rightarrow> None | Some e \<Rightarrow> if heap_expired clk (hs_ttl_secs s) e then None else Some (he_value e)) =
    heap_view clk s k"
  using ascending_distinct [OF assms]
  by (simp add: heap_view_def map_of_filter_distinct split: option.split)

lemma heap_put_ok:
  assumes "heap_ok s" "hs_max_recs s = 0" "length key \<le> MAX_KEY_LEN" "value_fits data"
  shows "fst (heap_put clk key data ttl ts pr s) \<and> heap_ok (snd (heap_put clk key data ttl ts pr s)) \<and>
    hs_max_recs (snd (heap_put clk key data ttl ts pr s)) = 0 \<and>
    heap_view clk (snd (heap_put clk key data ttl ts pr s)) = (heap_view clk s)
      (key := if heap_expired clk (hs_ttl_secs s) \<lparr>he_value = data, he_timestamp = ts, he_ttl = ttl\<rparr>
              then None else Some data)"
proof -
  let ?e = "\<lparr>he_value = data, he_timestamp = ts, he_ttl = ttl\<rparr>"
  let ?f = "filter (\<lambda>e. \<not> heap_expired clk (hs_ttl_secs s) (snd e)) (hs_data s)"
  have put: "heap_put clk key data ttl ts pr s = (True, s\<lparr>hs_data := map_set key ?e ?f\<rparr>)"
    using assms by (simp add: heap_put_def heap_valid_def value_fits_def)
  have a: "ascending (hs_data s)" "ascending ?f" using assms(1) by (simp_all add: heap_ok_def)
  have "heap_ok (s\<lparr>hs_data := map_set key ?e ?f\<rparr>)"
    using assms(1,4) ascending_map_set [OF a(2), of key ?e] set_map_set [of key ?e ?f]
    unfolding heap_ok_def by fastforce
  moreover have "heap_view clk (s\<lparr>hs_data := map_set key ?e ?f\<rparr>) k = ((heap_view clk s)
      (key := if heap_expired clk (hs_ttl_secs s) ?e then None else Some data)) k" for k
    using heap_view_filter [OF a(1), of clk k] a(2)
    by (cases "k = key") (simp_all add: heap_view_def cong: option.case_cong)
  ultimately show ?thesis using assms(2) by (auto simp: put)
qed

lemma heap_erase_ok: "heap_ok s \<Longrightarrow> heap_ok (s\<lparr>hs_data := map_erase k (hs_data s)\<rparr>)"
  by (auto simp: heap_ok_def map_erase_def)

lemma heap_view_erase:
  "heap_view clk (s\<lparr>hs_data := map_erase k (hs_data s)\<rparr>) = (heap_view clk s)(k := None)"
  by (rule ext) (simp add: heap_view_def cong: option.case_cong)

lemma heap_get_ok:
  assumes "heap_ok s" "length k \<le> MAX_KEY_LEN"
  shows "fst (heap_get clk k True n s) = map_option (\<lambda>v. (take (unat n) v, of_nat (length v))) (heap_view clk s k) \<and>
    heap_ok (snd (heap_get clk k True n s)) \<and> heap_view clk (snd (heap_get clk k True n s)) = heap_view clk s \<and>
    hs_max_recs (snd (heap_get clk k True n s)) = hs_max_recs s"
proof (cases "map_of (hs_data s) k")
  case None
  with assms show ?thesis by (simp add: heap_get_def heap_valid_def heap_view_def)
next
  case (Some e)
  show ?thesis
  proof (cases "heap_expired clk (hs_ttl_secs s) e")
    case True
    then have "heap_view clk s k = None" using Some by (simp add: heap_view_def)
    then have "(heap_view clk s)(k := None) = heap_view clk s" by (simp add: fun_upd_idem)
    with True Some assms show ?thesis
      by (simp add: heap_get_def heap_valid_def heap_erase_ok heap_view_erase \<open>heap_view clk s k = None\<close>)
  next
    case False
    have "take (min (unat n) (length (he_value e))) (he_value e) = take (unat n) (he_value e)"
      by (simp add: min_def)
    with False Some assms show ?thesis by (simp add: heap_get_def heap_valid_def heap_view_def)
  qed
qed

lemma heap_view_fits: "heap_ok s \<Longrightarrow> heap_view clk s k = Some v \<Longrightarrow> value_fits v"
  by (auto simp: heap_view_def heap_ok_def split: option.splits if_splits dest!: map_of_SomeD)

lemma heap_get_vec_ok:
  assumes "heap_ok s" "key_fits k"
  shows "fst (heap_get_vec clk k s) = heap_view clk s k \<and> heap_ok (snd (heap_get_vec clk k s)) \<and>
    heap_view clk (snd (heap_get_vec clk k s)) = heap_view clk s \<and>
    hs_max_recs (snd (heap_get_vec clk k s)) = hs_max_recs s"
proof -
  have k: "length k \<le> MAX_KEY_LEN" "narrow8 k = k"
    using assms(2) by (simp_all add: key_fits_def MAX_KEY_LEN_def)
  have n: "unat (of_nat MAX_VALUE_LEN :: u16) = 1024" by (simp add: MAX_VALUE_LEN_def)
  show ?thesis
  proof (cases "heap_view clk s k")
    case None
    with heap_get_ok [OF assms(1) k(1), of clk "of_nat MAX_VALUE_LEN"] show ?thesis
      by (auto simp: heap_get_vec_def k(2) split: prod.splits)
  next
    case (Some v)
    have "length v \<le> 1024" using heap_view_fits [OF assms(1) Some] by (simp add: value_fits_def MAX_VALUE_LEN_def)
    then have "unat (of_nat (length v) :: u16) = length v" "take 1024 v = v" by (simp_all add: unat_of_nat)
    with heap_get_ok [OF assms(1) k(1), of clk "of_nat MAX_VALUE_LEN"] Some show ?thesis
      by (auto simp: heap_get_vec_def k(2) n split: prod.splits)
  qed
qed

section \<open>The contract\<close>

definition heap_backend :: "heap_store backend" where
  "heap_backend = \<lparr>b_valid = heap_valid, b_put = heap_put_vec, b_get = heap_get_vec,
     b_remove = (\<lambda>clk. heap_remove_vec), b_exists = (\<lambda>clk k s. (heap_exists_vec k s, s)),
     b_size = heap_size, b_clear = heap_clear,
     b_entries = (\<lambda>s. (map (\<lambda>i. (hi_key i, hi_value i)) (heap_walk (heap_begin s)), s))\<rparr>"

interpretation heap: kv_store heap_backend "\<lambda>s. heap_ok s \<and> hs_max_recs s = 0" "\<lambda>s. True" heap_view
proof unfold_locales
  fix s :: heap_store and k v clk ttl pr
  assume ok: "heap_ok s \<and> hs_max_recs s = 0"
  show "b_valid heap_backend s" by (simp add: heap_backend_def heap_valid_def)
  have walk: "map (\<lambda>i. (hi_key i, hi_value i)) (heap_walk (heap_begin s)) =
      map (\<lambda>(k, e). (k, he_value e)) (hs_data s)"
    by (simp add: heap_begin_def heap_iterator_at_def heap_walk_load heap_item_of_def case_prod_unfold)
  show "distinct_keys (fst (b_entries heap_backend s)) \<and>
      (\<forall>k v. heap_view clk s k = Some v \<longrightarrow> (k, v) \<in> set (fst (b_entries heap_backend s)))"
    using ok ascending_distinct [of "hs_data s"]
    by (force simp: heap_backend_def walk heap_ok_def heap_view_def comp_def case_prod_unfold
        split: option.splits if_splits dest!: map_of_SomeD)
  assume k: "key_fits k"
  then have nk: "length k \<le> MAX_KEY_LEN" "narrow8 k = k" by (simp_all add: key_fits_def MAX_KEY_LEN_def)
  show "fst (b_get heap_backend clk k s) = heap_view clk s k \<and>
      (heap_ok (snd (b_get heap_backend clk k s)) \<and> hs_max_recs (snd (b_get heap_backend clk k s)) = 0) \<and>
      heap_view clk (snd (b_get heap_backend clk k s)) = heap_view clk s \<and> (True \<longrightarrow> True)"
    using heap_get_vec_ok [OF conjunct1 [OF ok] k] ok by (simp add: heap_backend_def)
  show "fst (b_remove heap_backend clk k s) \<and>
      (heap_ok (snd (b_remove heap_backend clk k s)) \<and> hs_max_recs (snd (b_remove heap_backend clk k s)) = 0) \<and>
      heap_view clk (snd (b_remove heap_backend clk k s)) = (heap_view clk s)(k := None)"
    using ok nk by (simp add: heap_backend_def heap_remove_vec_def heap_remove_def heap_valid_def
        heap_erase_ok heap_view_erase)
  show "(heap_view clk s k \<noteq> None \<longrightarrow> fst (b_exists heap_backend clk k s)) \<and>
      (heap_ok (snd (b_exists heap_backend clk k s)) \<and> hs_max_recs (snd (b_exists heap_backend clk k s)) = 0) \<and>
      heap_view clk (snd (b_exists heap_backend clk k s)) = heap_view clk s \<and> (True \<longrightarrow> True)"
    using ok nk by (simp add: heap_backend_def heap_exists_vec_def heap_exists_def heap_valid_def
        heap_view_def split: option.splits)
  assume v: "value_fits v"
  then have nv: "narrow16 v = v" by (simp add: value_fits_def MAX_VALUE_LEN_def)
  have "\<not> heap_expired clk (hs_ttl_secs s) \<lparr>he_value = v, he_timestamp = clk_time clk, he_ttl = ttl\<rparr>"
    by (auto simp: heap_expired_def Let_def word_gt_0 dest: le_less_trans)
  then show "fst (b_put heap_backend clk k v ttl (clk_time clk) pr s) \<and>
      (heap_ok (snd (b_put heap_backend clk k v ttl (clk_time clk) pr s)) \<and>
       hs_max_recs (snd (b_put heap_backend clk k v ttl (clk_time clk) pr s)) = 0) \<and>
      heap_view clk (snd (b_put heap_backend clk k v ttl (clk_time clk) pr s)) = (heap_view clk s)(k \<mapsto> v)"
    using heap_put_ok [OF conjunct1 [OF ok] conjunct2 [OF ok] nk(1) v, of clk ttl "clk_time clk" pr]
    by (simp add: heap_backend_def heap_put_vec_def nk(2) nv)
qed

text \<open>C22: without a record limit, a \<open>put\<close> with the current time is what the next \<open>get\<close> returns, and it
  leaves what other keys show alone.\<close>

theorem heap_get_after_put:
  assumes "heap_ok s" "hs_max_recs s = 0" "key_fits k" "value_fits v" "key_fits k'"
  shows "fst (heap_get_vec clk k' (snd (heap_put_vec clk k v ttl (clk_time clk) pr s))) =
    (if k' = k then Some v else fst (heap_get_vec clk k' s))"
  using heap.get_after_put [of s k v clk ttl pr] heap.get_after_put_other [of s k v k' clk ttl pr] assms
  by (simp add: heap_backend_def)

theorem heap_get_after_put_witness:
  "fst (heap_get_vec \<lparr>clk_time = 50, clk_millis = 0\<rparr> [1]
     (snd (heap_put_vec \<lparr>clk_time = 50, clk_millis = 0\<rparr> [1] [4, 5] 10 50 0 heap_new))) = Some [4, 5]"
  using heap_get_after_put [of heap_new "[1]" "[4, 5]" "[1]" "\<lparr>clk_time = 50, clk_millis = 0\<rparr>" 10 0]
  by (simp add: heap_new_def heap_ok_def key_fits_def value_fits_def MAX_KEY_LEN_def MAX_VALUE_LEN_def)

text \<open>\<open>exists\<close> and \<open>size\<close> ignore the TTL: a record that \<open>get\<close> no longer returns still exists and still
  counts, until a \<open>put\<close> or a \<open>get\<close> of its key removes it.\<close>

theorem heap_exists_ignores_ttl:
  assumes "map_of (hs_data s) k = Some e" "heap_expired clk (hs_ttl_secs s) e" "length k \<le> MAX_KEY_LEN"
  shows "heap_exists k s \<and> fst (heap_get clk k True n s) = None \<and>
    \<not> heap_exists k (snd (heap_get clk k True n s))"
  using assms by (simp add: heap_exists_def heap_get_def heap_valid_def)

theorem heap_exists_ignores_ttl_witness:
  "heap_exists [5] (heap_set_ttl_secs 60 heap_demo) \<and>
   fst (heap_get \<lparr>clk_time = 99, clk_millis = 0\<rparr> [5] True 9 (heap_set_ttl_secs 60 heap_demo)) = None"
  using heap_exists_ignores_ttl [of "heap_set_ttl_secs 60 heap_demo" "[5]"
      "\<lparr>he_value = [50], he_timestamp = 10, he_ttl = 0\<rparr>" "\<lparr>clk_time = 99, clk_millis = 0\<rparr>" 9]
  by (simp add: heap_demo_def heap_set_ttl_secs_def heap_expired_def MAX_KEY_LEN_def)

theorem heap_walk_all_witness:
  "map hi_key (heap_walk (heap_begin heap_demo)) = [[1], [5]] \<and>
   sorted_wrt (<) (map hi_key (heap_walk (heap_begin heap_demo)))"
  using heap_walk_all [of heap_demo] by (simp add: heap_demo_def heap_item_of_def)

text \<open>C28: every operation keeps the store well formed: the keys strictly ascending, the values within the
  maximal length.\<close>

theorem heap_operations_well_formed:
  assumes "heap_ok s"
  shows "heap_ok (snd (heap_put clk key data ttl ts pr s)) \<and> heap_ok (snd (heap_get clk key has_out n s)) \<and>
    heap_ok (snd (heap_remove key s)) \<and> heap_ok (heap_clear s) \<and> heap_ok (snd (heap_init c s))"
proof -
  have "heap_ok (snd (heap_put clk key data ttl ts pr s))"
  proof (cases "length key > MAX_KEY_LEN \<or> length data > MAX_VALUE_LEN")
    case True
    with assms show ?thesis by (auto simp: heap_put_def heap_valid_def)
  next
    case False
    let ?f = "filter (\<lambda>e. \<not> heap_expired clk (hs_ttl_secs s) (snd e)) (hs_data s)"
    let ?m = "if hs_max_recs s > 0 \<and> map_of ?f key = None then evict_smallest (hs_max_recs s) ?f else ?f"
    let ?e = "\<lparr>he_value = data, he_timestamp = ts, he_ttl = ttl\<rparr>"
    have put: "snd (heap_put clk key data ttl ts pr s) = s\<lparr>hs_data := map_set key ?e ?m\<rparr>"
      using False by (simp add: heap_put_def heap_valid_def Let_def)
    have "set ?m \<subseteq> set (hs_data s)" by (auto simp: evict_smallest_eq dest: in_set_dropD)
    moreover have "ascending ?m" using assms by (simp add: heap_ok_def)
    ultimately show ?thesis
      unfolding put using set_map_set [of key ?e ?m] assms False ascending_map_set [of ?m key ?e]
      by (fastforce simp: heap_ok_def value_fits_def)
  qed
  then show ?thesis
    using assms heap_erase_ok [OF assms]
    by (auto simp: heap_get_def heap_remove_def heap_clear_def heap_init_def heap_valid_def heap_ok_def split: option.split)
qed

theorem heap_operations_well_formed_witness:
  "heap_ok (snd (heap_put \<lparr>clk_time = 99, clk_millis = 0\<rparr> [3] [30] 0 99 0 heap_demo))"
  using heap_operations_well_formed [of heap_demo "\<lparr>clk_time = 99, clk_millis = 0\<rparr>" "[3]" "[30]" 0 99 0]
  by (simp add: heap_demo_def heap_ok_def value_fits_def MAX_VALUE_LEN_def)

end
