(* ===== verification/TypedStore.thy ===== *)
theory TypedStore
  imports FileStoreLaws HeapStore
begin

text \<open>
  \<open>TypedStore.h\<close>: a store of typed keys and values over a byte store. The template parameters \<open>Store\<close>,
  \<open>KeyCodec\<close> and \<open>ValueCodec\<close> are arguments of the definitions: the record of the operations of the byte
  store and two codecs. The client lemmas are proved once, over the contracts \<open>kv_store\<close> and \<open>codec\<close>, and
  hold for \<open>TypedStore<std::string, std::string>\<close> over both byte stores.
\<close>

section \<open>Operations\<close>

definition typed_put ::
  "'s backend \<Rightarrow> 'k codec \<Rightarrow> 'v codec \<Rightarrow> clock \<Rightarrow> 'k \<Rightarrow> 'v \<Rightarrow> u32 \<Rightarrow> u8 \<Rightarrow> 's \<Rightarrow> bool \<times> 's" where
  "typed_put B KC VC clk key val ttl priority s =
     (if \<not> b_valid B s then (False, s)
      else b_put B clk (enc KC key) (enc VC val) ttl (clk_time clk) priority s)"

definition typed_get :: "'s backend \<Rightarrow> 'k codec \<Rightarrow> 'v codec \<Rightarrow> clock \<Rightarrow> 'k \<Rightarrow> 's \<Rightarrow> 'v option \<times> 's" where
  "typed_get B KC VC clk key s =
     (if \<not> b_valid B s then (None, s)
      else case b_get B clk (enc KC key) s of
        (None, s) \<Rightarrow> (None, s)
      | (Some raw, s) \<Rightarrow> (dec VC raw, s))"

definition typed_remove :: "'s backend \<Rightarrow> 'k codec \<Rightarrow> clock \<Rightarrow> 'k \<Rightarrow> 's \<Rightarrow> bool \<times> 's" where
  "typed_remove B KC clk key s =
     (if \<not> b_valid B s then (False, s) else b_remove B clk (enc KC key) s)"

definition typed_exists :: "'s backend \<Rightarrow> 'k codec \<Rightarrow> clock \<Rightarrow> 'k \<Rightarrow> 's \<Rightarrow> bool \<times> 's" where
  "typed_exists B KC clk key s =
     (if \<not> b_valid B s then (False, s) else b_exists B clk (enc KC key) s)"

definition typed_size :: "'s backend \<Rightarrow> 's \<Rightarrow> nat" where
  "typed_size B s = (if \<not> b_valid B s then 0 else b_size B s)"

section \<open>Iterator\<close>

text \<open>\<open>load\<close> ignores the results of the two decoders: when one fails, that half of the current entry
  keeps what it was before.\<close>

record ('k, 'v) typed_entry =
  te_key :: 'k
  te_value :: 'v

record ('k, 'v) typed_iterator =
  ti_rest :: "(bytes \<times> bytes) list"
  ti_current :: "('k, 'v) typed_entry"

definition typed_load :: "'k codec \<Rightarrow> 'v codec \<Rightarrow> ('k, 'v) typed_iterator \<Rightarrow> ('k, 'v) typed_iterator" where
  "typed_load KC VC it = (case ti_rest it of
      [] \<Rightarrow> it
    | (rk, rv) # _ \<Rightarrow>
        let c = ti_current it;
            c = (case dec KC rk of None \<Rightarrow> c | Some k \<Rightarrow> c\<lparr>te_key := k\<rparr>);
            c = (case dec VC rv of None \<Rightarrow> c | Some v \<Rightarrow> c\<lparr>te_value := v\<rparr>)
        in it\<lparr>ti_current := c\<rparr>)"

text \<open>The current entry of a new iterator is default-constructed.\<close>

definition typed_begin :: "'s backend \<Rightarrow> 'k codec \<Rightarrow> 'v codec \<Rightarrow> ('k, 'v) typed_entry \<Rightarrow> 's \<Rightarrow>
    ('k, 'v) typed_iterator \<times> 's" where
  "typed_begin B KC VC dflt s = (case b_entries B s of (es, s) \<Rightarrow>
     (typed_load KC VC \<lparr>ti_rest = es, ti_current = dflt\<rparr>, s))"

definition typed_end :: "('k, 'v) typed_entry \<Rightarrow> ('k, 'v) typed_iterator" where
  "typed_end dflt = \<lparr>ti_rest = [], ti_current = dflt\<rparr>"

definition typed_next :: "'k codec \<Rightarrow> 'v codec \<Rightarrow> ('k, 'v) typed_iterator \<Rightarrow> ('k, 'v) typed_iterator" where
  "typed_next KC VC it = typed_load KC VC (it\<lparr>ti_rest := tl (ti_rest it)\<rparr>)"

definition typed_iterator_neq :: "('k, 'v) typed_iterator \<Rightarrow> ('k, 'v) typed_iterator \<Rightarrow> bool" where
  "typed_iterator_neq a b \<longleftrightarrow> ti_rest a \<noteq> ti_rest b"

lemma typed_load_rest [simp]: "ti_rest (typed_load KC VC it) = ti_rest it"
  by (simp add: typed_load_def Let_def split: list.split)

function typed_walk :: "'k codec \<Rightarrow> 'v codec \<Rightarrow> ('k, 'v) typed_iterator \<Rightarrow> ('k, 'v) typed_entry list" where
  "typed_walk KC VC it =
     (if \<not> typed_iterator_neq it (typed_end (ti_current it)) then []
      else ti_current it # typed_walk KC VC (typed_next KC VC it))"
  by auto
termination
proof (relation "measure (\<lambda>(_, _, it). length (ti_rest it))")
  fix KC VC it assume "\<not> \<not> typed_iterator_neq it (typed_end (ti_current it))"
  then have "ti_rest it \<noteq> []" by (simp add: typed_iterator_neq_def typed_end_def)
  then show "((KC, VC, typed_next KC VC it), KC, VC, it) \<in> measure (\<lambda>(_, _, it). length (ti_rest it))"
    by (simp add: typed_next_def)
qed simp

declare typed_walk.simps [simp del]

text \<open>When the decoders succeed on every entry, the loop sees the decoded entries in the order of the
  store below.\<close>

definition typed_decode :: "'k codec \<Rightarrow> 'v codec \<Rightarrow> bytes \<times> bytes \<Rightarrow> ('k, 'v) typed_entry" where
  "typed_decode KC VC p = \<lparr>te_key = the (dec KC (fst p)), te_value = the (dec VC (snd p))\<rparr>"

lemma typed_walk_load:
  assumes "\<forall>p \<in> set (ti_rest it). dec KC (fst p) \<noteq> None \<and> dec VC (snd p) \<noteq> None"
  shows "typed_walk KC VC (typed_load KC VC it) = map (typed_decode KC VC) (ti_rest it)"
  using assms
proof (induction "ti_rest it" arbitrary: it)
  case Nil
  then show ?case by (subst typed_walk.simps) (simp add: typed_iterator_neq_def typed_end_def)
next
  case (Cons p m)
  have p: "dec KC (fst p) \<noteq> None" "dec VC (snd p) \<noteq> None" "\<forall>p \<in> set m. dec KC (fst p) \<noteq> None \<and> dec VC (snd p) \<noteq> None"
    using Cons(3) unfolding Cons(2) [symmetric] by (metis list.set_intros)+
  have cur: "ti_current (typed_load KC VC it) = typed_decode KC VC p"
    using Cons(2) [symmetric] p(1,2)
    by (auto simp: typed_load_def Let_def typed_decode_def split: prod.split)
  have "typed_walk KC VC (typed_next KC VC (typed_load KC VC it)) = map (typed_decode KC VC) m"
    unfolding typed_next_def
    using Cons(1) [of "typed_load KC VC it\<lparr>ti_rest := tl (ti_rest (typed_load KC VC it))\<rparr>"] p(3)
    by (simp add: Cons(2) [symmetric])
  then show ?case
    by (subst typed_walk.simps) (simp add: Cons(2) [symmetric] typed_iterator_neq_def typed_end_def cur)
qed

section \<open>Over any store that keeps the contract\<close>

locale typed_store = kv_store B inv room view + kc: codec KC + vc: codec VC
  for B :: "'s backend" and inv room view and KC :: "'k codec" and VC :: "'v codec"
begin

definition typed_view :: "clock \<Rightarrow> 's \<Rightarrow> 'k \<Rightarrow> 'v option" where
  "typed_view clk s key = Option.bind (view clk s (enc KC key)) (dec VC)"

lemma typed_get_view:
  assumes "inv s" "key_fits (enc KC key)"
  shows "fst (typed_get B KC VC clk key s) = typed_view clk s key \<and> inv (snd (typed_get B KC VC clk key s)) \<and>
    typed_view clk (snd (typed_get B KC VC clk key s)) = typed_view clk s"
proof -
  obtain v s' where g: "b_get B clk (enc KC key) s = (v, s')" by (cases "b_get B clk (enc KC key) s")
  with get [OF assms, of clk] have "view clk s (enc KC key) = v" "inv s'" "view clk s' = view clk s" by simp_all
  then show ?thesis
    using valid [OF assms(1)] by (cases v) (simp_all add: typed_get_def g typed_view_def [abs_def])
qed

lemma typed_put_view:
  assumes "inv s" "room s" "key_fits (enc KC key)" "value_fits (enc VC val)"
  shows "fst (typed_put B KC VC clk key val ttl pr s) \<and> inv (snd (typed_put B KC VC clk key val ttl pr s)) \<and>
    typed_view clk (snd (typed_put B KC VC clk key val ttl pr s)) = (typed_view clk s)(key \<mapsto> val)"
  using put [OF assms, of clk ttl pr] valid [OF assms(1)]
  by (auto simp: typed_put_def typed_view_def [abs_def] kc.enc_inj vc.dec_enc fun_eq_iff)

lemma typed_remove_view:
  assumes "inv s" "room s" "key_fits (enc KC key)"
  shows "fst (typed_remove B KC clk key s) \<and> inv (snd (typed_remove B KC clk key s)) \<and>
    typed_view clk (snd (typed_remove B KC clk key s)) = (typed_view clk s)(key := None)"
  using remove [OF assms, of clk] valid [OF assms(1)]
  by (auto simp: typed_remove_def typed_view_def [abs_def] kc.enc_inj fun_eq_iff)

lemma typed_get_put:
  assumes "inv s" "room s" "key_fits (enc KC key)" "value_fits (enc VC val)" "key_fits (enc KC key')"
  shows "fst (typed_get B KC VC clk key' (snd (typed_put B KC VC clk key val ttl pr s))) =
    (if key' = key then Some val else fst (typed_get B KC VC clk key' s))"
  using typed_put_view [OF assms(1-4), of clk ttl pr] typed_get_view assms(1,5) by simp

lemma typed_get_remove:
  assumes "inv s" "room s" "key_fits (enc KC key)" "key_fits (enc KC key')"
  shows "fst (typed_get B KC VC clk key' (snd (typed_remove B KC clk key s))) =
    (if key' = key then None else fst (typed_get B KC VC clk key' s))"
  using typed_remove_view [OF assms(1-3), of clk] typed_get_view assms(1,4) by simp

end

interpretation typed_file: typed_store "file_backend jt jp junk" file_inv file_room file_view
    string_codec string_codec
  by unfold_locales

interpretation typed_heap: typed_store heap_backend "\<lambda>s. heap_ok s \<and> hs_max_recs s = 0" "\<lambda>s. True"
    heap_view string_codec string_codec
  by unfold_locales

text \<open>C12: a \<open>TypedStore<std::string, std::string>\<close> over \<open>FileStore\<close> is a map: after a \<open>put\<close>, \<open>get\<close> returns the
  value for its key and is unchanged for every other key; after a \<open>remove\<close> it fails for the key only.\<close>

theorem typed_file_store_is_map:
  assumes "file_inv s" "file_room s" "key_fits (string_encode key)" "value_fits (string_encode val)"
    "key_fits (string_encode key')"
  shows "fst (typed_get (file_backend jt jp junk) string_codec string_codec clk key'
      (snd (typed_put (file_backend jt jp junk) string_codec string_codec clk key val ttl pr s))) =
      (if key' = key then Some val
       else fst (typed_get (file_backend jt jp junk) string_codec string_codec clk key' s)) \<and>
    fst (typed_get (file_backend jt jp junk) string_codec string_codec clk key'
      (snd (typed_remove (file_backend jt jp junk) string_codec clk key s))) =
      (if key' = key then None
       else fst (typed_get (file_backend jt jp junk) string_codec string_codec clk key' s))"
proof -
  have e: "enc string_codec = string_encode" by (simp add: string_codec_def)
  show ?thesis
    using typed_file.typed_get_put [of s key val key' jt jp junk clk ttl pr, unfolded e]
      typed_file.typed_get_remove [of s key key' jt jp junk clk, unfolded e] assms
    by blast
qed

theorem typed_file_store_is_map_witness:
  "fst (typed_get (file_backend 0 0 (put_header [] [] 0 0 0)) string_codec string_codec demo_clock ''k''
     (snd (typed_put (file_backend 0 0 (put_header [] [] 0 0 0)) string_codec string_codec demo_clock ''k'' ''hi'' 5 0
        fresh_store))) = Some ''hi''"
  using typed_file_store_is_map [of fresh_store "''k''" "''hi''" "''k''" 0 0 "put_header [] [] 0 0 0" demo_clock 5 0]
  by (simp add: file_inv_def file_room_def key_fits_def value_fits_def string_encode_def MAX_KEY_LEN_def
      MAX_VALUE_LEN_def max_keys_def)

text \<open>C13: the same over \<open>HeapStore\<close>: the two byte stores cannot be told apart by these operations.\<close>

theorem typed_heap_store_is_map:
  assumes "heap_ok s" "hs_max_recs s = 0" "key_fits (string_encode key)" "value_fits (string_encode val)"
    "key_fits (string_encode key')"
  shows "fst (typed_get heap_backend string_codec string_codec clk key'
      (snd (typed_put heap_backend string_codec string_codec clk key val ttl pr s))) =
      (if key' = key then Some val else fst (typed_get heap_backend string_codec string_codec clk key' s)) \<and>
    fst (typed_get heap_backend string_codec string_codec clk key'
      (snd (typed_remove heap_backend string_codec clk key s))) =
      (if key' = key then None else fst (typed_get heap_backend string_codec string_codec clk key' s))"
proof -
  have e: "enc string_codec = string_encode" by (simp add: string_codec_def)
  show ?thesis
    using typed_heap.typed_get_put [of s key val key' clk ttl pr, unfolded e]
      typed_heap.typed_get_remove [of s key key' clk, unfolded e] assms
    by blast
qed

theorem typed_heap_store_is_map_witness:
  "fst (typed_get heap_backend string_codec string_codec demo_clock ''k''
     (snd (typed_put heap_backend string_codec string_codec demo_clock ''k'' ''hi'' 5 0 heap_new))) = Some ''hi''"
  using typed_heap_store_is_map [of heap_new "''k''" "''hi''" "''k''" demo_clock 5 0]
  by (simp add: heap_new_def heap_ok_def key_fits_def value_fits_def string_encode_def MAX_KEY_LEN_def
      MAX_VALUE_LEN_def)

text \<open>a loop over a string store sees the entries of the store below, decoded, in the same order.\<close>

theorem typed_walk_decodes:
  "typed_walk string_codec string_codec (fst (typed_begin B string_codec string_codec dflt s)) =
   map (\<lambda>(k, v). \<lparr>te_key = the (string_decode k), te_value = the (string_decode v)\<rparr>) (fst (b_entries B s))"
proof -
  obtain es s' where es: "b_entries B s = (es, s')" by (cases "b_entries B s")
  have "dec string_codec b \<noteq> None" for b by (simp add: string_codec_def string_decode_def)
  then have "typed_walk string_codec string_codec (fst (typed_begin B string_codec string_codec dflt s)) =
      map (typed_decode string_codec string_codec) es"
    unfolding typed_begin_def es by (simp add: typed_walk_load)
  then show ?thesis
    by (simp add: es typed_decode_def [abs_def] string_codec_def case_prod_unfold)
qed

end
