(* ===== verification/TieredProps.thy ===== *)
theory TieredProps
  imports TieredOps TypedStore
begin

text \<open>
  The properties of \<open>TypedTieredStore\<close>: over any store below, every operation returns and keeps the linked
  structures consistent, and the cache answers for its keys; over a store that keeps the contract
  \<open>kv_store\<close>, the two levels together are one map.
\<close>

definition demo_params :: "(string, string, heap_store) tier_params" where
  "demo_params = \<lparr>tp_store = heap_backend, tp_key = string_codec, tp_value = string_codec, tp_hash = length,
     tp_key0 = [], tp_value0 = []\<rparr>"

lemma tier_new_ok [simp]: "l1_ok C (tier_new C st)" "cached (tier_new C st) = Map.empty" "t_store (tier_new C st) = st"
  by (simp_all add: tier_new_def reset_l1_ok)

lemma tier_valid_demo [simp]: "tier_valid demo_params t"
  by (simp add: tier_valid_def demo_params_def heap_backend_def heap_valid_def)

section \<open>Any store below\<close>

text \<open>C10: on a consistent cache every operation returns, whatever the store below does (no chain is cyclic),
  and leaves the cache consistent: the order of use and the hash chains list exactly the valid slots, and
  no key is cached twice.\<close>

theorem tier_operations_return:
  assumes "l1_ok C t"
  shows "(\<exists>b t'. tier_put C clk key val ttl pr t = Some (b, t') \<and> l1_ok C t') \<and>
    (\<exists>v t'. tier_get C clk key t = Some (v, t') \<and> l1_ok C t') \<and>
    (\<exists>b t'. tier_remove C clk key t = Some (b, t') \<and> l1_ok C t') \<and>
    (\<exists>b t'. tier_exists C clk key t = Some (b, t') \<and> l1_ok C t') \<and>
    (\<exists>b t'. tier_sync C clk t = Some (b, t') \<and> l1_ok C t') \<and> l1_ok C (tier_clear C t) \<and>
    (\<exists>it t'. tier_begin C clk t = Some (it, t') \<and> l1_ok C t') \<and> (\<exists>it'. tier_next C t it = Some it')"
proof (intro conjI)
  show "\<exists>b t'. tier_put C clk key val ttl pr t = Some (b, t') \<and> l1_ok C t'"
    using tier_put_ok [OF assms, of clk key val ttl pr] by metis
  show "\<exists>v t'. tier_get C clk key t = Some (v, t') \<and> l1_ok C t'"
    using tier_get_ok [OF assms, of clk key] by metis
  show "\<exists>b t'. tier_remove C clk key t = Some (b, t') \<and> l1_ok C t'"
    using tier_remove_ok [OF assms, of clk key] by metis
  show "\<exists>b t'. tier_exists C clk key t = Some (b, t') \<and> l1_ok C t'"
    using tier_exists_ok [OF assms, of clk key] by metis
  show "\<exists>b t'. tier_sync C clk t = Some (b, t') \<and> l1_ok C t'"
    using tier_sync_ok [OF assms, of clk] by metis
  show "l1_ok C (tier_clear C t)" by (rule tier_clear_ok [OF assms])
  show "\<exists>it t'. tier_begin C clk t = Some (it, t') \<and> l1_ok C t'"
    using tier_begin_ok [OF assms, of clk] by metis
  show "\<exists>it'. tier_next C t it = Some it'" by (rule tier_next_ok [OF assms])
qed

theorem tier_operations_return_witness:
  "\<exists>b t'. tier_put demo_params demo_clock ''a'' ''b'' 0 0 (tier_new demo_params heap_new) = Some (b, t') \<and>
     l1_ok demo_params t'"
  using tier_operations_return [of demo_params "tier_new demo_params heap_new" demo_clock "''a''" "''b''" 0 0] by simp

text \<open>C11: a \<open>put\<close> that reports success is what the next \<open>get\<close> returns, unless its TTL is over, with no
  assumption on the store below.\<close>

theorem tier_get_after_put:
  assumes "l1_ok C t" "tier_put C clk key val ttl pr t = Some (True, t')" "tier_valid C t'"
    "expires_at clk ttl = 0 \<or> clk_time clk' < expires_at clk ttl"
  shows "\<exists>t''. tier_get C clk' key t' = Some (Some val, t'') \<and> l1_ok C t''"
proof -
  obtain s where s: "l1_ok C t'" "cached t' key = Some s" "put_entry clk key val ttl pr s"
    using tier_put_ok [OF assms(1), of clk key val ttl pr] assms(2) by (metis option.inject prod.inject)
  have "\<not> slot_expired clk' s" using s(3) assms(4) by (auto simp: slot_expired_def put_entry_def)
  with s tier_get_ok [OF s(1), of clk' key] assms(3) show ?thesis by (metis put_entry_def)
qed

theorem tier_get_after_put_witness:
  "\<exists>t' t''. tier_put demo_params demo_clock ''a'' ''b'' 0 0 (tier_new demo_params heap_new) = Some (True, t') \<and>
     tier_get demo_params demo_clock ''a'' t' = Some (Some ''b'', t'')"
proof -
  have "prune_expired_l1 demo_params demo_clock (tier_new demo_params heap_new) = Some (tier_new demo_params heap_new)"
    by (simp add: prune_expired_l1_def L1_CACHE_SIZE_def upt_rec tier_new_def reset_l1_def)
  moreover have "find_l1 demo_params ''a'' (tier_new demo_params heap_new) = Some None"
    by (cases rule: find_l1_ok [of demo_params "tier_new demo_params heap_new" "''a''"]) simp_all
  moreover have "allocate_l1_slot demo_params demo_clock (tier_new demo_params heap_new) =
      Some (Some 0, tier_new demo_params heap_new)"
    by (simp add: allocate_l1_slot_def free_l1_slot_def L1_CACHE_SIZE_def upt_rec tier_new_def reset_l1_def)
  ultimately obtain t' where
    t': "tier_put demo_params demo_clock ''a'' ''b'' 0 0 (tier_new demo_params heap_new) = Some (True, t')"
    by (simp add: tier_put_def case_prod_unfold Let_def)
  with tier_get_after_put [of demo_params "tier_new demo_params heap_new" demo_clock "''a''" "''b''" 0 0 t' demo_clock]
  show ?thesis by (auto simp: expires_at_def)
qed

text \<open>C20: the order of use implements move-to-front: touching a slot makes it the first of the list, and keeps
  the order of the others.\<close>

theorem touch_moves_to_front:
  assumes "lru_list t L" "i \<in> set L"
  shows "lru_list (touch_l1 i t) (i # remove1 i L)"
proof (cases "i = t_head t")
  case True
  then have "L = i # remove1 i L" using lru_head [OF assms(1)] assms(2) by (cases L) simp_all
  with True assms(1) show ?thesis by (simp add: touch_l1_def)
next
  case False
  have "lru_list (unlink_lru i t) (remove1 i L)" by (rule lru_unlink [OF assms])
  then have "lru_list (link_lru_front i (unlink_lru i t)) (i # remove1 i L)"
    using assms by (intro lru_link) (auto simp: lru_list_def)
  with False show ?thesis by (simp add: touch_l1_def)
qed

theorem touch_moves_to_front_witness:
  "lru_list (touch_l1 1 (link_lru_front 0 (link_lru_front 1 (tier_new demo_params heap_new)))) [1, 0]"
proof -
  have "lru_list (tier_new demo_params heap_new) []"
    by (simp add: lru_list_def tier_new_def reset_l1_def)
  from lru_link [OF lru_link [OF this, of 1], of 0]
  have "lru_list (link_lru_front 0 (link_lru_front 1 (tier_new demo_params heap_new))) [0, 1]"
    by (simp add: L1_CACHE_SIZE_def)
  from touch_moves_to_front [OF this, of 1] show ?thesis by simp
qed

text \<open>C27: a \<open>sync\<close> that reports success leaves no dirty slot.\<close>

theorem sync_leaves_no_dirty:
  assumes "l1_ok C t" "tier_sync C clk t = Some (True, t')"
  shows "dirty_count t' = 0 \<and> l1_ok C t'"
  using tier_sync_ok [OF assms(1), of clk] assms(2) by (metis option.inject prod.inject)

theorem sync_leaves_no_dirty_witness:
  "\<exists>t'. tier_sync demo_params demo_clock (tier_new demo_params heap_new) = Some (True, t') \<and> dirty_count t' = 0"
proof -
  have "tier_sync demo_params demo_clock (tier_new demo_params heap_new) = Some (True, tier_new demo_params heap_new)"
    by (simp add: tier_sync_def prune_expired_l1_def L1_CACHE_SIZE_def upt_rec sync_slot_def tier_new_def reset_l1_def)
  with sync_leaves_no_dirty [of demo_params "tier_new demo_params heap_new" demo_clock] show ?thesis by simp
qed

text \<open>C26: a record that a \<open>get\<close> brings up from the store below is cached without a time to live: it is returned
  at every later time, also when the store below has long expired it.\<close>

theorem filled_entry_never_expires:
  assumes "l1_ok C t" "tier_valid C t" "cached t key = None" "tier_get C clk key t = Some (Some v, t')"
    "cached t' key \<noteq> None" "tier_valid C t'"
  shows "\<exists>t''. tier_get C clk' key t' = Some (Some v, t'')"
proof -
  obtain s where s: "cached t' key = Some s" using assms(5) by blast
  obtain t1 where "l1_ok C t'" "sl_expires_at s = 0 \<and> Some v = Some (sl_value s)"
    using tier_get_ok [OF assms(1), of clk key] assms(2-4) s by (metis option.inject prod.inject)
  moreover from this have "\<not> slot_expired clk' s" by (simp add: slot_expired_def)
  ultimately show ?thesis using tier_get_ok [of C t' clk' key] s assms(6) by (metis option.inject)
qed

text \<open>the expiry time is computed in 32 bits: near the end of the range it wraps, and the entry is expired
  as soon as it is stored, or, when the sum is exactly \<open>2 ^ 32\<close>, never expires.\<close>

theorem expires_at_wraps:
  assumes "ttl \<noteq> 0" "sl_expires_at s = expires_at clk ttl" "2 ^ 32 \<le> unat (clk_time clk) + unat ttl"
  shows "if unat (clk_time clk) + unat ttl = 2 ^ 32 then \<not> slot_expired clk' s else slot_expired clk s"
proof -
  have e: "unat (expires_at clk ttl) = (unat (clk_time clk) + unat ttl) mod 2 ^ 32"
    using assms(1) by (simp add: expires_at_def unat_word_ariths)
  have lt: "unat (clk_time clk) < 2 ^ 32" "unat ttl < 2 ^ 32" by (rule unat_u32_less)+
  have m: "(unat (clk_time clk) + unat ttl) mod 2 ^ 32 = unat (clk_time clk) + unat ttl - 2 ^ 32"
    using lt assms(3) by (simp add: mod_if le_mod_geq)
  show ?thesis
  proof (cases "unat (clk_time clk) + unat ttl = 2 ^ 32")
    case True
    then have "expires_at clk ttl = 0" using e m by (simp add: word_unat_eq_iff)
    with True assms(2) show ?thesis by (simp add: slot_expired_def)
  next
    case False
    then have "unat (expires_at clk ttl) > 0" "unat (expires_at clk ttl) < unat (clk_time clk)"
      using e m lt assms(3) by linarith+
    with False assms(2) show ?thesis by (auto simp: slot_expired_def word_le_nat_alt)
  qed
qed

theorem expires_at_wraps_witness:
  "slot_expired \<lparr>clk_time = 0xFFFFFFF0, clk_millis = 0\<rparr>
     ((empty_slot demo_params)\<lparr>sl_expires_at := expires_at \<lparr>clk_time = 0xFFFFFFF0, clk_millis = 0\<rparr> 60\<rparr>)"
  using expires_at_wraps [of 60
      "(empty_slot demo_params)\<lparr>sl_expires_at := expires_at \<lparr>clk_time = 0xFFFFFFF0, clk_millis = 0\<rparr> 60\<rparr>"
      "\<lparr>clk_time = 0xFFFFFFF0, clk_millis = 0\<rparr>"]
  by simp

definition demo_heap :: heap_store where
  "demo_heap = heap_new\<lparr>hs_data := [([97], \<lparr>he_value = [98], he_timestamp = 90, he_ttl = 20\<rparr>)]\<rparr>"

lemma demo_allocate:
  "allocate_l1_slot C clk (tier_new C st) = Some (Some 0, tier_new C st)"
  "allocate_l1_slot C clk (tier_new C st'\<lparr>t_store := st\<rparr>) = Some (Some 0, tier_new C st'\<lparr>t_store := st\<rparr>)"
  by (simp_all add: allocate_l1_slot_def free_l1_slot_def L1_CACHE_SIZE_def upt_rec tier_new_def reset_l1_def)

lemma demo_find: "find_l1 C key (tier_new C st) = Some None"
  by (cases rule: find_l1_ok [of C "tier_new C st" key]) simp_all

theorem filled_entry_never_expires_witness:
  "\<exists>t' t''. tier_get demo_params demo_clock ''a'' (tier_new demo_params demo_heap) = Some (Some ''b'', t') \<and>
     tier_get demo_params \<lparr>clk_time = 5000, clk_millis = 0\<rparr> ''a'' t' = Some (Some ''b'', t'') \<and>
     fst (typed_get heap_backend string_codec string_codec \<lparr>clk_time = 5000, clk_millis = 0\<rparr> ''a'' demo_heap) = None"
proof -
  have enc: "string_encode ''a'' = [97]" by (simp add: string_encode_def)
  have "string_encode ''b'' = [98]" by (simp add: string_encode_def)
  then have dec: "string_decode [98] = Some ''b''" using str_codec.dec_enc [of "''b''"] by (simp add: string_codec_def)
  let ?get = "\<lambda>clk. b_get heap_backend clk (string_encode ''a'') demo_heap"
  have g: "?get demo_clock = (Some [98], demo_heap)"
    by (simp add: heap_backend_def heap_get_vec_def heap_get_def heap_valid_def enc demo_heap_def heap_expired_def
        MAX_KEY_LEN_def MAX_VALUE_LEN_def demo_clock_def)
  have late: "fst (?get \<lparr>clk_time = 5000, clk_millis = 0\<rparr>) = None"
    by (simp add: heap_backend_def heap_get_vec_def heap_get_def heap_valid_def enc demo_heap_def heap_expired_def
        MAX_KEY_LEN_def)
  let ?t = "tier_new demo_params demo_heap"
  let ?f = "\<lambda>s. s\<lparr>sl_key := ''a'', sl_value := ''b'', sl_dirty := False, sl_valid := True, sl_in_l2 := True\<rparr>"
  let ?t' = "link_lru_front 0 (link_l1_hash demo_params 0 (upd_slot 0 ?f ?t))"
  have st: "?t\<lparr>t_store := demo_heap\<rparr> = ?t" by (rule tier.equality) simp_all
  have get: "tier_get demo_params demo_clock ''a'' ?t = Some (Some ''b'', ?t')"
    unfolding tier_get_def demo_find
    by (simp add: demo_params_def [THEN arg_cong, of tp_store, simplified]
        demo_params_def [THEN arg_cong, of tp_key, simplified] demo_params_def [THEN arg_cong, of tp_value, simplified]
        string_codec_def g dec st demo_allocate(1))
  have blank: "\<not> sl_valid (t_slots ?t ! 0)" by (simp add: tier_new_def reset_l1_def L1_CACHE_SIZE_def)
  have "cached ?t' ''a'' \<noteq> None"
    using insert_ok(2) [of demo_params ?t 0 ?f "''a''"] blank by (simp add: L1_CACHE_SIZE_def)
  from filled_entry_never_expires [OF _ _ _ get this, of "\<lparr>clk_time = 5000, clk_millis = 0\<rparr>"]
  obtain t'' where "tier_get demo_params \<lparr>clk_time = 5000, clk_millis = 0\<rparr> ''a'' ?t' = Some (Some ''b'', t'')" by auto
  moreover have "fst (typed_get heap_backend string_codec string_codec \<lparr>clk_time = 5000, clk_millis = 0\<rparr> ''a'' demo_heap) = None"
    using late by (auto simp: typed_get_def string_codec_def split: prod.split option.split)
  ultimately show ?thesis using get by blast
qed

text \<open>C25: \<open>sync\<close> drops a dirty entry whose record is gone from the store below, as the test
  \<open>test_typed_tiered_store_sync_drops_dirty_entry_pruned_from_l2\<close> wants it: the new value is not written
  anywhere, and the step reports no failure.\<close>

theorem sync_drops_unwritten_value:
  assumes "l1_ok C t" "i \<in> valid_slots t" "sl_dirty (t_slots t ! i)" "sl_in_l2 (t_slots t ! i)"
    "\<not> fst (b_exists (tp_store C) clk (enc (tp_key C) (slot_key t i)) (t_store t))"
  shows "\<exists>t'. sync_slot C clk i (b, t) = Some (b, t') \<and> cached t' (slot_key t i) = None \<and>
    t_store t' = snd (b_exists (tp_store C) clk (enc (tp_key C) (slot_key t i)) (t_store t))"
proof -
  obtain st where ex: "b_exists (tp_store C) clk (enc (tp_key C) (sl_key (t_slots t ! i))) (t_store t) = (False, st)"
    using assms(5) by (cases "b_exists (tp_store C) clk (enc (tp_key C) (slot_key t i)) (t_store t)")
      (simp add: slot_key_def)
  have v: "sl_valid (t_slots t ! i)" using assms(2) by (simp add: valid_slots_def)
  obtain t' where t': "remove_l1_slot C i (t\<lparr>t_store := st\<rparr>) = Some t'" "t_store t' = st"
    "cached t' = (cached t)(slot_key t i := None)"
    using remove_l1_slot_ok [of C "t\<lparr>t_store := st\<rparr>" i] assms(1,2) by auto
  have "sync_slot C clk i (b, t) = Some (b, t')"
    using assms(3,4) v ex t'(1) by (simp add: sync_slot_def l2_exists_def)
  with t' ex show ?thesis by (simp add: slot_key_def)
qed

theorem sync_drops_unwritten_value_witness:
  "\<exists>t t'. cached t ''a'' \<noteq> None \<and> sync_slot demo_params demo_clock 0 (True, t) = Some (True, t') \<and>
     cached t' ''a'' = None \<and> hs_data (t_store t') = []"
proof -
  let ?t = "tier_new demo_params heap_new"
  let ?f = "\<lambda>s. s\<lparr>sl_key := ''a'', sl_value := ''b'', sl_dirty := True, sl_valid := True, sl_in_l2 := True\<rparr>"
  let ?t' = "link_lru_front 0 (link_l1_hash demo_params 0 (upd_slot 0 ?f ?t))"
  have blank: "0 < L1_CACHE_SIZE" "\<not> sl_valid (t_slots ?t ! 0)"
    by (simp_all add: tier_new_def reset_l1_def L1_CACHE_SIZE_def)
  note ins = insert_ok [of demo_params ?t 0 ?f "''a''", OF _ blank, simplified]
  have core: "core (t_slots ?t' ! 0) = core (?f (t_slots ?t ! 0))"
  proof -
    have "same_slots core (upd_slot 0 ?f ?t) ?t'"
      by (rule same_slots_trans [OF link_hash_frame(4) link_lru_frame(3)]) simp_all
    then show ?thesis by (simp add: same_slots_def tier_new_def reset_l1_def L1_CACHE_SIZE_def)
  qed
  note cf = core_fields [OF core]
  have "\<not> fst (b_exists (tp_store demo_params) demo_clock (enc (tp_key demo_params) (slot_key ?t' 0)) (t_store ?t'))"
    using ins(3) by (simp add: demo_params_def heap_backend_def heap_exists_vec_def heap_exists_def heap_new_def)
  from sync_drops_unwritten_value [OF ins(1) _ _ _ this, of True] obtain t' where
    "sync_slot demo_params demo_clock 0 (True, ?t') = Some (True, t')" "cached t' (slot_key ?t' 0) = None"
    "t_store t' = heap_new"
    using ins(3,4) cf by (auto simp: demo_params_def heap_backend_def)
  moreover have "cached ?t' ''a'' \<noteq> None" using ins(2) by simp
  ultimately show ?thesis using cf(1) by (intro exI [of _ ?t'] exI [of _ t']) (simp add: slot_key_def heap_new_def)
qed

end
