(* ===== verification/Printing.thy ===== *)
theory Printing
  imports FileIO
begin

text \<open>
  \<open>Print.h\<close>, the base class that gives a \<open>File\<close> its \<open>print\<close> and \<open>println\<close> off the board. The virtual
  writes are a record \<open>sink\<close> over an arbitrary object; \<open>file_sink\<close> is the one that \<open>File\<close> provides. \<open>long\<close>
  and \<open>size_t\<close> have 64 bits. Whether \<open>char\<close> is signed differs between the platforms and is the
  argument \<open>schar\<close>.
\<close>

record 's sink =
  sk_write1 :: "u8 \<Rightarrow> 's \<Rightarrow> u64 \<times> 's"
  sk_write :: "bytes \<Rightarrow> 's \<Rightarrow> u64 \<times> 's"

definition char_val :: "bool \<Rightarrow> u8 \<Rightarrow> int" where
  "char_val schar c = (if schar then sint c else uint c)"

lemma char_val_ascii: "c < 0x80 \<Longrightarrow> char_val schar c = uint c"
  using order_trans [of "- 128" 0 "uint c"]
  by (auto simp: char_val_def word_less_def sint_uint signed_take_bit_int_eq_self_iff)

section \<open>Writing\<close>

text \<open>The default of the virtual \<open>write(buffer, size)\<close>.\<close>

fun write_each :: "'s sink \<Rightarrow> bytes \<Rightarrow> u64 \<Rightarrow> 's \<Rightarrow> u64 \<times> 's" where
  "write_each snk [] n s = (n, s)"
| "write_each snk (b # bs) n s = (case sk_write1 snk b s of (w, s) \<Rightarrow> write_each snk bs (n + w) s)"

definition print_chars :: "'s sink \<Rightarrow> bytes \<Rightarrow> 's \<Rightarrow> u64 \<times> 's" where
  "print_chars snk str s = sk_write snk str s"

text \<open>A C string; \<open>None\<close> is the null pointer.\<close>

definition print_cstr :: "'s sink \<Rightarrow> bytes option \<Rightarrow> 's \<Rightarrow> u64 \<times> 's" where
  "print_cstr snk str s = (case str of None \<Rightarrow> (0, s)
     | Some str \<Rightarrow> sk_write snk (takeWhile (\<lambda>c. c \<noteq> 0) str) s)"

definition print_char :: "'s sink \<Rightarrow> u8 \<Rightarrow> 's \<Rightarrow> u64 \<times> 's" where
  "print_char snk c s = sk_write1 snk c s"

section \<open>Numbers\<close>

text \<open>The digits are stored from the end of a buffer of 64 bytes towards its front; \<open>room\<close> is the number
  of bytes left before the digits, and \<open>None\<close> a digit stored before the start of the buffer.\<close>

definition digit_char :: "bool \<Rightarrow> u64 \<Rightarrow> u8" where
  "digit_char schar m = (let c = ucast m in if char_val schar c < 10 then c + 48 else c + 65 - 10)"

fun fill_digits :: "nat \<Rightarrow> bool \<Rightarrow> u64 \<Rightarrow> u64 \<Rightarrow> bytes \<Rightarrow> bytes option" where
  "fill_digits 0 schar base n str = None"
| "fill_digits (Suc room) schar base n str =
     (let c = n mod base; n = n div base; str = digit_char schar c # str
      in if n = 0 then Some str else fill_digits room schar base n str)"

definition number_text :: "bool \<Rightarrow> u64 \<Rightarrow> u8 \<Rightarrow> bytes option" where
  "number_text schar n base = fill_digits 64 schar (ucast (if base < 2 then 10 else base)) n []"

definition print_number :: "'s sink \<Rightarrow> bool \<Rightarrow> u64 \<Rightarrow> u8 \<Rightarrow> 's \<Rightarrow> (u64 \<times> 's) option" where
  "print_number snk schar n base s = map_option (\<lambda>str. sk_write snk str s) (number_text schar n base)"

text \<open>The overload for \<open>long long\<close> takes the remainder by a multiplication.\<close>

fun fill_digits_ll :: "nat \<Rightarrow> bool \<Rightarrow> u64 \<Rightarrow> u64 \<Rightarrow> bytes \<Rightarrow> bytes option" where
  "fill_digits_ll 0 schar base n str = None"
| "fill_digits_ll (Suc room) schar base n str =
     (let m = n; n = n div base; c = m - base * n; str = digit_char schar c # str
      in if n = 0 then Some str else fill_digits_ll room schar base n str)"

definition number_text_ll :: "bool \<Rightarrow> u64 \<Rightarrow> u8 \<Rightarrow> bytes option" where
  "number_text_ll schar n base = fill_digits_ll 64 schar (ucast (if base < 2 then 10 else base)) n []"

definition print_number_ll :: "'s sink \<Rightarrow> bool \<Rightarrow> u64 \<Rightarrow> u8 \<Rightarrow> 's \<Rightarrow> (u64 \<times> 's) option" where
  "print_number_ll snk schar n base s = map_option (\<lambda>str. sk_write snk str s) (number_text_ll schar n base)"

text \<open>\<open>base\<close> is an \<open>int\<close> that is narrowed to \<open>uint8_t\<close>. The sign is printed only in base ten, and its
  count goes through an \<open>int\<close>. The negation of the smallest number, undefined in C++, wraps here.\<close>

definition print_ulong :: "'s sink \<Rightarrow> bool \<Rightarrow> u64 \<Rightarrow> u32 \<Rightarrow> 's \<Rightarrow> (u64 \<times> 's) option" where
  "print_ulong snk schar n base s =
     (if base = 0 then Some (sk_write1 snk (ucast n) s) else print_number snk schar n (ucast base) s)"

definition print_ulonglong :: "'s sink \<Rightarrow> bool \<Rightarrow> u64 \<Rightarrow> u32 \<Rightarrow> 's \<Rightarrow> (u64 \<times> 's) option" where
  "print_ulonglong snk schar n base s =
     (if base = 0 then Some (sk_write1 snk (ucast n) s) else print_number_ll snk schar n (ucast base) s)"

definition print_sign :: "'s sink \<Rightarrow> u64 \<Rightarrow> u32 \<Rightarrow> 's \<Rightarrow> u32 \<times> u64 \<times> 's" where
  "print_sign snk n base s =
     (if base = 10 \<and> n <s 0 then (case print_char snk 0x2D s of (t, s) \<Rightarrow> (ucast t, - n, s))
      else (0, n, s))"

definition print_long :: "'s sink \<Rightarrow> bool \<Rightarrow> u64 \<Rightarrow> u32 \<Rightarrow> 's \<Rightarrow> (u64 \<times> 's) option" where
  "print_long snk schar n base s = (case print_sign snk n base s of (t, n, s) \<Rightarrow>
     map_option (\<lambda>(w, s). (w + scast t, s)) (print_number snk schar n (ucast base) s))"

definition print_longlong :: "'s sink \<Rightarrow> bool \<Rightarrow> u64 \<Rightarrow> u32 \<Rightarrow> 's \<Rightarrow> (u64 \<times> 's) option" where
  "print_longlong snk schar n base s = (case print_sign snk n base s of (t, n, s) \<Rightarrow>
     map_option (\<lambda>(w, s). (w + scast t, s)) (print_number_ll snk schar n (ucast base) s))"

definition print_uchar :: "'s sink \<Rightarrow> bool \<Rightarrow> u8 \<Rightarrow> u32 \<Rightarrow> 's \<Rightarrow> (u64 \<times> 's) option" where
  "print_uchar snk schar b base s = print_ulong snk schar (ucast b) base s"

definition print_int :: "'s sink \<Rightarrow> bool \<Rightarrow> u32 \<Rightarrow> u32 \<Rightarrow> 's \<Rightarrow> (u64 \<times> 's) option" where
  "print_int snk schar n base s = print_long snk schar (scast n) base s"

definition print_uint :: "'s sink \<Rightarrow> bool \<Rightarrow> u32 \<Rightarrow> u32 \<Rightarrow> 's \<Rightarrow> (u64 \<times> 's) option" where
  "print_uint snk schar n base s = print_ulong snk schar (ucast n) base s"

section \<open>Lines\<close>

definition println :: "'s sink \<Rightarrow> 's \<Rightarrow> u64 \<times> 's" where
  "println snk s = print_cstr snk (Some [13, 10]) s"

text \<open>Every overload of \<open>println\<close> with an argument is a \<open>print\<close> followed by the line end.\<close>

definition with_newline :: "'s sink \<Rightarrow> u64 \<times> 's \<Rightarrow> u64 \<times> 's" where
  "with_newline snk r = (case r of (n, s) \<Rightarrow> case println snk s of (m, s) \<Rightarrow> (n + m, s))"

definition println_chars :: "'s sink \<Rightarrow> bytes \<Rightarrow> 's \<Rightarrow> u64 \<times> 's" where
  "println_chars snk str s = with_newline snk (print_chars snk str s)"

definition println_cstr :: "'s sink \<Rightarrow> bytes option \<Rightarrow> 's \<Rightarrow> u64 \<times> 's" where
  "println_cstr snk str s = with_newline snk (print_cstr snk str s)"

definition println_char :: "'s sink \<Rightarrow> u8 \<Rightarrow> 's \<Rightarrow> u64 \<times> 's" where
  "println_char snk c s = with_newline snk (print_char snk c s)"

definition println_uchar :: "'s sink \<Rightarrow> bool \<Rightarrow> u8 \<Rightarrow> u32 \<Rightarrow> 's \<Rightarrow> (u64 \<times> 's) option" where
  "println_uchar snk schar b base s = map_option (with_newline snk) (print_uchar snk schar b base s)"

definition println_int :: "'s sink \<Rightarrow> bool \<Rightarrow> u32 \<Rightarrow> u32 \<Rightarrow> 's \<Rightarrow> (u64 \<times> 's) option" where
  "println_int snk schar n base s = map_option (with_newline snk) (print_int snk schar n base s)"

definition println_uint :: "'s sink \<Rightarrow> bool \<Rightarrow> u32 \<Rightarrow> u32 \<Rightarrow> 's \<Rightarrow> (u64 \<times> 's) option" where
  "println_uint snk schar n base s = map_option (with_newline snk) (print_uint snk schar n base s)"

definition println_long :: "'s sink \<Rightarrow> bool \<Rightarrow> u64 \<Rightarrow> u32 \<Rightarrow> 's \<Rightarrow> (u64 \<times> 's) option" where
  "println_long snk schar n base s = map_option (with_newline snk) (print_long snk schar n base s)"

definition println_ulong :: "'s sink \<Rightarrow> bool \<Rightarrow> u64 \<Rightarrow> u32 \<Rightarrow> 's \<Rightarrow> (u64 \<times> 's) option" where
  "println_ulong snk schar n base s = map_option (with_newline snk) (print_ulong snk schar n base s)"

definition println_longlong :: "'s sink \<Rightarrow> bool \<Rightarrow> u64 \<Rightarrow> u32 \<Rightarrow> 's \<Rightarrow> (u64 \<times> 's) option" where
  "println_longlong snk schar n base s = map_option (with_newline snk) (print_longlong snk schar n base s)"

definition println_ulonglong :: "'s sink \<Rightarrow> bool \<Rightarrow> u64 \<Rightarrow> u32 \<Rightarrow> 's \<Rightarrow> (u64 \<times> 's) option" where
  "println_ulonglong snk schar n base s = map_option (with_newline snk) (print_ulonglong snk schar n base s)"

section \<open>The sink of a file\<close>

definition file_sink :: "(fhandle \<times> kernel) sink" where
  "file_sink = \<lparr>sk_write1 = (\<lambda>c (f, K). file_write1 c f K),
     sk_write = (\<lambda>bs (f, K). case file_write bs f K of (n, f, K) \<Rightarrow> (of_nat n, f, K))\<rparr>"

section \<open>The digits are those of the number\<close>

text \<open>The value of a digit and of a text, most significant digit first.\<close>

definition digit_value :: "u8 \<Rightarrow> nat" where
  "digit_value c = (if c < 65 then unat c - 48 else unat c - 55)"

definition text_value :: "nat \<Rightarrow> bytes \<Rightarrow> nat" where
  "text_value b str = foldl (\<lambda>v c. v * b + digit_value c) 0 str"

lemma text_value_from: "foldl (\<lambda>v c. v * b + digit_value c) v str = v * b ^ length str + text_value b str"
proof -
  have "foldl (\<lambda>v c. v * b + digit_value c) (v + w) str =
      v * b ^ length str + foldl (\<lambda>v c. v * b + digit_value c) w str" for w
    by (induction str arbitrary: v w) (simp_all add: algebra_simps)
  from this [of 0] show ?thesis by (simp add: text_value_def)
qed

lemma text_value_Cons: "text_value b (c # str) = digit_value c * b ^ length str + text_value b str"
  using text_value_from [of b "digit_value c" str] by (simp add: text_value_def)

lemma digit_char_nat:
  assumes "unat m < 36"
  shows "unat (digit_char schar m) = (if unat m < 10 then unat m + 48 else unat m + 55)"
    and "digit_value (digit_char schar m) = unat m"
proof -
  have c: "unat (ucast m :: u8) = unat m"
    using assms by (simp add: unsigned_ucast_eq take_bit_nat_eq_self)
  moreover have "(ucast m :: u8) < 0x80" using assms c by (simp add: word_less_nat_alt)
  then have "char_val schar (ucast m) = int (unat m)"
    using c by (simp only: char_val_ascii uint_nat)
  then have v: "char_val schar (ucast m) < 10 \<longleftrightarrow> unat m < 10" by linarith
  ultimately show n: "unat (digit_char schar m) = (if unat m < 10 then unat m + 48 else unat m + 55)"
    using assms by (auto simp: digit_char_def Let_def unat_word_ariths unat_sub_if')
  show "digit_value (digit_char schar m) = unat m"
    using assms by (auto simp: digit_value_def n word_less_nat_alt)
qed

lemma fill_digits_value:
  assumes "2 \<le> unat b" "unat b \<le> 36" "unat n < unat b ^ room" "0 < room"
  shows "\<exists>ds. fill_digits room schar b n str = Some (ds @ str) \<and> ds \<noteq> [] \<and> length ds \<le> room \<and>
    text_value (unat b) ds = unat n \<and>
    (\<forall>c\<in>set ds. \<exists>m. unat m < unat b \<and> c = digit_char schar m)"
  using assms
proof (induction room arbitrary: n str)
  case 0
  then show ?case by simp
next
  case (Suc room)
  let ?c = "digit_char schar (n mod b)"
  have m: "unat (n mod b) = unat n mod unat b" and d: "unat (n div b) = unat n div unat b"
    by (simp_all add: unat_mod unat_div)
  have lt: "unat (n mod b) < unat b" using Suc.prems(1) by (simp add: m)
  then have v: "digit_value ?c = unat n mod unat b"
    using digit_char_nat(2) [of "n mod b" schar] Suc.prems(2) by (simp add: m)
  show ?case
  proof (cases "n div b = 0")
    case True
    then have "unat n div unat b = 0" using d by simp
    then have "unat n mod unat b = unat n" by (metis add_0 div_mult_mod_eq mult_0)
    then show ?thesis using True v lt by (auto simp: Let_def text_value_def intro!: exI [of _ "[?c]"])
  next
    case False
    then have "0 < unat n div unat b" using d by (metis gr0I unat_eq_zero)
    moreover have q: "unat n div unat b < unat b ^ room"
      using Suc.prems by (simp add: div_less_iff_less_mult mult.commute)
    ultimately have "0 < room" by (cases room) auto
    with Suc.IH [of "n div b" "?c # str"] Suc.prems(1,2) q d obtain ds where
      ds: "fill_digits room schar b (n div b) (?c # str) = Some (ds @ ?c # str)" "ds \<noteq> []"
        "length ds \<le> room" "text_value (unat b) ds = unat n div unat b"
        "\<forall>c\<in>set ds. \<exists>m. unat m < unat b \<and> c = digit_char schar m" by auto
    have "text_value (unat b) (ds @ [?c]) = unat n"
      using ds(4) v by (simp add: text_value_def)
    then show ?thesis using False ds lt
      by (auto simp: Let_def intro!: exI [of _ "ds @ [?c]"])
  qed
qed

lemma fill_digits_ll_eq: "fill_digits_ll room schar b n str = fill_digits room schar b n str"
proof (induction room arbitrary: n str)
  case (Suc room)
  have "n - b * (n div b) = n mod b" by (simp add: minus_mult_div_eq_mod)
  with Suc show ?case by (simp only: fill_digits.simps fill_digits_ll.simps Let_def)
qed simp

lemma number_text_ll_eq: "number_text_ll schar n base = number_text schar n base"
  by (simp add: number_text_ll_def number_text_def fill_digits_ll_eq)

lemma number_text_value:
  assumes "base \<le> 36"
  obtains ds where "number_text schar n base = Some ds" "ds \<noteq> []" "length ds \<le> 64"
    "text_value (if base < 2 then 10 else unat base) ds = unat n"
    "\<forall>c\<in>set ds. \<exists>m. unat m < (if base < 2 then 10 else unat base) \<and> c = digit_char schar m"
proof -
  let ?b = "ucast (if base < 2 then 10 else base) :: u64"
  have "unat base < 2 ^ LENGTH(64)" using unat_u8_less [of base] by (rule less_trans) simp
  then have b: "unat ?b = (if base < 2 then 10 else unat base)"
    by (simp only: unat_ucast_mod mod_less if_distrib) simp
  have r: "2 \<le> unat ?b" "unat ?b \<le> 36" using assms
    unfolding b by (auto simp: word_less_nat_alt word_le_nat_alt)
  have "unat n < 2 ^ 64" by (rule unat_u64_less)
  also have "\<dots> \<le> unat ?b ^ 64" using r(1) by (rule power_mono) simp
  finally show ?thesis
    using fill_digits_value [OF r, of n 64 schar "[]"] that by (auto simp: number_text_def b)
qed

end
