(* ===== verification/CharStream.thy ===== *)
theory CharStream
  imports Printing "HOL-Library.Sublist"
begin

text \<open>
  \<open>Stream.h\<close>, the base class of \<open>File\<close> off the board: reading with a timeout, numbers, and the search for
  strings. The virtual \<open>read\<close> and \<open>peek\<close> are a record \<open>source\<close> over an arbitrary object; \<open>file_source\<close> is the
  one that \<open>File\<close> provides. The clock is a function from the number of readings to milliseconds. A loop
  that waits for the clock may wait for ever, so every operation is partial (\<open>None\<close>).
\<close>

record 's source =
  src_read :: "'s \<Rightarrow> u8 option \<times> 's"
  src_peek :: "'s \<Rightarrow> u8 option \<times> 's"

record 's char_stream =
  st_obj :: 's
  st_timeout :: u64
  st_start :: u64
  st_ticks :: nat

type_synonym ticks = "nat \<Rightarrow> u32"

definition new_stream :: "'s \<Rightarrow> 's char_stream" where
  "new_stream o' = \<lparr>st_obj = o', st_timeout = 1000, st_start = 0, st_ticks = 0\<rparr>"

definition set_timeout :: "u64 \<Rightarrow> 's char_stream \<Rightarrow> 's char_stream" where
  "set_timeout t st = st\<lparr>st_timeout := t\<rparr>"

section \<open>Reading with a timeout\<close>

text \<open>The loop of \<open>timedRead\<close> and \<open>timedPeek\<close>. The 32-bit reading is subtracted as an \<open>unsigned long\<close>.\<close>

partial_function (option) timed_loop ::
    "('s \<Rightarrow> u8 option \<times> 's) \<Rightarrow> ticks \<Rightarrow> 's char_stream \<Rightarrow> (u8 option \<times> 's char_stream) option" where
  "timed_loop get clk st =
     (let (c, o') = get (st_obj st); st = st\<lparr>st_obj := o'\<rparr>
      in if c \<noteq> None then Some (c, st)
         else let t = clk (st_ticks st); st = st\<lparr>st_ticks := Suc (st_ticks st)\<rparr>
              in if ucast t - st_start st < st_timeout st then timed_loop get clk st
                 else Some (None, st))"

definition start_timer :: "ticks \<Rightarrow> 's char_stream \<Rightarrow> 's char_stream" where
  "start_timer clk st = st\<lparr>st_start := ucast (clk (st_ticks st)), st_ticks := Suc (st_ticks st)\<rparr>"

definition timed_read :: "'s source \<Rightarrow> ticks \<Rightarrow> 's char_stream \<Rightarrow> (u8 option \<times> 's char_stream) option" where
  "timed_read src clk st = timed_loop (src_read src) clk (start_timer clk st)"

definition timed_peek :: "'s source \<Rightarrow> ticks \<Rightarrow> 's char_stream \<Rightarrow> (u8 option \<times> 's char_stream) option" where
  "timed_peek src clk st = timed_loop (src_peek src) clk (start_timer clk st)"

text \<open>A \<open>read()\<close> whose result is dropped.\<close>

definition discard :: "'s source \<Rightarrow> 's char_stream \<Rightarrow> 's char_stream" where
  "discard src st = st\<lparr>st_obj := snd (src_read src (st_obj st))\<rparr>"

text \<open>The \<open>int\<close> of a result: -1 on a timeout.\<close>

definition ch_int :: "u8 option \<Rightarrow> int" where
  "ch_int c = (case c of None \<Rightarrow> - 1 | Some ch \<Rightarrow> uint ch)"

definition is_digit :: "int \<Rightarrow> bool" where
  "is_digit c \<longleftrightarrow> 48 \<le> c \<and> c \<le> 57"

partial_function (option) peek_next_digit ::
    "'s source \<Rightarrow> ticks \<Rightarrow> 's char_stream \<Rightarrow> (u8 option \<times> 's char_stream) option" where
  "peek_next_digit src clk st =
     Option.bind (timed_peek src clk st) (\<lambda>(c, st).
       if ch_int c < 0 then Some (c, st)
       else if ch_int c = 45 then Some (c, st)
       else if is_digit (ch_int c) then Some (c, st)
       else peek_next_digit src clk (discard src st))"

section \<open>Bytes and strings\<close>

fun read_bytes :: "'s source \<Rightarrow> ticks \<Rightarrow> nat \<Rightarrow> 's char_stream \<Rightarrow> (bytes \<times> 's char_stream) option" where
  "read_bytes src clk 0 st = Some ([], st)"
| "read_bytes src clk (Suc n) st =
     Option.bind (timed_read src clk st) (\<lambda>(c, st). case c of
       None \<Rightarrow> Some ([], st)
     | Some ch \<Rightarrow> map_option (\<lambda>(bs, st). (ch # bs, st)) (read_bytes src clk n st))"

fun read_bytes_until ::
    "'s source \<Rightarrow> ticks \<Rightarrow> bool \<Rightarrow> u8 \<Rightarrow> nat \<Rightarrow> 's char_stream \<Rightarrow> (bytes \<times> 's char_stream) option" where
  "read_bytes_until src clk schar t 0 st = Some ([], st)"
| "read_bytes_until src clk schar t (Suc n) st =
     Option.bind (timed_read src clk st) (\<lambda>(c, st). case c of
       None \<Rightarrow> Some ([], st)
     | Some ch \<Rightarrow> if uint ch = char_val schar t then Some ([], st)
         else map_option (\<lambda>(bs, st). (ch # bs, st)) (read_bytes_until src clk schar t n st))"

text \<open>\<open>readString\<close> and \<open>readStringUntil\<close>: \<open>ret\<close> is the string so far.\<close>

partial_function (option) read_string_loop ::
    "'s source \<Rightarrow> ticks \<Rightarrow> (u8 \<Rightarrow> bool) \<Rightarrow> bytes \<Rightarrow> 's char_stream \<Rightarrow> (bytes \<times> 's char_stream) option" where
  "read_string_loop src clk stop ret st =
     Option.bind (timed_read src clk st) (\<lambda>(c, st).
       if c = None \<or> stop (the c) then Some (ret, st)
       else read_string_loop src clk stop (ret @ [the c]) st)"

definition read_string :: "'s source \<Rightarrow> ticks \<Rightarrow> 's char_stream \<Rightarrow> (bytes \<times> 's char_stream) option" where
  "read_string src clk st = read_string_loop src clk (\<lambda>c. False) [] st"

definition read_string_until ::
    "'s source \<Rightarrow> ticks \<Rightarrow> bool \<Rightarrow> u8 \<Rightarrow> 's char_stream \<Rightarrow> (bytes \<times> 's char_stream) option" where
  "read_string_until src clk schar t st = read_string_loop src clk (\<lambda>c. uint c = char_val schar t) [] st"

section \<open>Numbers\<close>

text \<open>The loop of \<open>parseInt\<close>; \<open>value\<close> is a \<open>long\<close>, whose overflow, undefined in C++, wraps here.\<close>

partial_function (option) parse_int_loop ::
    "'s source \<Rightarrow> ticks \<Rightarrow> int \<Rightarrow> int \<Rightarrow> bool \<Rightarrow> u64 \<Rightarrow> 's char_stream \<Rightarrow>
     ((bool \<times> u64) \<times> 's char_stream) option" where
  "parse_int_loop src clk skip c neg v st =
     (let neg' = (if c \<noteq> skip \<and> c = 45 then True else neg);
          v' = (if c \<noteq> skip \<and> c \<noteq> 45 \<and> is_digit c then v * 10 + of_int c - 48 else v)
      in Option.bind (timed_peek src clk (discard src st)) (\<lambda>(c, st).
           if is_digit (ch_int c) \<or> ch_int c = skip then parse_int_loop src clk skip (ch_int c) neg' v' st
           else Some ((neg', v'), st)))"

definition parse_int_skip :: "'s source \<Rightarrow> ticks \<Rightarrow> bool \<Rightarrow> u8 \<Rightarrow> 's char_stream \<Rightarrow>
    (u64 \<times> 's char_stream) option" where
  "parse_int_skip src clk schar skip st =
     Option.bind (peek_next_digit src clk st) (\<lambda>(c, st).
       if ch_int c < 0 then Some (0, st)
       else map_option (\<lambda>((neg, v), st). (if neg then - v else v, st))
              (parse_int_loop src clk (char_val schar skip) (ch_int c) False 0 st))"

definition NO_SKIP_CHAR :: u8 where "NO_SKIP_CHAR = 1"

definition parse_int :: "'s source \<Rightarrow> ticks \<Rightarrow> bool \<Rightarrow> 's char_stream \<Rightarrow> (u64 \<times> 's char_stream) option" where
  "parse_int src clk schar st = parse_int_skip src clk schar NO_SKIP_CHAR st"

section \<open>Searching\<close>

record multi_target =
  tg_str :: bytes
  tg_index :: nat

text \<open>The \<open>do\<close> loop that walks the index back after a mismatch: \<open>k\<close> is the index before it is
  decremented, \<open>orig\<close> the index at the mismatch.\<close>

definition rest_matches :: "bytes \<Rightarrow> nat \<Rightarrow> nat \<Rightarrow> bool" where
  "rest_matches str k diff = list_all (\<lambda>i. str ! i = str ! (i + diff)) [0..<k]"

fun walk_back :: "bool \<Rightarrow> bytes \<Rightarrow> u8 \<Rightarrow> nat \<Rightarrow> nat \<Rightarrow> nat" where
  "walk_back schar str c orig 0 = 0"
| "walk_back schar str c orig (Suc k) =
     (if uint c \<noteq> char_val schar (str ! k) then walk_back schar str c orig k
      else if k = 0 then 1
      else if rest_matches str k (orig - k) then Suc k
      else walk_back schar str c orig k)"

text \<open>One byte offered to all targets, in order: \<open>Inl i\<close> when target \<open>i\<close> is complete.\<close>

fun scan_targets :: "bool \<Rightarrow> u8 \<Rightarrow> nat \<Rightarrow> multi_target list \<Rightarrow> nat + multi_target list" where
  "scan_targets schar c i [] = Inr []"
| "scan_targets schar c i (t # ts) =
     (if uint c = char_val schar (tg_str t ! tg_index t) then
        (if Suc (tg_index t) = length (tg_str t) then Inl i
         else map_sum id (Cons (t\<lparr>tg_index := Suc (tg_index t)\<rparr>)) (scan_targets schar c (Suc i) ts))
      else if tg_index t = 0 then map_sum id (Cons t) (scan_targets schar c (Suc i) ts)
      else map_sum id (Cons (t\<lparr>tg_index := walk_back schar (tg_str t) c (tg_index t) (tg_index t)\<rparr>))
             (scan_targets schar c (Suc i) ts))"

fun zero_length_target :: "nat \<Rightarrow> multi_target list \<Rightarrow> nat option" where
  "zero_length_target i [] = None"
| "zero_length_target i (t # ts) =
     (if length (tg_str t) \<le> 0 then Some i else zero_length_target (Suc i) ts)"

partial_function (option) find_multi_loop ::
    "'s source \<Rightarrow> ticks \<Rightarrow> bool \<Rightarrow> multi_target list \<Rightarrow> 's char_stream \<Rightarrow>
     (nat option \<times> 's char_stream) option" where
  "find_multi_loop src clk schar ts st =
     Option.bind (timed_read src clk st) (\<lambda>(c, st).
       if c = None then Some (None, st)
       else case scan_targets schar (the c) 0 ts of
           Inl i \<Rightarrow> Some (Some i, st)
         | Inr ts \<Rightarrow> find_multi_loop src clk schar ts st)"

definition find_multi ::
    "'s source \<Rightarrow> ticks \<Rightarrow> bool \<Rightarrow> multi_target list \<Rightarrow> 's char_stream \<Rightarrow>
     (nat option \<times> 's char_stream) option" where
  "find_multi src clk schar ts st = (case zero_length_target 0 ts of
       Some i \<Rightarrow> Some (Some i, st)
     | None \<Rightarrow> find_multi_loop src clk schar ts st)"

text \<open>\<open>findUntil\<close> with lengths; \<open>None\<close> is the null terminator.\<close>

definition find_until_len ::
    "'s source \<Rightarrow> ticks \<Rightarrow> bool \<Rightarrow> bytes \<Rightarrow> bytes option \<Rightarrow> 's char_stream \<Rightarrow>
     (bool \<times> 's char_stream) option" where
  "find_until_len src clk schar target terminator st =
     map_option (\<lambda>(r, st). (r = Some 0, st))
       (find_multi src clk schar (case terminator of
            None \<Rightarrow> [\<lparr>tg_str = target, tg_index = 0\<rparr>]
          | Some trm \<Rightarrow> [\<lparr>tg_str = target, tg_index = 0\<rparr>, \<lparr>tg_str = trm, tg_index = 0\<rparr>]) st)"

definition cstr_bytes :: "bytes \<Rightarrow> bytes" where
  "cstr_bytes str = takeWhile (\<lambda>c. c \<noteq> 0) str"

definition find_len :: "'s source \<Rightarrow> ticks \<Rightarrow> bool \<Rightarrow> bytes \<Rightarrow> 's char_stream \<Rightarrow>
    (bool \<times> 's char_stream) option" where
  "find_len src clk schar target st = find_until_len src clk schar target None st"

definition find_cstr :: "'s source \<Rightarrow> ticks \<Rightarrow> bool \<Rightarrow> bytes \<Rightarrow> 's char_stream \<Rightarrow>
    (bool \<times> 's char_stream) option" where
  "find_cstr src clk schar target st = find_until_len src clk schar (cstr_bytes target) None st"

definition find_char :: "'s source \<Rightarrow> ticks \<Rightarrow> bool \<Rightarrow> u8 \<Rightarrow> 's char_stream \<Rightarrow>
    (bool \<times> 's char_stream) option" where
  "find_char src clk schar target st = find_len src clk schar [target] st"

definition find_until :: "'s source \<Rightarrow> ticks \<Rightarrow> bool \<Rightarrow> bytes \<Rightarrow> bytes \<Rightarrow> 's char_stream \<Rightarrow>
    (bool \<times> 's char_stream) option" where
  "find_until src clk schar target terminator st =
     find_until_len src clk schar (cstr_bytes target) (Some (cstr_bytes terminator)) st"

section \<open>The source of a file\<close>

definition file_source :: "kernel \<Rightarrow> fhandle source" where
  "file_source K = \<lparr>src_read = (\<lambda>f. file_read1 f K), src_peek = (\<lambda>f. (file_peek f K, f))\<rparr>"

section \<open>When a timed read returns\<close>

text \<open>The result of the attempt number \<open>k\<close> (from 0) at an object.\<close>

definition attempt :: "('s \<Rightarrow> u8 option \<times> 's) \<Rightarrow> nat \<Rightarrow> 's \<Rightarrow> u8 option" where
  "attempt get k x = fst (get (((\<lambda>x. snd (get x)) ^^ k) x))"

text \<open>The milliseconds that have passed when the loop looks at the clock for the time \<open>k\<close> (from 0).\<close>

definition elapsed :: "ticks \<Rightarrow> nat \<Rightarrow> 's char_stream \<Rightarrow> u64" where
  "elapsed clk k st = ucast (clk (st_ticks st + k)) - st_start st"

lemma attempt_Suc: "attempt get (Suc k) x = attempt get k (snd (get x))"
  by (simp add: attempt_def funpow_Suc_right del: funpow.simps)

lemma timed_loop_returns:
  "(\<exists>r. timed_loop get clk st = Some r) \<longleftrightarrow>
   (\<exists>k. (\<exists>c. attempt get k (st_obj st) = Some c) \<or> st_timeout st \<le> elapsed clk k st)"
proof
  let ?done = "\<lambda>st k. (\<exists>c. attempt get k (st_obj st) = Some c) \<or> st_timeout st \<le> elapsed clk k st"
  have step: "?done (st\<lparr>st_obj := snd (get (st_obj st)), st_ticks := Suc (st_ticks st)\<rparr>) k = ?done st (Suc k)" for st k
    by (simp add: attempt_Suc elapsed_def)
  assume "\<exists>r. timed_loop get clk st = Some r"
  then obtain r where "timed_loop get clk st = Some r" ..
  then show "\<exists>k. ?done st k"
  proof (rule timed_loop.raw_induct [of "\<lambda>get' clk' st r. get' = get \<longrightarrow> clk' = clk \<longrightarrow> (\<exists>k. ?done st k)", rule_format, rotated])
    fix loop :: "('a \<Rightarrow> u8 option \<times> 'a) \<Rightarrow> ticks \<Rightarrow> 'a char_stream \<Rightarrow> (u8 option \<times> 'a char_stream) option"
      and get' clk' st r
    assume IH: "\<And>get' clk' st r. loop get' clk' st = Some r \<Longrightarrow> get' = get \<Longrightarrow> clk' = clk \<Longrightarrow> \<exists>k. ?done st k"
      and r: "(let (c, o') = get' (st_obj st); st = st\<lparr>st_obj := o'\<rparr>
      in if c \<noteq> None then Some (c, st)
         else let t = clk' (st_ticks st); st = st\<lparr>st_ticks := Suc (st_ticks st)\<rparr>
              in if ucast t - st_start st < st_timeout st then loop get' clk' st
                 else Some (None, st)) = Some r" and eq: "get' = get" "clk' = clk"
    show "\<exists>k. ?done st k"
    proof (cases "?done st 0")
      case False
      then have "fst (get (st_obj st)) = None" "ucast (clk (st_ticks st)) - st_start st < st_timeout st"
        by (auto simp: attempt_def elapsed_def not_le)
      with r eq have "loop get clk (st\<lparr>st_obj := snd (get (st_obj st)), st_ticks := Suc (st_ticks st)\<rparr>) = Some r"
        by (simp add: Let_def case_prod_unfold)
      from IH [OF this refl refl] step show ?thesis by blast
    qed blast
  qed simp_all
next
  assume "\<exists>k. (\<exists>c. attempt get k (st_obj st) = Some c) \<or> st_timeout st \<le> elapsed clk k st"
  then obtain k where "(\<exists>c. attempt get k (st_obj st) = Some c) \<or> st_timeout st \<le> elapsed clk k st" ..
  then show "\<exists>r. timed_loop get clk st = Some r"
  proof (induction k arbitrary: st)
    case 0
    then show ?case
      by (subst timed_loop.simps) (auto simp: attempt_def elapsed_def Let_def not_less case_prod_unfold)
  next
    case (Suc k)
    then have "\<exists>r. timed_loop get clk (st\<lparr>st_obj := snd (get (st_obj st)), st_ticks := Suc (st_ticks st)\<rparr>) = Some r"
      by (intro Suc.IH) (simp add: attempt_Suc elapsed_def)
    then show ?case by (subst timed_loop.simps) (simp add: Let_def case_prod_unfold)
  qed
qed

text \<open>C38: \<open>timedRead\<close> returns exactly when some attempt delivers a byte or some reading of the clock, taken as
  an \<open>unsigned long\<close> minus the first, reaches the timeout; otherwise it waits for ever, whatever the
  source of the bytes.\<close>

theorem timed_read_returns_iff:
  "(\<exists>r. timed_read src clk st = Some r) \<longleftrightarrow>
   (\<exists>k. (\<exists>c. attempt (src_read src) k (st_obj st) = Some c) \<or>
     st_timeout st \<le> ucast (clk (st_ticks st + 1 + k)) - ucast (clk (st_ticks st)))"
  unfolding timed_read_def timed_loop_returns by (simp add: start_timer_def elapsed_def)

end
