(* ===== verification/CharStreamLaws.thy ===== *)
theory CharStreamLaws
  imports CharStream
begin

text \<open>
  What the operations of \<open>Stream.h\<close> deliver: the locale \<open>char_source\<close> states what they need of \<open>read\<close> and
  \<open>peek\<close>, and a file open for reading provides it. The search with its walk-back is compared with the
  search for suffixes of the bytes read so far.
\<close>

section \<open>The walk-back keeps the longest match\<close>

definition longest_match :: "bytes \<Rightarrow> bytes \<Rightarrow> nat \<Rightarrow> bool" where
  "longest_match str p k \<longleftrightarrow> k < length str \<and> suffix (take k str) p \<and>
     (\<forall>j. k < j \<longrightarrow> j < length str \<longrightarrow> \<not> suffix (take j str) p)"

text \<open>Bytes that a comparison of an \<open>int\<close> with a \<open>char\<close> compares as bytes.\<close>

definition plain :: "bool \<Rightarrow> bytes \<Rightarrow> bool" where
  "plain schar str \<longleftrightarrow> schar \<longrightarrow> (\<forall>c\<in>set str. c < 0x80)"

lemma plain_nth:
  "plain schar str \<Longrightarrow> i < length str \<Longrightarrow> uint c = char_val schar (str ! i) \<longleftrightarrow> c = str ! i"
  by (cases schar) (auto simp: plain_def char_val_def [of False] char_val_ascii word_uint_eq_iff)

lemma suffix_take_snoc:
  "i < length str \<Longrightarrow> suffix (take (Suc i) str) (p @ [c]) \<longleftrightarrow> str ! i = c \<and> suffix (take i str) p"
  by (auto simp: take_Suc_conv_app_nth)

lemma suffix_eq_drop: "suffix xs ys \<longleftrightarrow> length xs \<le> length ys \<and> xs = drop (length ys - length xs) ys"
  by (auto simp: suffix_def) (metis append_take_drop_id)

lemma rest_matches_iff:
  assumes "j < orig" "orig \<le> length str"
  shows "rest_matches str j (orig - j) \<longleftrightarrow> suffix (take j str) (take orig str)"
proof -
  have "suffix (take j str) (take orig str) \<longleftrightarrow> take j str = drop (orig - j) (take orig str)"
    using assms by (simp add: suffix_eq_drop min_def)
  also have "\<dots> \<longleftrightarrow> (\<forall>i<j. str ! i = str ! (i + (orig - j)))"
    using assms by (auto simp: list_eq_iff_nth_eq add.commute min_def)
  finally show ?thesis by (auto simp: rest_matches_def list_all_iff)
qed

lemma suffix_of_suffix:
  assumes "suffix (take orig str) p" "j \<le> orig" "orig \<le> length str"
  shows "suffix (take j str) (take orig str) \<longleftrightarrow> suffix (take j str) p"
  using assms by (auto intro: suffix_order.trans dest: suffix_length_suffix)

lemma walk_back_spec:
  assumes "plain schar str" "suffix (take orig str) p" "orig < length str" "k \<le> orig"
    and "\<forall>j. k \<le> j \<longrightarrow> j < orig \<longrightarrow> \<not> (str ! j = c \<and> suffix (take j str) p)"
  defines "r \<equiv> walk_back schar str c orig k"
  shows "r \<le> k" "suffix (take r str) (p @ [c])"
    "\<forall>j. r \<le> j \<longrightarrow> j < orig \<longrightarrow> \<not> (str ! j = c \<and> suffix (take j str) p)"
proof -
  have "r \<le> k \<and> suffix (take r str) (p @ [c]) \<and>
      (\<forall>j. r \<le> j \<longrightarrow> j < orig \<longrightarrow> \<not> (str ! j = c \<and> suffix (take j str) p))"
    unfolding r_def using assms(4,5)
  proof (induction k)
    case 0
    then show ?case by simp
  next
    case (Suc k)
    have m: "uint c = char_val schar (str ! k) \<longleftrightarrow> str ! k = c"
      using plain_nth [OF assms(1), of k c] Suc.prems(1) assms(3) by auto
    have s: "rest_matches str k (orig - k) \<longleftrightarrow> suffix (take k str) p"
      using rest_matches_iff [of k orig str] suffix_of_suffix [OF assms(2), of k] Suc.prems(1) assms(3)
      by simp
    show ?case
    proof (cases "str ! k = c \<and> suffix (take k str) p")
      case True
      then have "walk_back schar str c orig (Suc k) = Suc k" using m s by auto
      moreover have "suffix (take (Suc k) str) (p @ [c])"
        using suffix_take_snoc [of k str p c] True Suc.prems(1) assms(3) by simp
      ultimately show ?thesis using Suc.prems(2) by simp
    next
      case False
      then have "walk_back schar str c orig (Suc k) = walk_back schar str c orig k"
        using m s by (cases "k = 0") auto
      moreover have "\<forall>j. k \<le> j \<longrightarrow> j < orig \<longrightarrow> \<not> (str ! j = c \<and> suffix (take j str) p)"
        using Suc.prems(2) False by (metis le_antisym not_less_eq_eq)
      ultimately show ?thesis using Suc.IH Suc.prems(1) by (simp add: le_Suc_eq)
    qed
  qed
  then show "r \<le> k" "suffix (take r str) (p @ [c])"
    "\<forall>j. r \<le> j \<longrightarrow> j < orig \<longrightarrow> \<not> (str ! j = c \<and> suffix (take j str) p)" by blast+
qed

lemma longest_match_hit:
  assumes "longest_match str p k"
  shows "suffix str (p @ [c]) \<longleftrightarrow> str ! k = c \<and> Suc k = length str"
proof
  assume "suffix str (p @ [c])"
  moreover have l: "k < length str" using assms by (simp add: longest_match_def)
  ultimately have "suffix (take (Suc (length str - 1)) str) (p @ [c])" by simp
  then have *: "str ! (length str - 1) = c" "suffix (take (length str - 1) str) p"
    using suffix_take_snoc [of "length str - 1" str p c] l by linarith+
  have "\<not> k < length str - 1" using * assms l unfolding longest_match_def by fastforce
  then have "Suc k = length str" using l by simp
  then show "str ! k = c \<and> Suc k = length str" using *(1) by (simp flip: \<open>Suc k = length str\<close>)
next
  assume "str ! k = c \<and> Suc k = length str"
  then show "suffix str (p @ [c])"
    using assms suffix_take_snoc [of k str p c] by (simp add: longest_match_def)
qed

lemma longest_match_step:
  assumes "longest_match str p k" "plain schar str"
  shows "str ! k = c \<Longrightarrow> Suc k < length str \<Longrightarrow> longest_match str (p @ [c]) (Suc k)"
    and "str ! k \<noteq> c \<Longrightarrow> longest_match str (p @ [c]) (walk_back schar str c k k)"
proof -
  have k: "k < length str" "suffix (take k str) p"
    "\<And>j. k < j \<Longrightarrow> j < length str \<Longrightarrow> \<not> suffix (take j str) p"
    using assms(1) by (auto simp: longest_match_def)
  have up: "\<not> suffix (take j str) (p @ [c])" if "Suc k < j" "j < length str" for j
    using suffix_take_snoc [of "j - 1" str p c] k(3) [of "j - 1"] that by auto
  show "longest_match str (p @ [c]) (Suc k)" if "str ! k = c" "Suc k < length str"
    using that up suffix_take_snoc [of k str p c] k(2) by (simp add: longest_match_def)
  show "longest_match str (p @ [c]) (walk_back schar str c k k)" if ne: "str ! k \<noteq> c"
  proof -
    note w = walk_back_spec [OF assms(2) k(2,1) order_refl, of c]
    have "\<not> suffix (take j str) (p @ [c])" if j: "walk_back schar str c k k < j" "j < length str" for j
    proof (cases "j = Suc k")
      case True
      then show ?thesis using ne suffix_take_snoc [of k str p c] k(1) by simp
    next
      case False
      show ?thesis
      proof (cases "Suc k < j")
        case True
        then show ?thesis by (rule up) (use j in simp)
      next
        case lt: False
        obtain i where i: "j = Suc i" using j(1) by (cases j) auto
        then have "i < k" "walk_back schar str c k k \<le> i" using lt False j(1) by auto
        then have "\<not> (str ! i = c \<and> suffix (take i str) p)" using w(3) by auto
        then show ?thesis using suffix_take_snoc [of i str p c] i j(2) by simp
      qed
    qed
    then show ?thesis using w(1,2) k(1) by (auto simp: longest_match_def)
  qed
qed

section \<open>All targets on one byte\<close>

fun first_hit :: "nat \<Rightarrow> bytes list \<Rightarrow> bytes \<Rightarrow> nat option" where
  "first_hit i [] q = None"
| "first_hit i (str # strs) q = (if suffix str q then Some i else first_hit (Suc i) strs q)"

definition targets_ok :: "bool \<Rightarrow> bytes \<Rightarrow> multi_target list \<Rightarrow> bool" where
  "targets_ok schar p ts \<longleftrightarrow>
     (\<forall>t\<in>set ts. plain schar (tg_str t) \<and> longest_match (tg_str t) p (tg_index t))"

lemma scan_targets_spec:
  assumes "targets_ok schar p ts"
  shows "case first_hit i (map tg_str ts) (p @ [c]) of
      Some j \<Rightarrow> scan_targets schar c i ts = Inl j
    | None \<Rightarrow> \<exists>ts'. scan_targets schar c i ts = Inr ts' \<and> map tg_str ts' = map tg_str ts \<and>
        targets_ok schar (p @ [c]) ts'"
  using assms
proof (induction ts arbitrary: i)
  case Nil
  then show ?case by (simp add: targets_ok_def)
next
  case (Cons t ts)
  have t: "plain schar (tg_str t)" "longest_match (tg_str t) p (tg_index t)"
    and ts: "targets_ok schar p ts"
    using Cons.prems by (auto simp: targets_ok_def)
  have k: "tg_index t < length (tg_str t)" using t(2) by (simp add: longest_match_def)
  have eq: "uint c = char_val schar (tg_str t ! tg_index t) \<longleftrightarrow> tg_str t ! tg_index t = c"
    using plain_nth [OF t(1) k, of c] by auto
  note hit = longest_match_hit [OF t(2), of c]
  note step = longest_match_step [OF t(2,1), of c]
  note IH = Cons.IH [OF ts, of "Suc i"]
  consider (full) "tg_str t ! tg_index t = c" "Suc (tg_index t) = length (tg_str t)"
    | (more) "tg_str t ! tg_index t = c" "Suc (tg_index t) < length (tg_str t)"
    | (miss) "tg_str t ! tg_index t \<noteq> c"
    using k by linarith
  then show ?case
  proof cases
    case full
    then show ?thesis using eq hit by simp
  next
    case more
    then have "\<not> suffix (tg_str t) (p @ [c])" using hit by simp
    with more eq step(1) IH show ?thesis
      by (cases "first_hit (Suc i) (map tg_str ts) (p @ [c])") (auto simp: targets_ok_def t(1))
  next
    case miss
    then have h: "\<not> suffix (tg_str t) (p @ [c])" using hit by simp
    have w: "longest_match (tg_str t) (p @ [c])
        (walk_back schar (tg_str t) c (tg_index t) (tg_index t))" using step(2) miss .
    let ?t = "if tg_index t = 0 then t
      else t\<lparr>tg_index := walk_back schar (tg_str t) c (tg_index t) (tg_index t)\<rparr>"
    have t': "scan_targets schar c i (t # ts) = map_sum id (Cons ?t) (scan_targets schar c (Suc i) ts)"
      using miss eq by simp
    have "tg_str ?t = tg_str t" "longest_match (tg_str ?t) (p @ [c]) (tg_index ?t)"
      using w by auto
    with t' h IH show ?thesis
      by (cases "first_hit (Suc i) (map tg_str ts) (p @ [c])")
        (auto simp: targets_ok_def t(1) simp del: scan_targets.simps)
  qed
qed

text \<open>The search on the bytes to come: the first target complete after the shortest prefix, and the bytes
  left.\<close>

fun search :: "bytes list \<Rightarrow> bytes \<Rightarrow> bytes \<Rightarrow> nat option \<times> bytes" where
  "search strs p [] = (None, [])"
| "search strs p (c # cs) = (case first_hit 0 strs (p @ [c]) of
       Some i \<Rightarrow> (Some i, cs)
     | None \<Rightarrow> search strs (p @ [c]) cs)"

lemma first_hit_pair: "first_hit 0 [a, b] q = (if suffix a q then Some 0 else if suffix b q then Some 1 else None)"
  by simp

lemma search_single:
  "case search [str] p cs of
     (Some i, r) \<Rightarrow> i = 0 \<and> (\<exists>pre. cs = pre @ r \<and> pre \<noteq> [] \<and> suffix str (p @ pre) \<and>
        (\<forall>q. strict_prefix q pre \<longrightarrow> q \<noteq> [] \<longrightarrow> \<not> suffix str (p @ q)))
   | (None, r) \<Rightarrow> r = [] \<and> (\<forall>q. prefix q cs \<longrightarrow> q \<noteq> [] \<longrightarrow> \<not> suffix str (p @ q))"
proof (induction cs arbitrary: p)
  case Nil
  then show ?case by simp
next
  case (Cons c cs)
  show ?case
  proof (cases "suffix str (p @ [c])")
    case True
    then show ?thesis by (auto intro!: exI [of _ "[c]"] simp: strict_prefix_def prefix_Cons)
  next
    case False
    show ?thesis
    proof (cases "search [str] (p @ [c]) cs")
      case (Pair x r)
      show ?thesis
      proof (cases x)
        case None
        with Cons [of "p @ [c]"] Pair have r: "r = []"
          "\<And>q. prefix q cs \<Longrightarrow> q \<noteq> [] \<Longrightarrow> \<not> suffix str ((p @ [c]) @ q)" by auto
        have "\<not> suffix str (p @ q)" if q: "prefix q (c # cs)" "q \<noteq> []" for q
        proof -
          from q obtain q' where "q = c # q'" "prefix q' cs" by (cases q) auto
          then show ?thesis using r(2) [of q'] False by (cases "q' = []") auto
        qed
        with r show ?thesis using Pair None False by (simp del: suffix_snoc)
      next
        case (Some i)
        with Cons [of "p @ [c]"] Pair obtain pre where pre: "i = 0" "cs = pre @ r" "pre \<noteq> []"
          "suffix str ((p @ [c]) @ pre)"
          "\<forall>q. strict_prefix q pre \<longrightarrow> q \<noteq> [] \<longrightarrow> \<not> suffix str ((p @ [c]) @ q)" by auto
        have "\<not> suffix str (p @ q)" if q: "strict_prefix q (c # pre)" "q \<noteq> []" for q
        proof -
          from q obtain q' where q': "q = c # q'" "strict_prefix q' pre"
            by (cases q) auto
          then show ?thesis using pre(5) False by (cases "q' = []") auto
        qed
        with pre show ?thesis using Pair Some False
          by (auto intro!: exI [of _ "c # pre"])
      qed
    qed
  qed
qed

lemma all_pos_Suc:
  assumes "P (1 :: nat)"
  shows "(\<forall>m. 0 < m \<longrightarrow> m < Suc n \<longrightarrow> P m) \<longleftrightarrow> (\<forall>m. 0 < m \<longrightarrow> m < n \<longrightarrow> P (Suc m))"
proof
  assume r: "\<forall>m. 0 < m \<longrightarrow> m < n \<longrightarrow> P (Suc m)"
  show "\<forall>m. 0 < m \<longrightarrow> m < Suc n \<longrightarrow> P m"
  proof (intro allI impI)
    fix m assume m: "0 < m" "m < Suc n"
    show "P m"
    proof (cases "m = 1")
      case False
      then have "P (Suc (m - 1))" using r m by (metis Suc_less_eq Suc_pred One_nat_def zero_less_diff nat_neq_iff less_one)
      then show ?thesis using m(1) by simp
    qed (use assms in simp)
  qed
qed simp

lemma search_pair:
  "fst (search [a, b] p cs) = Some 0 \<longleftrightarrow>
     (\<exists>n. 0 < n \<and> n \<le> length cs \<and> suffix a (p @ take n cs) \<and>
        (\<forall>m. 0 < m \<longrightarrow> m < n \<longrightarrow> \<not> suffix b (p @ take m cs)))"
proof (induction cs arbitrary: p)
  case Nil
  then show ?case by simp
next
  case (Cons c cs)
  let ?P = "\<lambda>n. n \<le> length (c # cs) \<and> suffix a (p @ take n (c # cs)) \<and>
        (\<forall>m. 0 < m \<longrightarrow> m < n \<longrightarrow> \<not> suffix b (p @ take m (c # cs)))"
  consider "suffix a (p @ [c])" | "\<not> suffix a (p @ [c])" "suffix b (p @ [c])"
    | "\<not> suffix a (p @ [c])" "\<not> suffix b (p @ [c])" by blast
  then show ?case
  proof cases
    case 1
    then have "?P 1" by simp
    then show ?thesis using 1 by auto
  next
    case 2
    have "\<not> ?P n" if "0 < n" for n
      using 2 that by (cases "n = 1") (auto intro!: exI [of _ "1 :: nat"])
    then show ?thesis using 2 by auto
  next
    case 3
    have "(\<exists>n. 0 < n \<and> ?P n) \<longleftrightarrow> (\<exists>n. 0 < n \<and> ?P (Suc n))"
    proof
      assume "\<exists>n. 0 < n \<and> ?P n"
      then obtain n where n: "0 < n" "?P n" by blast
      then have "n \<noteq> 1" using 3(1) by auto
      with n show "\<exists>n. 0 < n \<and> ?P (Suc n)" by (intro exI [of _ "n - 1"]) auto
    qed blast
    also have "\<dots> \<longleftrightarrow> (\<exists>n. 0 < n \<and> n \<le> length cs \<and> suffix a ((p @ [c]) @ take n cs) \<and>
        (\<forall>m. 0 < m \<longrightarrow> m < n \<longrightarrow> \<not> suffix b ((p @ [c]) @ take m cs)))"
    proof -
      have "(\<forall>m. 0 < m \<longrightarrow> m < Suc n \<longrightarrow> \<not> suffix b (p @ take m (c # cs))) \<longleftrightarrow>
          (\<forall>m. 0 < m \<longrightarrow> m < n \<longrightarrow> \<not> suffix b ((p @ [c]) @ take m cs))" for n
        using all_pos_Suc [of "\<lambda>m. \<not> suffix b (p @ take m (c # cs))" n] 3(2) by simp
      then show ?thesis by simp
    qed
    finally show ?thesis using 3 Cons [of "p @ [c]"] by (simp del: suffix_snoc append_assoc)
  qed
qed

section \<open>What the operations need of the object\<close>

text \<open>A clock that, from every reading on, sooner or later shows that the timeout has passed.\<close>

definition clock_passes :: "ticks \<Rightarrow> u64 \<Rightarrow> bool" where
  "clock_passes clk tmo \<longleftrightarrow> (\<forall>n. \<exists>m>n. tmo \<le> ucast (clk m) - ucast (clk n))"

definition next_byte :: "bytes \<Rightarrow> u8 option" where
  "next_byte bs = (case bs of [] \<Rightarrow> None | c # _ \<Rightarrow> Some c)"

lemma next_byte_simps [simp]:
  "next_byte [] = None" "next_byte (c # cs) = Some c" "next_byte bs = None \<longleftrightarrow> bs = []"
  by (simp_all add: next_byte_def split: list.split)

lemma walk_back_le: "walk_back schar str c orig k \<le> k"
  by (induction k) auto

lemma char_val_high: "0x80 \<le> c \<Longrightarrow> char_val True c < 0"
proof -
  assume "0x80 \<le> c"
  then have c: "128 \<le> uint c" "uint c < 256" using uint_bounded [of c] by (simp_all add: word_le_def)
  have "sint c = (uint c + 128) mod 256 - 128"
    by (simp add: sint_uint signed_take_bit_eq_take_bit_shift take_bit_eq_mod)
  also have "(uint c + 128) mod 256 = uint c - 128" using c by (simp add: mod_pos_geq mod_pos_pos_trivial)
  finally show ?thesis using c by (simp add: char_val_def)
qed

section \<open>Decimal numbers\<close>

definition digits :: "bytes \<Rightarrow> bool" where
  "digits ds \<longleftrightarrow> (\<forall>d\<in>set ds. is_digit (uint d))"

text \<open>Bytes that \<open>parseInt\<close> passes over before a number.\<close>

definition junk_bytes :: "bytes \<Rightarrow> bool" where
  "junk_bytes bs \<longleftrightarrow> (\<forall>c\<in>set bs. \<not> is_digit (uint c) \<and> uint c \<noteq> 45)"

lemma digit_word:
  assumes "is_digit (uint d)"
  shows "v * 10 + of_int (uint d) - 48 = v * 10 + (of_nat (digit_value d) :: u64)"
proof -
  have d: "48 \<le> unat d" "unat d \<le> 57" using assms unfolding is_digit_def uint_nat by linarith+
  then have "digit_value d = unat d - 48" by (simp add: digit_value_def word_less_nat_alt)
  then have "(of_nat (digit_value d) :: u64) = of_nat (unat d) - 48" using d(1) by (simp add: of_nat_diff)
  moreover have "(of_int (uint d) :: u64) = of_nat (unat d)" by simp
  ultimately show ?thesis by simp
qed

lemma digits_word:
  "digits ds \<Longrightarrow> foldl (\<lambda>v d. v * 10 + of_int (uint d) - 48) (of_nat w :: u64) ds =
    of_nat (foldl (\<lambda>v c. v * 10 + digit_value c) w ds)"
proof (induction ds arbitrary: w)
  case (Cons d ds)
  then have "is_digit (uint d)" "digits ds" by (auto simp: digits_def)
  then show ?case
    using Cons.IH [of "w * 10 + digit_value d"] unfolding foldl_Cons digit_word [OF \<open>is_digit (uint d)\<close>]
    by simp
qed simp

locale char_source =
  fixes src :: "'s source"
    and inv :: "'s \<Rightarrow> bool"
    and rest :: "'s \<Rightarrow> bytes"
  assumes read_byte: "inv x \<Longrightarrow> fst (src_read src x) = next_byte (rest x)"
    and read_rest: "inv x \<Longrightarrow> rest (snd (src_read src x)) = tl (rest x)"
    and read_inv: "inv x \<Longrightarrow> inv (snd (src_read src x))"
    and peek_byte: "inv x \<Longrightarrow> fst (src_peek src x) = next_byte (rest x)"
    and peek_rest: "inv x \<Longrightarrow> rest (snd (src_peek src x)) = rest x"
    and peek_inv: "inv x \<Longrightarrow> inv (snd (src_peek src x))"
begin

text \<open>The stream stands before the bytes \<open>bs\<close> and has a clock that passes its timeout.\<close>

definition at :: "ticks \<Rightarrow> bytes \<Rightarrow> 's char_stream \<Rightarrow> bool" where
  "at clk bs st \<longleftrightarrow> inv (st_obj st) \<and> rest (st_obj st) = bs \<and> clock_passes clk (st_timeout st)"

lemma timed_loop_ok:
  assumes get: "\<And>x. inv x \<Longrightarrow> fst (get x) = next_byte (rest x)"
      "\<And>x. inv x \<Longrightarrow> rest (snd (get x)) = nx (rest x)" "\<And>x. inv x \<Longrightarrow> inv (snd (get x))"
    and nil: "nx [] = []"
    and st: "at clk bs st" and n: "st_ticks st = Suc n" "st_start st = ucast (clk n)"
  shows "\<exists>st'. timed_loop get clk st = Some (next_byte bs, st') \<and> at clk (nx bs) st'"
proof -
  from st have inv: "inv (st_obj st)" and bs: "rest (st_obj st) = bs"
    and clk: "clock_passes clk (st_timeout st)" by (auto simp: at_def)
  show ?thesis
  proof (cases bs)
    case (Cons c cs)
    with get [OF inv] bs clk show ?thesis
      by (subst timed_loop.simps) (auto simp: at_def Let_def split: prod.split)
  next
    case Nil
    from clk obtain m where m: "n < m" "st_timeout st \<le> ucast (clk m) - ucast (clk n)"
      by (auto simp: clock_passes_def)
    have late: "\<exists>st'. timed_loop get clk st = Some (None, st') \<and> at clk [] st'"
      if "at clk [] st" "st_start st = ucast (clk n)"
        "st_ticks st \<le> m" "st_timeout st \<le> ucast (clk m) - ucast (clk n)" for st
      using that
    proof (induction "m - st_ticks st" arbitrary: st)
      case 0
      then have "st_ticks st = m" by simp
      with 0 get [of "st_obj st"] nil show ?case
        by (subst timed_loop.simps) (auto simp: at_def Let_def not_less split: prod.split)
    next
      case (Suc d)
      let ?st = "st\<lparr>st_obj := snd (get (st_obj st)), st_ticks := Suc (st_ticks st)\<rparr>"
      have at: "at clk [] ?st" using Suc.prems(1) get [of "st_obj st"] nil by (auto simp: at_def)
      have "\<exists>st'. timed_loop get clk ?st = Some (None, st') \<and> at clk [] st'"
        using Suc.hyps(2) Suc.prems at by (intro Suc.hyps(1)) auto
      with at Suc.prems(1) get [of "st_obj st"] show ?case
        by (subst timed_loop.simps) (auto simp: at_def Let_def split: prod.split)
    qed
    show ?thesis using late [of st] st n m nil Nil by auto
  qed
qed

lemma start_timer_at:
  "at clk bs st \<Longrightarrow> at clk bs (start_timer clk st)"
  by (simp add: at_def start_timer_def)

lemma timed_read_ok:
  "at clk bs st \<Longrightarrow> \<exists>st'. timed_read src clk st = Some (next_byte bs, st') \<and> at clk (tl bs) st'"
  unfolding timed_read_def
  by (rule timed_loop_ok [where n = "st_ticks st"])
    (auto simp: read_byte read_rest read_inv start_timer_at, simp_all add: start_timer_def)

lemma timed_peek_ok:
  "at clk bs st \<Longrightarrow> \<exists>st'. timed_peek src clk st = Some (next_byte bs, st') \<and> at clk bs st'"
  unfolding timed_peek_def
  by (rule timed_loop_ok [where n = "st_ticks st" and nx = "\<lambda>x. x"])
    (auto simp: peek_byte peek_rest peek_inv start_timer_at, simp_all add: start_timer_def)

lemma discard_ok: "at clk bs st \<Longrightarrow> at clk (tl bs) (discard src st)"
  by (simp add: at_def discard_def read_rest read_inv)

section \<open>Searching\<close>

lemma find_multi_loop_ok:
  assumes "at clk bs st" "targets_ok schar p ts"
  shows "\<exists>st'. find_multi_loop src clk schar ts st = Some (fst (search (map tg_str ts) p bs), st') \<and>
    at clk (snd (search (map tg_str ts) p bs)) st'"
  using assms
proof (induction bs arbitrary: p ts st)
  case Nil
  with timed_read_ok [of clk "[]" st] show ?case
    by (subst find_multi_loop.simps) auto
next
  case (Cons c cs)
  from timed_read_ok [OF Cons.prems(1)] obtain st1 where
    st1: "timed_read src clk st = Some (Some c, st1)" "at clk cs st1" by auto
  note spec = scan_targets_spec [OF Cons.prems(2), where i = 0 and c = c]
  show ?case
  proof (cases "first_hit 0 (map tg_str ts) (p @ [c])")
    case (Some i)
    with spec st1 show ?thesis by (subst find_multi_loop.simps) auto
  next
    case None
    with spec obtain ts' where ts': "scan_targets schar c 0 ts = Inr ts'" "map tg_str ts' = map tg_str ts"
      "targets_ok schar (p @ [c]) ts'" by auto
    with Cons.IH [OF st1(2) ts'(3)] None st1(1) show ?thesis
      by (subst find_multi_loop.simps) auto
  qed
qed

lemma find_len_ok:
  assumes st: "at clk bs st" and "plain schar str"
  shows "\<exists>b st'. find_len src clk schar str st = Some (b, st') \<and> (b \<longleftrightarrow> sublist str bs) \<and>
    (if b then \<exists>pre. bs = pre @ rest (st_obj st') \<and> suffix str pre \<and>
         (\<forall>q. strict_prefix q pre \<longrightarrow> \<not> sublist str q)
     else rest (st_obj st') = []) \<and> inv (st_obj st')"
proof (cases "str = []")
  case True
  with st show ?thesis
    by (auto simp: find_len_def find_until_len_def find_multi_def at_def)
next
  case False
  let ?t = "\<lparr>tg_str = str, tg_index = 0\<rparr>"
  have "targets_ok schar [] [?t]" using False assms(2) by (auto simp: targets_ok_def longest_match_def)
  from find_multi_loop_ok [OF st this] obtain st' where
    st': "find_multi_loop src clk schar [?t] st = Some (fst (search [str] [] bs), st')"
      "at clk (snd (search [str] [] bs)) st'" by auto
  have run: "find_len src clk schar str st = Some (fst (search [str] [] bs) = Some 0, st')"
    using st'(1) False by (simp add: find_len_def find_until_len_def find_multi_def)
  note spec = search_single [where str = str and p = "[]" and cs = bs]
  show ?thesis
  proof (cases "fst (search [str] [] bs)")
    case None
    with spec st'(2) have e: "rest (st_obj st') = []" "\<And>q. prefix q bs \<Longrightarrow> q \<noteq> [] \<Longrightarrow> \<not> suffix str q"
      by (auto simp: at_def split: prod.splits)
    then have "\<not> sublist str bs"
      using False by (auto simp: sublist_altdef) (metis Nil_suffix suffix_order.antisym)
    with run None e(1) st'(2) show ?thesis by (auto simp: at_def)
  next
    case (Some i)
    with spec st'(2) obtain pre where pre: "i = 0" "bs = pre @ rest (st_obj st')" "suffix str pre"
      "\<forall>q. strict_prefix q pre \<longrightarrow> q \<noteq> [] \<longrightarrow> \<not> suffix str q"
      by (auto simp: at_def split: prod.splits)
    have "\<not> sublist str q" if "strict_prefix q pre" for q
      using pre(4) False that by (auto simp: sublist_altdef dest: prefix_order.le_less_trans)
    moreover have "sublist str bs" using pre(2,3) by (metis sublist_altdef prefixI)
    ultimately show ?thesis using run Some pre st'(2) by (auto simp: at_def)
  qed
qed

lemma find_until_len_ok:
  assumes st: "at clk bs st" and "plain schar str" "plain schar trm"
  shows "\<exists>b st'. find_until_len src clk schar str (Some trm) st = Some (b, st') \<and>
    (b \<longleftrightarrow> (\<exists>n \<le> length bs. suffix str (take n bs) \<and> (\<forall>m<n. \<not> suffix trm (take m bs)))) \<and>
    inv (st_obj st')"
proof (cases "str = [] \<or> trm = []")
  case True
  have e: "suffix x [] \<longleftrightarrow> x = []" for x :: bytes by (auto simp: suffix_def)
  from True st show ?thesis
    by (cases "str = []") (auto simp: find_until_len_def find_multi_def at_def e, metis e gr0I take_0)
next
  case False
  let ?t = "[\<lparr>tg_str = str, tg_index = 0\<rparr>, \<lparr>tg_str = trm, tg_index = 0\<rparr>]"
  have "targets_ok schar [] ?t" using False assms(2,3) by (auto simp: targets_ok_def longest_match_def)
  from find_multi_loop_ok [OF st this] obtain st' where
    st': "find_multi_loop src clk schar ?t st = Some (fst (search [str, trm] [] bs), st')"
      "at clk (snd (search [str, trm] [] bs)) st'" by auto
  have run: "find_until_len src clk schar str (Some trm) st =
      Some (fst (search [str, trm] [] bs) = Some 0, st')"
    using st'(1) False by (simp add: find_until_len_def find_multi_def)
  have e: "suffix x [] \<longleftrightarrow> x = []" for x :: bytes by (auto simp: suffix_def)
  have "0 < n \<and> n \<le> length bs \<and> suffix str ([] @ take n bs) \<and>
        (\<forall>m. 0 < m \<longrightarrow> m < n \<longrightarrow> \<not> suffix trm ([] @ take m bs)) \<longleftrightarrow>
      n \<le> length bs \<and> suffix str (take n bs) \<and> (\<forall>m<n. \<not> suffix trm (take m bs))" for n
  proof (cases "n = 0")
    case False
    have "(\<forall>m<n. \<not> suffix trm (take m bs)) \<longleftrightarrow> (\<forall>m. 0 < m \<longrightarrow> m < n \<longrightarrow> \<not> suffix trm (take m bs))"
      using \<open>\<not> (str = [] \<or> trm = [])\<close> e by (metis gr0I take_0)
    with False show ?thesis by simp
  qed (use False e in simp)
  then have "fst (search [str, trm] [] bs) = Some 0 \<longleftrightarrow>
      (\<exists>n \<le> length bs. suffix str (take n bs) \<and> (\<forall>m<n. \<not> suffix trm (take m bs)))"
    by (simp only: search_pair)
  with run st'(2) show ?thesis by (auto simp: at_def)
qed

text \<open>With signed characters a byte above 0x7F stops every match before it.\<close>

lemma find_multi_loop_high_byte:
  assumes "at clk bs st" "h < length str" "0x80 \<le> str ! h" "k \<le> h"
  shows "\<exists>st'. find_multi_loop src clk True [\<lparr>tg_str = str, tg_index = k\<rparr>] st = Some (None, st') \<and>
    at clk [] st'"
  using assms(1,4)
proof (induction bs arbitrary: k st)
  case Nil
  with timed_read_ok [of clk "[]" st] show ?case
    by (subst find_multi_loop.simps) auto
next
  case (Cons c cs)
  from timed_read_ok [OF Cons.prems(1)] obtain st1 where
    st1: "timed_read src clk st = Some (Some c, st1)" "at clk cs st1" by auto
  have "uint c \<noteq> char_val True (str ! h)" using char_val_high [OF assms(3)] using uint_bounded [of c] by (metis unsigned_greater_eq leD)
  then have ne: "uint c = char_val True (str ! k) \<Longrightarrow> k < h" using Cons.prems(2) by (cases "k = h") auto
  define k' where "k' = (if uint c = char_val True (str ! k) then Suc k
    else if k = 0 then 0 else walk_back True str c k k)"
  have k': "k' \<le> h" using ne Cons.prems(2) walk_back_le [of True str c k k] by (auto simp: k'_def Suc_le_eq)
  have "scan_targets True c 0 [\<lparr>tg_str = str, tg_index = k\<rparr>] = Inr [\<lparr>tg_str = str, tg_index = k'\<rparr>]"
    using ne assms(2) by (auto simp: k'_def)
  note k' = this k'
  with Cons.IH [OF st1(2) k'(2)] st1(1) show ?case
    by (subst find_multi_loop.simps) (simp del: scan_targets.simps)
qed

lemma find_len_high_byte:
  assumes "at clk bs st" "c \<in> set str" "0x80 \<le> c"
  shows "\<exists>st'. find_len src clk True str st = Some (False, st') \<and> at clk [] st'"
proof -
  from assms(2,3) obtain h where "h < length str" "0x80 \<le> str ! h" by (auto simp: in_set_conv_nth)
  from find_multi_loop_high_byte [OF assms(1) this, of 0] assms(2) show ?thesis
    by (auto simp: find_len_def find_until_len_def find_multi_def)
qed

section \<open>Bytes and strings\<close>

lemma read_bytes_ok:
  "at clk bs st \<Longrightarrow> \<exists>st'. read_bytes src clk n st = Some (take n bs, st') \<and> at clk (drop n bs) st'"
proof (induction n arbitrary: bs st)
  case (Suc n)
  from timed_read_ok [OF Suc.prems] obtain st1 where
    st1: "timed_read src clk st = Some (next_byte bs, st1)" "at clk (tl bs) st1" by blast
  show ?case
  proof (cases bs)
    case Nil
    with st1 show ?thesis by simp
  next
    case (Cons c cs)
    with st1 Suc.IH [of cs st1] show ?thesis by auto
  qed
qed simp

lemma read_string_loop_ok:
  "at clk bs st \<Longrightarrow> \<exists>st'. read_string_loop src clk stop ret st =
     Some (ret @ takeWhile (\<lambda>c. \<not> stop c) bs, st') \<and> at clk (tl (dropWhile (\<lambda>c. \<not> stop c) bs)) st'"
proof (induction bs arbitrary: ret st)
  case Nil
  from timed_read_ok [OF Nil] show ?case by (subst read_string_loop.simps) auto
next
  case (Cons c cs)
  from timed_read_ok [OF Cons.prems] obtain st1 where
    st1: "timed_read src clk st = Some (Some c, st1)" "at clk cs st1" by auto
  with Cons.IH [of st1 "ret @ [c]"] show ?case
    by (subst read_string_loop.simps) auto
qed

section \<open>Numbers\<close>

lemma peek_next_digit_ok:
  assumes "at clk (junk @ r) st" "junk_bytes junk" "r = [] \<or> is_digit (uint (hd r)) \<or> uint (hd r) = 45"
  shows "\<exists>st'. peek_next_digit src clk st = Some (next_byte r, st') \<and> at clk r st'"
  using assms(1,2)
proof (induction junk arbitrary: st)
  case Nil
  from timed_peek_ok [OF Nil(1)] obtain st' where
    "timed_peek src clk st = Some (next_byte r, st')" "at clk r st'" by auto
  with assms(3) show ?case
    by (subst peek_next_digit.simps) (cases r; auto simp: ch_int_def)
next
  case (Cons c cs)
  from timed_peek_ok [OF Cons.prems(1)] obtain st' where
    st': "timed_peek src clk st = Some (Some c, st')" "at clk (c # cs @ r) st'" by auto
  have "junk_bytes cs" "\<not> is_digit (uint c)" "uint c \<noteq> 45"
    using Cons.prems(2) by (auto simp: junk_bytes_def)
  with Cons.IH [of "discard src st'"] discard_ok [OF st'(2)] st'(1) show ?case
    by (subst peek_next_digit.simps) (auto simp: ch_int_def)
qed

lemma parse_int_loop_ok:
  assumes "at clk (ch # ds @ r) st" "digits ds" "uint ch \<noteq> skip" "\<forall>d\<in>set ds. uint d \<noteq> skip"
    and stop: "\<not> is_digit (ch_int (next_byte r))" "ch_int (next_byte r) \<noteq> skip"
  shows "\<exists>st'. parse_int_loop src clk skip (uint ch) neg v st =
      Some ((neg \<or> uint ch = 45, foldl (\<lambda>v d. v * 10 + of_int (uint d) - 48)
        (if is_digit (uint ch) then v * 10 + of_int (uint ch) - 48 else v) ds), st') \<and> at clk r st'"
  using assms(1-4)
proof (induction ds arbitrary: ch neg v st)
  case Nil
  then have "at clk r (discard src st)" using discard_ok by fastforce
  from timed_peek_ok [OF this] stop Nil(3) show ?case
    by (subst parse_int_loop.simps) (auto simp: is_digit_def Let_def)
next
  case (Cons d ds)
  then have "at clk (d # ds @ r) (discard src st)" using discard_ok by fastforce
  from timed_peek_ok [OF this] obtain st1 where
    st1: "timed_peek src clk (discard src st) = Some (Some d, st1)" "at clk (d # ds @ r) st1" by auto
  have d: "digits ds" "is_digit (uint d)" "uint d \<noteq> 45" "uint d \<noteq> skip" "\<forall>d\<in>set ds. uint d \<noteq> skip"
    using Cons.prems(2,4) by (auto simp: digits_def is_digit_def)
  note IH = Cons.IH [OF st1(2) d(1,4,5), of "neg \<or> uint ch = 45"
      "if is_digit (uint ch) then v * 10 + of_int (uint ch) - 48 else v"]
  have "parse_int_loop src clk skip (uint ch) neg v st =
      parse_int_loop src clk skip (uint d) (neg \<or> uint ch = 45)
        (if is_digit (uint ch) then v * 10 + of_int (uint ch) - 48 else v) st1"
    using st1(1) d(2) Cons.prems(3)
    by (subst parse_int_loop.simps) (auto simp: Let_def ch_int_def is_digit_def)
  with IH d show ?case by simp
qed

lemma parse_int_ok:
  assumes "at clk (junk @ sg @ ds @ r) st" "junk_bytes junk" "digits ds"
    and sg: "sg = [] \<and> ds \<noteq> [] \<or> sg = [45]"
    and r: "r = [] \<or> \<not> is_digit (uint (hd r)) \<and> hd r \<noteq> NO_SKIP_CHAR"
  shows "\<exists>st'. parse_int src clk schar st =
      Some (if sg = [] then of_nat (text_value 10 ds) else - of_nat (text_value 10 ds), st') \<and> at clk r st'"
proof -
  have skip: "char_val schar NO_SKIP_CHAR = 1" by (simp add: NO_SKIP_CHAR_def char_val_def)
  have dig: "is_digit (uint d)" "uint d \<noteq> 1" if "d \<in> set ds" for d
    using assms(3) that by (auto simp: digits_def is_digit_def)
  obtain ch xs where ch: "sg @ ds = ch # xs" "digits xs" "is_digit (uint ch) \<or> uint ch = 45"
      "sg = [] \<and> ds = ch # xs \<and> is_digit (uint ch) \<or> sg = [45] \<and> ds = xs \<and> uint ch = 45"
    using sg assms(3) by (cases ds) (auto simp: digits_def)
  then have "at clk (junk @ (ch # xs) @ r) st" using assms(1) by (metis append_assoc)
  from peek_next_digit_ok [OF this assms(2)] ch(3) obtain st1 where
    st1: "peek_next_digit src clk st = Some (Some ch, st1)" "at clk (ch # xs @ r) st1" by auto
  have stop: "\<not> is_digit (ch_int (next_byte r))" "ch_int (next_byte r) \<noteq> 1"
    using r by (cases r; auto simp: ch_int_def is_digit_def NO_SKIP_CHAR_def word_uint_eq_iff)+
  have "uint ch \<noteq> 1" "\<forall>d\<in>set xs. uint d \<noteq> 1"
    using ch(2,3) by (auto simp: is_digit_def digits_def)
  from parse_int_loop_ok [OF st1(2) ch(2) this stop, of False 0] obtain st' where
    st': "parse_int_loop src clk 1 (uint ch) False 0 st1 =
      Some ((uint ch = 45, foldl (\<lambda>v d. v * 10 + of_int (uint d) - 48)
        (if is_digit (uint ch) then 0 * 10 + of_int (uint ch) - 48 else 0) xs), st')" "at clk r st'"
    by auto
  have v: "foldl (\<lambda>v d. v * 10 + of_int (uint d) - 48) (0 :: u64) ds = of_nat (text_value 10 ds)"
    using digits_word [OF assms(3), of 0] by (simp add: text_value_def)
  have "parse_int src clk schar st =
      Some (if uint ch = 45 then - of_nat (text_value 10 ds) else of_nat (text_value 10 ds), st')"
    using ch(4)
  proof
    assume c: "sg = [] \<and> ds = ch # xs \<and> is_digit (uint ch)"
    then show ?thesis using st1(1) st'(1) v skip
      by (auto simp: parse_int_def parse_int_skip_def ch_int_def is_digit_def)
  next
    assume c: "sg = [45] \<and> ds = xs \<and> uint ch = 45"
    then show ?thesis using st1(1) st'(1) v skip
      by (simp add: parse_int_def parse_int_skip_def ch_int_def is_digit_def)
  qed
  with ch(4) st'(2) show ?thesis by (auto simp: is_digit_def)
qed

end

end
