(* ===== verification/FileText.thy ===== *)
theory FileText
  imports CharStreamLaws
begin

text \<open>
  Text on files: a \<open>File\<close> that is open for reading is a source for \<open>Stream.h\<close>, and one that is open for
  writing a sink for \<open>Print.h\<close>. What \<open>print\<close> writes, \<open>parseInt\<close> reads; \<open>find\<close> finds a string that is there.
\<close>

section \<open>A file as a source\<close>

text \<open>\<open>available()\<close> is an \<open>int\<close>, so the file is shorter than 2 GB.\<close>

definition text_file :: "kernel \<Rightarrow> fhandle \<Rightarrow> bool" where
  "text_file K f \<longleftrightarrow> file_readable f \<and> avail_ok (f_impl f) K \<and> length (file_data K f) < 2 ^ 31"

definition text_rest :: "kernel \<Rightarrow> fhandle \<Rightarrow> bytes" where
  "text_rest K f = drop (file_pos f) (file_data K f)"

lemma pf_available_small: "unat (pf_avail p) < 2 ^ 31 \<Longrightarrow> pf_available p = int (unat (pf_avail p))"
proof -
  assume a: "unat (pf_avail p) < 2 ^ 31"
  then have u: "unat (ucast (pf_avail p) :: u32) = unat (pf_avail p)" by (simp add: unat_ucast_mod)
  have "uint (ucast (pf_avail p) :: u32) < 2 ^ 31"
    using a u by (metis of_nat_less_iff of_nat_numeral of_nat_power uint_nat)
  then have "sint (ucast (pf_avail p) :: u32) = uint (ucast (pf_avail p) :: u32)"
    using order_trans [of "- 2147483648" 0 "uint (ucast (pf_avail p) :: u32)"]
    by (simp add: sint_uint signed_take_bit_int_eq_self_iff)
  then show ?thesis unfolding pf_available_def using u by (metis uint_nat)
qed

lemma text_file_fields:
  assumes "text_file K f"
  obtains d where "pf_fd (f_impl f) = Some d" "o_rd d"
    "unat (pf_avail (f_impl f)) = length (text_rest K f)" "pf_available (f_impl f) = int (length (text_rest K f))"
    "text_rest K f = drop (o_pos d) (inodes K (o_ino d))" "o_pos d \<le> length (inodes K (o_ino d))"
    "length (inodes K (o_ino d)) < 2 ^ 31"
proof -
  from assms obtain d where d: "pf_fd (f_impl f) = Some d" "o_rd d" "o_pos d \<le> sys_size d K"
      "unat (pf_avail (f_impl f)) = sys_size d K - o_pos d" "sys_size d K < 2 ^ 31"
    by (auto simp: text_file_def file_readable_def avail_ok_def file_data_def sys_size_def
        split: option.splits)
  then have r: "text_rest K f = drop (o_pos d) (inodes K (o_ino d))"
    by (simp add: text_rest_def file_pos_def file_tell_def pf_tell_def file_data_def)
  with d have "unat (pf_avail (f_impl f)) = length (text_rest K f)" by (simp add: sys_size_def)
  moreover from this d have "pf_available (f_impl f) = int (length (text_rest K f))"
    using pf_available_small [of "f_impl f"] by simp
  ultimately show thesis using that d r by (simp add: sys_size_def)
qed

lemma drop_next:
  assumes "drop n xs = c # cs"
  shows "n < length xs" "drop (Suc n) xs = cs" "take (Suc 0) (drop n xs) = [c]"
proof -
  show "n < length xs" using assms by (metis drop_all leI list.distinct(1))
  show "drop (Suc n) xs = cs" using assms by (metis drop_Suc list.sel(3) tl_drop)
  show "take (Suc 0) (drop n xs) = [c]" using assms by simp
qed

lemma file_read1_text:
  assumes "text_file K f"
  shows "fst (file_read1 f K) = next_byte (text_rest K f)"
    "text_rest K (snd (file_read1 f K)) = tl (text_rest K f)" "text_file K (snd (file_read1 f K))"
proof -
  from assms obtain d where d: "pf_fd (f_impl f) = Some d" "o_rd d"
    "unat (pf_avail (f_impl f)) = length (text_rest K f)" "pf_available (f_impl f) = int (length (text_rest K f))"
    "text_rest K f = drop (o_pos d) (inodes K (o_ino d))" "o_pos d \<le> length (inodes K (o_ino d))"
    "length (inodes K (o_ino d)) < 2 ^ 31"
    by (rule text_file_fields)
  show "fst (file_read1 f K) = next_byte (text_rest K f)"
    "text_rest K (snd (file_read1 f K)) = tl (text_rest K f)" "text_file K (snd (file_read1 f K))"
  proof (atomize(full), cases "text_rest K f")
    case Nil
    then show "fst (file_read1 f K) = next_byte (text_rest K f) \<and>
      text_rest K (snd (file_read1 f K)) = tl (text_rest K f) \<and> text_file K (snd (file_read1 f K))"
      using d(4) assms by (simp add: file_read1_def)
  next
    case (Cons c cs)
    then have av: "pf_avail (f_impl f) \<noteq> 0" "unat (pf_avail (f_impl f) - 1) = length cs"
      using d(3) by (auto simp: unat_sub word_le_nat_alt)
    have pos: "o_pos d < length (inodes K (o_ino d))" "drop (Suc (o_pos d)) (inodes K (o_ino d)) = cs"
      "take (Suc 0) (drop (o_pos d) (inodes K (o_ino d))) = [c]"
      using drop_next [of "o_pos d" "inodes K (o_ino d)" c cs] Cons d(5) by simp_all
    have r: "file_read1 f K = (Some c, f\<lparr>f_impl := (f_impl f)\<lparr>pf_fd := Some (d\<lparr>o_pos := Suc (o_pos d)\<rparr>),
        pf_avail := pf_avail (f_impl f) - 1\<rparr>, f_crc := crc32_byte (f_crc f) c\<rparr>)"
      using d(1,2,4) Cons av(1) pos(3) by (simp add: file_read1_def pf_read1_def sys_read_def)
    have "length cs = length (inodes K (o_ino d)) - Suc (o_pos d)" using pos(2) by auto
    then show "fst (file_read1 f K) = next_byte (text_rest K f) \<and>
      text_rest K (snd (file_read1 f K)) = tl (text_rest K f) \<and> text_file K (snd (file_read1 f K))"
      using r Cons d(2,7) pos av(2)
      by (auto simp: text_rest_def text_file_def file_readable_def avail_ok_def file_data_def
          file_pos_def file_tell_def pf_tell_def sys_size_def)
  qed
qed

lemma file_peek_text:
  assumes "text_file K f"
  shows "file_peek f K = next_byte (text_rest K f)"
proof -
  from assms obtain d where d: "pf_fd (f_impl f) = Some d" "o_rd d"
    "unat (pf_avail (f_impl f)) = length (text_rest K f)" "pf_available (f_impl f) = int (length (text_rest K f))"
    "text_rest K f = drop (o_pos d) (inodes K (o_ino d))" "o_pos d \<le> length (inodes K (o_ino d))"
    "length (inodes K (o_ino d)) < 2 ^ 31"
    by (rule text_file_fields)
  show ?thesis
  proof (cases "text_rest K f")
    case Nil
    then have "pf_avail (f_impl f) = 0" using d(3) by (simp add: word_unat_eq_iff)
    then show ?thesis using Nil by (simp add: file_peek_def pf_peek_def)
  next
    case (Cons c cs)
    then have "take (Suc 0) (drop (o_pos d) (inodes K (o_ino d))) = [c]" using d(5) by simp
    moreover have "pf_avail (f_impl f) \<noteq> 0" using d(3) Cons by auto
    ultimately show ?thesis using d(1,2) Cons by (simp add: file_peek_def pf_peek_def sys_read_def)
  qed
qed

interpretation ft: char_source "file_source K" "text_file K" "text_rest K" for K
  by unfold_locales (auto simp: file_source_def file_read1_text file_peek_text)

section \<open>A file as a sink\<close>

lemma file_write1_tail:
  assumes "tail_handle f i K" "healthy K"
  obtains f' where "file_write1 c f K = (1, f', append_ino i [c] K)"
    "tail_handle f' i (append_ino i [c] K)" "file_readable f' = file_readable f"
    "\<And>j. append_handle f j \<Longrightarrow> append_handle f' j"
proof -
  from assms(1) obtain d where d: "pf_fd (f_impl f) = Some d" "o_ino d = i" "o_wr d"
      "o_append d \<or> o_pos d = length (inodes K i)" "\<not> pf_closed (f_impl f)"
    by (auto simp: tail_handle_def pf_is_valid_def split: option.splits)
  have w: "sys_write [c] d K = (Some 1, d\<lparr>o_pos := Suc (length (inodes K i))\<rparr>, append_ino i [c] K)"
    using d assms(2) by (auto simp: sys_write_def Let_def append_ino_def)
  show thesis
    by (rule that [of "f\<lparr>f_impl := (f_impl f)\<lparr>pf_fd := Some (d\<lparr>o_pos := Suc (length (inodes K i))\<rparr>),
          pf_avail := (if pf_avail (f_impl f) > 0 then pf_avail (f_impl f) - 1 else 0)\<rparr>,
          f_crc := crc32_byte (f_crc f) c\<rparr>"])
      (use d w in \<open>auto simp: file_write1_def pf_write1_def tail_handle_def append_handle_def
        pf_is_valid_def file_readable_def\<close>)
qed

text \<open>The bytes that \<open>print\<close> of a \<open>long\<close> puts out, and its result.\<close>

definition long_text :: "u64 \<Rightarrow> bytes" where
  "long_text n = (if n <s 0 then 45 # the (number_text False (- n) 10) else the (number_text False n 10))"

lemma digit_char_signed: "unat m < 36 \<Longrightarrow> digit_char schar m = digit_char False m"
  using digit_char_nat(1) [of m schar] digit_char_nat(1) [of m False] by (simp add: word_unat_eq_iff)

lemma fill_digits_signed:
  "2 \<le> unat b \<Longrightarrow> unat b \<le> 36 \<Longrightarrow> fill_digits room schar b n str = fill_digits room False b n str"
proof (induction room arbitrary: n str)
  case (Suc room)
  have "unat (n mod b) < unat b" using Suc.prems(1) by (simp add: unat_mod)
  then have "digit_char schar (n mod b) = digit_char False (n mod b)"
    using Suc.prems(2) by (intro digit_char_signed) simp
  with Suc show ?case by (simp add: Let_def)
qed simp

lemma number_text_10:
  obtains ds where "number_text schar n 10 = Some ds" "number_text False n 10 = Some ds" "ds \<noteq> []"
    "length ds \<le> 64" "text_value 10 ds = unat n" "digits ds"
proof -
  obtain ds where ds: "number_text False n 10 = Some ds" "ds \<noteq> []" "length ds \<le> 64"
    "text_value 10 ds = unat n" "\<forall>c\<in>set ds. \<exists>m. unat m < 10 \<and> c = digit_char False m"
    using number_text_value [of 10 False n] by (auto simp: word_less_nat_alt word_le_nat_alt)
  have "is_digit (uint c)" if "c \<in> set ds" for c
  proof -
    from ds(5) that obtain m where m: "unat m < 10" "c = digit_char False m" by blast
    then have "unat c = unat m + 48" using digit_char_nat(1) [of m False] by simp
    then show ?thesis using m(1) unfolding is_digit_def uint_nat by linarith
  qed
  then have "digits ds" by (simp add: digits_def)
  moreover have "number_text schar n 10 = number_text False n 10"
    unfolding number_text_def by (rule fill_digits_signed) simp_all
  ultimately show thesis using that ds by simp
qed

lemma print_long_tail:
  assumes "tail_handle f i K" "healthy K"
  obtains f' where "print_long file_sink schar n 10 (f, K) =
      Some (of_nat (length (long_text n)), f', append_ino i (long_text n) K)"
    "tail_handle f' i (append_ino i (long_text n) K)" "file_readable f' = file_readable f"
proof (cases "n <s 0")
  case True
  obtain g where g: "file_write1 45 f K = (1, g, append_ino i [45] K)"
    "tail_handle g i (append_ino i [45] K)" "file_readable g = file_readable f"
    by (rule file_write1_tail [OF assms, of 45])
  obtain ds where ds: "number_text schar (- n) 10 = Some ds" "number_text False (- n) 10 = Some ds"
    by (rule number_text_10)
  have "healthy (append_ino i [45] K)" using assms(2) by simp
  then obtain f' where
    f': "file_write ds g (append_ino i [45] K) = (length ds, f', append_ino i ds (append_ino i [45] K))"
      "tail_handle f' i (append_ino i ds (append_ino i [45] K))" "file_readable f' = file_readable g"
    by (rule file_write_tail [OF g(2), of ds])
  have lt: "long_text n = 45 # ds" using True ds by (simp add: long_text_def)
  have sign: "print_sign file_sink n 10 (f, K) = (1, - n, g, append_ino i [45] K)"
    using True g(1) by (simp only: print_sign_def) (simp add: print_char_def file_sink_def)
  have num: "print_number file_sink schar (- n) 10 (g, append_ino i [45] K) =
      Some (of_nat (length ds), f', append_ino i (45 # ds) K)"
    using ds(1) f'(1) by (simp add: print_number_def file_sink_def)
  have "print_long file_sink schar n 10 (f, K) =
      Some (of_nat (length (long_text n)), f', append_ino i (long_text n) K)"
    unfolding print_long_def sign lt by (simp add: num)
  then show thesis
    by (rule that) (use f' g(3) lt in simp_all)
next
  case False
  obtain ds where ds: "number_text schar n 10 = Some ds" "number_text False n 10 = Some ds"
    by (rule number_text_10)
  obtain f' where
    f': "file_write ds f K = (length ds, f', append_ino i ds K)"
      "tail_handle f' i (append_ino i ds K)" "file_readable f' = file_readable f"
    by (rule file_write_tail [OF assms, of ds])
  have lt: "long_text n = ds" using False ds by (simp add: long_text_def)
  show thesis
    by (rule that [of f'])
      (use False ds f' lt in \<open>simp_all add: print_long_def print_sign_def file_sink_def print_number_def\<close>)
qed

lemma println_long_tail:
  assumes "tail_handle f i K" "healthy K"
  obtains r f' where "println_long file_sink schar n 10 (f, K) =
      Some (r, f', append_ino i (long_text n @ [13, 10]) K)"
    "tail_handle f' i (append_ino i (long_text n @ [13, 10]) K)" "file_readable f' = file_readable f"
proof -
  obtain g where g: "print_long file_sink schar n 10 (f, K) =
      Some (of_nat (length (long_text n)), g, append_ino i (long_text n) K)"
    "tail_handle g i (append_ino i (long_text n) K)" "file_readable g = file_readable f"
    by (rule print_long_tail [OF assms, of schar n]) blast
  have "healthy (append_ino i (long_text n) K)" using assms(2) by simp
  then obtain f' where
    f': "file_write [13, 10] g (append_ino i (long_text n) K) =
        (length [13 :: u8, 10], f', append_ino i [13, 10] (append_ino i (long_text n) K))"
      "tail_handle f' i (append_ino i [13, 10] (append_ino i (long_text n) K))"
      "file_readable f' = file_readable g"
    by (rule file_write_tail [OF g(2), of "[13, 10]"])
  show thesis
    by (rule that [of "of_nat (length (long_text n)) + of_nat (length [13 :: u8, 10])" f'])
      (use g f' in \<open>simp_all add: println_long_def with_newline_def println_def print_cstr_def file_sink_def\<close>)
qed

section \<open>Reading back what was printed\<close>

lemma fs_open_read_write:
  assumes "healthy K"
  obtains f K1 i where "fs_open p ModeReadWrite K = (Some f, K1)" "healthy K1" "tail_handle f i K1"
    "file_readable f" "inodes K1 i = []"
proof -
  let ?i = "case dir K p of None \<Rightarrow> next_ino K | Some i \<Rightarrow> i"
  let ?K1 = "snd (fs_open p ModeReadWrite K)"
  show thesis
    by (rule that [of "\<lparr>f_impl = pf_new (open_desc ?i (posix_flags ModeReadWrite)) ?K1, f_crc = 0\<rparr>" ?K1 ?i])
      (use assms in \<open>auto simp: fs_open_def posix_open_def sys_open_def posix_flags_def
        tail_handle_def pf_new_def pf_is_valid_def open_desc_def file_readable_def Let_def
        split: option.splits\<close>)
qed

lemma rewind_text:
  assumes "tail_handle f i K" "file_readable f" "length (inodes K i) < 2 ^ 31"
  defines "g \<equiv> snd (file_seek 0 SeekModeSet f K)"
  shows "text_file K g" "text_rest K g = inodes K i"
proof -
  from assms(1,2) obtain d where d: "pf_fd (f_impl f) = Some d" "o_ino d = i" "o_rd d"
    by (auto simp: tail_handle_def file_readable_def split: option.splits)
  have "avail_ok (f_impl g) K"
    using avail_ok_seek [OF d(1), of K 0 SeekModeSet] d assms(3)
    by (simp add: g_def file_seek_def sys_size_def pf_seek_def sys_lseek_def split: prod.split)
  then show "text_file K g" "text_rest K g = inodes K i"
    using d assms(3)
    by (simp_all add: text_file_def text_rest_def g_def file_seek_def pf_seek_def sys_lseek_def
        file_readable_def file_data_def file_pos_def file_tell_def pf_tell_def)
qed

lemma long_text_parts:
  obtains sg ds where "long_text n = sg @ ds" "digits ds" "sg = [] \<and> ds \<noteq> [] \<or> sg = [45]"
    "n = (if sg = [] then of_nat (text_value 10 ds) else - of_nat (text_value 10 ds))"
    "length (long_text n) \<le> 65"
proof (cases "n <s 0")
  case True
  obtain ds where ds: "number_text False (- n) 10 = Some ds" "digits ds" "length ds \<le> 64"
    "text_value 10 ds = unat (- n)" by (rule number_text_10)
  show thesis
    by (rule that [of "[45]" ds]) (use True ds in \<open>simp_all add: long_text_def\<close>)
next
  case False
  obtain ds where ds: "number_text False n 10 = Some ds" "digits ds" "ds \<noteq> []" "length ds \<le> 64"
    "text_value 10 ds = unat n" by (rule number_text_10)
  show thesis
    by (rule that [of "[]" ds]) (use False ds in \<open>simp_all add: long_text_def\<close>)
qed

text \<open>C35: Every \<open>long\<close> printed into a file with \<open>println\<close> is what \<open>parseInt\<close> reads back from it, whatever
  the sign, and the reader is left before the line end.\<close>

theorem print_parse_roundtrip:
  assumes "healthy K" "clock_passes clk tmo"
  shows "\<exists>f K1 r f' K2 st. fs_open p ModeReadWrite K = (Some f, K1) \<and>
    println_long file_sink schar n 10 (f, K1) = Some (r, f', K2) \<and>
    parse_int (file_source K2) clk schar
      (set_timeout tmo (new_stream (snd (file_seek 0 SeekModeSet f' K2)))) = Some (n, st) \<and>
    text_rest K2 (st_obj st) = [13, 10]"
proof -
  obtain f K1 i where f: "fs_open p ModeReadWrite K = (Some f, K1)" "healthy K1" "tail_handle f i K1"
    "file_readable f" "inodes K1 i = []" by (rule fs_open_read_write [OF assms(1), of p])
  obtain r f' where f': "println_long file_sink schar n 10 (f, K1) =
      Some (r, f', append_ino i (long_text n @ [13, 10]) K1)"
    "tail_handle f' i (append_ino i (long_text n @ [13, 10]) K1)" "file_readable f' = file_readable f"
    by (rule println_long_tail [OF f(3,2), of schar n])
  let ?K2 = "append_ino i (long_text n @ [13, 10]) K1"
  obtain sg ds where t: "long_text n = sg @ ds" "digits ds" "sg = [] \<and> ds \<noteq> [] \<or> sg = [45]"
    "n = (if sg = [] then of_nat (text_value 10 ds) else - of_nat (text_value 10 ds))"
    "length (long_text n) \<le> 65" by (rule long_text_parts)
  have data: "inodes ?K2 i = sg @ ds @ [13, 10]" using f(5) t(1) by simp
  have small: "length (inodes ?K2 i) < 2 ^ 31" using t(1,5) data by simp
  have rd: "file_readable f'" using f(4) f'(3) by simp
  let ?st = "set_timeout tmo (new_stream (snd (file_seek 0 SeekModeSet f' ?K2)))"
  have "ft.at ?K2 clk ([] @ sg @ ds @ [13, 10]) ?st"
    using rewind_text [OF f'(2) rd small] data assms(2)
    by (simp add: ft.at_def set_timeout_def new_stream_def)
  from ft.parse_int_ok [OF this _ t(2,3), of schar]
  obtain st where st: "parse_int (file_source ?K2) clk schar ?st =
      Some (if sg = [] then of_nat (text_value 10 ds) else - of_nat (text_value 10 ds), st)"
    "ft.at ?K2 clk [13, 10] st"
    by (auto simp: junk_bytes_def is_digit_def NO_SKIP_CHAR_def)
  from f(1) f'(1) st t(4) show ?thesis
    by (auto simp: ft.at_def)
qed

text \<open>A clock that advances by a millisecond with every reading, through its roll-overs.\<close>

lemma elapsed_forward:
  "unat x = a \<Longrightarrow> unat y = a + Suc (unat tmo) \<Longrightarrow> tmo \<le> y - (x :: u64)"
  by (simp add: word_le_nat_alt unat_sub_if')

lemma elapsed_wrapped:
  "unat x = a \<Longrightarrow> unat y = 0 \<Longrightarrow> 0 < a \<Longrightarrow> a < 2 ^ 32 \<Longrightarrow> unat tmo < 2 ^ 31 \<Longrightarrow> tmo \<le> y - (x :: u64)"
  by (simp add: word_le_nat_alt unat_sub_if')

lemma clock_passes_ms:
  assumes "unat tmo < 2 ^ 31"
  shows "clock_passes (\<lambda>n. of_nat n) tmo"
  unfolding clock_passes_def
proof
  fix n :: nat
  let ?a = "n mod 2 ^ 32"
  have u: "unat (ucast (of_nat m :: u32) :: u64) = m mod 2 ^ 32" for m
  proof -
    have "m mod 2 ^ 32 < (2 :: nat) ^ 64"
      by (rule less_trans [of _ "2 ^ 32"]) simp_all
    then show ?thesis by (simp add: unat_ucast_mod unat_of_nat)
  qed
  show "\<exists>m>n. tmo \<le> ucast (of_nat m :: u32) - ucast (of_nat n :: u32)"
  proof (cases "?a + Suc (unat tmo) < 2 ^ 32")
    case True
    let ?m = "n + Suc (unat tmo)"
    have "?m mod 2 ^ 32 = ?a + Suc (unat tmo)" using True by (metis mod_add_left_eq mod_less)
    then have "tmo \<le> ucast (of_nat ?m :: u32) - ucast (of_nat n :: u32)"
      using u [of ?m] by (intro elapsed_forward [OF u [of n]]) (simp_all only:)
    then show ?thesis by (intro exI [of _ ?m]) simp
  next
    case False
    let ?m = "n + (2 ^ 32 - ?a)"
    have lt: "?a < 2 ^ 32" by simp
    have "(n + (2 ^ 32 - ?a)) mod 2 ^ 32 = (?a + (2 ^ 32 - ?a)) mod 2 ^ 32" by (simp only: mod_add_left_eq)
    then have "?m mod 2 ^ 32 = 0" using lt by simp
    then have z: "unat (ucast (of_nat ?m :: u32) :: u64) = 0" using u [of ?m] by (simp only:)
    have "0 < ?a" using False assms by (cases "?a = 0") simp_all
    then have "tmo \<le> ucast (of_nat ?m :: u32) - ucast (of_nat n :: u32)"
      using lt assms by (intro elapsed_wrapped [OF u [of n] z]) simp_all
    then show ?thesis using lt by (intro exI [of _ ?m]) simp
  qed
qed

theorem print_parse_roundtrip_witness:
  "\<exists>f K1 r f' K2 st. fs_open ''log'' ModeReadWrite empty_kernel = (Some f, K1) \<and>
    println_long file_sink True (- 42) 10 (f, K1) = Some (r, f', K2) \<and>
    parse_int (file_source K2) (\<lambda>n. of_nat n) True
      (set_timeout 1000 (new_stream (snd (file_seek 0 SeekModeSet f' K2)))) = Some (- 42, st) \<and>
    text_rest K2 (st_obj st) = [13, 10]"
  by (rule print_parse_roundtrip [OF _ clock_passes_ms]) simp_all

section \<open>Searching a file\<close>

text \<open>C39: for a string that \<open>char\<close> holds as it is (\<open>plain\<close>: any string where \<open>char\<close> is unsigned, one without
  bytes above 0x7F where it is signed) \<open>find\<close> on a file returns, says whether the string occurs in the rest
  of the file, and leaves the file behind its first occurrence, or at the end. The other strings
  are not found.\<close>

theorem find_iff_occurs:
  assumes "text_file K (st_obj st)" "clock_passes clk (st_timeout st)" "plain schar str"
  shows "\<exists>b st'. find_len (file_source K) clk schar str st = Some (b, st') \<and>
    (b \<longleftrightarrow> sublist str (text_rest K (st_obj st))) \<and>
    (if b then \<exists>pre. text_rest K (st_obj st) = pre @ text_rest K (st_obj st') \<and> suffix str pre \<and>
         (\<forall>q. strict_prefix q pre \<longrightarrow> \<not> sublist str q)
     else text_rest K (st_obj st') = [])"
  using ft.find_len_ok [of K clk "text_rest K (st_obj st)" st schar str] assms
  unfolding ft.at_def by blast

definition demo_text :: "bytes \<Rightarrow> kernel \<times> fhandle char_stream" where
  "demo_text bs = (let K = one_file ''log'' bs in (K, new_stream (the (fst (fs_open ''log'' ModeRead K)))))"

lemma demo_text_ok:
  assumes "length bs < 2 ^ 31"
  shows "text_file (fst (demo_text bs)) (st_obj (snd (demo_text bs)))"
    "text_rest (fst (demo_text bs)) (st_obj (snd (demo_text bs))) = bs"
    "st_timeout (snd (demo_text bs)) = 1000"
  using assms
  by (simp_all add: demo_text_def Let_def new_stream_def fs_open_read text_file_def text_rest_def
      file_readable_def pf_new_def open_desc_def posix_flags_def avail_ok_def file_data_def
      file_pos_def file_tell_def pf_tell_def sys_size_def unat_of_nat)

text \<open>The pattern 1112 in 11112: the walk-back is needed.\<close>

theorem find_iff_occurs_witness:
  "\<exists>st'. find_len (file_source (fst (demo_text [49, 49, 49, 49, 50, 51]))) (\<lambda>n. of_nat n) True
      [49, 49, 49, 50] (snd (demo_text [49, 49, 49, 49, 50, 51])) = Some (True, st') \<and>
    text_rest (fst (demo_text [49, 49, 49, 49, 50, 51])) (st_obj st') = [51]"
proof -
  let ?bs = "[49, 49, 49, 49, 50, 51] :: bytes"
  let ?K = "fst (demo_text ?bs)" and ?st = "snd (demo_text ?bs)"
  note d = demo_text_ok [of ?bs, simplified]
  have clk: "clock_passes (\<lambda>n. of_nat n) (st_timeout ?st)" using d(3) by (simp add: clock_passes_ms)
  have pl: "plain True [49, 49, 49, 50]" by (simp add: plain_def)
  from find_iff_occurs [OF d(1) clk pl] obtain b st' where
    r: "find_len (file_source ?K) (\<lambda>n. of_nat n) True [49, 49, 49, 50] ?st = Some (b, st')"
      "b \<longleftrightarrow> sublist [49, 49, 49, 50] ?bs"
      "if b then \<exists>pre. ?bs = pre @ text_rest ?K (st_obj st') \<and> suffix [49, 49, 49, 50] pre \<and>
         (\<forall>q. strict_prefix q pre \<longrightarrow> \<not> sublist [49, 49, 49, 50] q)
       else text_rest ?K (st_obj st') = []"
    unfolding d(2) by blast
  have "sublist [49, 49, 49, 50] ?bs" by (auto simp: sublist_def intro: exI [of _ "[49]"])
  then have b: b using r(2) by blast
  from r(3) b obtain pre where pre: "?bs = pre @ text_rest ?K (st_obj st')" "suffix [49, 49, 49, 50] pre"
    by auto
  then have "text_rest ?K (st_obj st') = [51]"
    by (auto simp: suffix_def Cons_eq_append_conv append_eq_Cons_conv)
  with r(1) b show ?thesis by (cases b) auto
qed

text \<open>\<open>findUntil\<close> on a file returns, and says whether the target occurs before the terminator has
  occurred.\<close>

theorem find_until_iff:
  assumes "text_file K (st_obj st)" "clock_passes clk (st_timeout st)" "plain schar str" "plain schar trm"
  shows "\<exists>b st'. find_until_len (file_source K) clk schar str (Some trm) st = Some (b, st') \<and>
    (b \<longleftrightarrow> (\<exists>n \<le> length (text_rest K (st_obj st)). suffix str (take n (text_rest K (st_obj st))) \<and>
        (\<forall>m<n. \<not> suffix trm (take m (text_rest K (st_obj st))))))"
  using ft.find_until_len_ok [of K clk "text_rest K (st_obj st)" st schar str trm] assms
  unfolding ft.at_def by blast

text \<open>C40: Where \<open>char\<close> is signed, \<open>find\<close> never finds a string with a byte above 0x7F: it reads the file to its
  end and reports that the string is not there, even when the file consists of it.\<close>

theorem find_misses_high_bytes:
  assumes "text_file K (st_obj st)" "clock_passes clk (st_timeout st)" "c \<in> set str" "0x80 \<le> c"
  shows "\<exists>st'. find_len (file_source K) clk True str st = Some (False, st') \<and>
    text_rest K (st_obj st') = []"
  using ft.find_len_high_byte [of K clk "text_rest K (st_obj st)" st c str] assms
  by (auto simp: ft.at_def)

theorem find_misses_high_bytes_witness:
  "\<exists>st'. find_len (file_source (fst (demo_text [0xC3, 0xA9]))) (\<lambda>n. of_nat n) True [0xC3, 0xA9]
      (snd (demo_text [0xC3, 0xA9])) = Some (False, st') \<and>
    text_rest (fst (demo_text [0xC3, 0xA9])) (st_obj st') = []"
  by (rule find_misses_high_bytes [where c = "0xC3"])
    (simp_all add: demo_text_ok clock_passes_ms)

text \<open>When the millisecond counter rolls over while \<open>timedRead\<close> waits, the elapsed time comes out as
  nearly 2 to the 64 and the wait ends at once, whatever is left of the timeout.\<close>

theorem timed_read_gives_up_at_rollover:
  assumes "fst (src_read src (st_obj st)) = None" "clk (Suc (st_ticks st)) < clk (st_ticks st)"
    and "st_timeout st < 2 ^ 63"
  shows "map_option fst (timed_read src clk st) = Some None"
proof -
  let ?a = "ucast (clk (st_ticks st)) :: u64" and ?b = "ucast (clk (Suc (st_ticks st))) :: u64"
  have ua: "unat (ucast w :: u64) = unat w" for w :: u32
  proof -
    have "unat w < 2 ^ LENGTH(64)" using unat_u32_less [of w] by (rule less_trans) simp
    then show ?thesis by (simp only: unat_ucast_mod mod_less)
  qed
  have lt: "unat ?b < unat ?a" "unat ?a < 2 ^ 32"
    using assms(2) unat_u32_less [of "clk (st_ticks st)"] by (simp_all only: ua word_less_nat_alt)
  then have "2 ^ 63 \<le> unat (?b - ?a)" by (simp add: unat_sub_if')
  moreover have "unat (st_timeout st) < 2 ^ 63" using assms(3) by (simp add: word_less_nat_alt)
  ultimately have "\<not> ?b - ?a < st_timeout st" by (simp add: word_less_nat_alt)
  then show ?thesis using assms(1)
    unfolding timed_read_def
    by (subst timed_loop.simps) (auto simp: start_timer_def Let_def split: prod.split)
qed

theorem timed_read_gives_up_at_rollover_witness:
  "map_option fst (timed_read (file_source (fst (demo_text []))) (\<lambda>n. if n = 0 then 0xFFFFFFFF else 0)
     (snd (demo_text []))) = Some None"
  by (rule timed_read_gives_up_at_rollover)
    (simp_all add: demo_text_def Let_def new_stream_def fs_open_read file_source_def file_read1_def
      pf_available_def pf_new_def sys_size_def open_desc_def)

end
