(* ===== verification/PowerFailure.thy ===== *)
theory PowerFailure
  imports Reboot
begin

text \<open>
  Power failures. \<open>arm c K\<close> is the disk \<open>K\<close> whose power fails before the call number \<open>c + 1\<close> that would
  change it; \<open>revive\<close> is the disk as the next boot finds it. Up to the failure an operation behaves as on a
  disk without faults; after it the operation runs on, and changes nothing.
\<close>

definition arm :: "nat \<Rightarrow> kernel \<Rightarrow> kernel" where
  "arm c K = K\<lparr>faults := replicate c None, halted := True\<rparr>"

definition revive :: "kernel \<Rightarrow> kernel" where
  "revive K = K\<lparr>faults := [], halted := False\<rparr>"

definition armed :: "nat \<Rightarrow> store \<Rightarrow> store" where
  "armed c s = s\<lparr>kern := arm c (kern s)\<rparr>"

lemma arm_fields [simp]:
  "dir (arm c K) = dir K" "inodes (arm c K) = inodes K" "next_ino (arm c K) = next_ino K"
  "subdirs (arm c K) = subdirs K" "contents (arm c K) p = contents K p" "kernel_wf (arm c K) = kernel_wf K"
  by (simp_all add: arm_def contents_def kernel_wf_def)

lemma arm_updates [simp]:
  "(arm c K)\<lparr>dir := d\<rparr> = arm c (K\<lparr>dir := d\<rparr>)" "(arm c K)\<lparr>inodes := f\<rparr> = arm c (K\<lparr>inodes := f\<rparr>)"
  "(arm c K)\<lparr>next_ino := n\<rparr> = arm c (K\<lparr>next_ino := n\<rparr>)"
  by (simp_all add: arm_def)

lemma revive_fields [simp]:
  "dir (revive K) = dir K" "inodes (revive K) = inodes K" "next_ino (revive K) = next_ino K"
  "contents (revive K) p = contents K p" "kernel_wf (revive K) = kernel_wf K" "healthy (revive K)"
  by (simp_all add: revive_def contents_def kernel_wf_def healthy_def)

lemma revive_arm [simp]: "healthy K \<Longrightarrow> revive (arm c K) = K"
  by (rule kernel.equality) (simp_all add: revive_def arm_def healthy_def)

lemma next_fault_arm [simp]:
  "next_fault (arm (Suc c) K) = (None, arm c K)" "next_fault (arm 0 K) = (Some 0, arm 0 K)"
  by (simp_all add: next_fault_def arm_def)

lemma armed_fields [simp]:
  "kern (armed c s) = arm c (kern s)" "base_prefix (armed c s) = base_prefix s"
  "segment_count (armed c s) = segment_count s" "index (armed c s) = index s"
  "policy_ttl_secs (armed c s) = policy_ttl_secs s" "write_buf (armed c s) = write_buf s"
  "current_segment (armed c s) = current_segment s" "index_file (armed c s) = index_file s"
  by (simp_all add: armed_def)

lemma armed_kern: "s\<lparr>kern := arm c K\<rparr> = armed c (s\<lparr>kern := K\<rparr>)"
  by (simp add: armed_def)

section \<open>Reads do not see the power fail\<close>

lemma sys_arm [simp]:
  "sys_size d (arm c K) = sys_size d K" "sys_read n d (arm c K) = sys_read n d K"
  "sys_lseek n w d (arm c K) = sys_lseek n w d K"
  by (simp_all add: sys_size_def sys_read_def sys_lseek_def split: whence.split)

lemma pf_arm [simp]:
  "pf_new d (arm c K) = pf_new d K" "pf_read_bytes n f (arm c K) = pf_read_bytes n f K"
  "pf_seek n m f (arm c K) = pf_seek n m f K"
  by (simp_all add: pf_new_def pf_read_bytes_def pf_seek_def split: option.split)

lemma file_arm [simp]:
  "file_read n f (arm c K) = file_read n f K" "file_seek n m f (arm c K) = file_seek n m f K"
  by (simp_all add: file_read_def file_seek_def)

lemma fs_open_read_arm [simp]:
  "fs_open p ModeRead (arm c K) = (fst (fs_open p ModeRead K), arm c (snd (fs_open p ModeRead K)))"
  by (simp add: fs_open_read split: option.split)

lemma read_live_arm [simp]: "read_live off src (arm c K) = read_live off src K"
  by (simp add: read_live_def Let_def split: prod.split)

section \<open>Before the failure\<close>

text \<open>\<open>K \<mapsto> f K\<close> takes a number of calls, and then the rest of the script is left.\<close>

lemma file_write_arm:
  assumes "healthy K" "file_write bs f K = (n, g, K')"
  obtains c where "\<And>r. file_write bs f (arm (c + r) K) = (n, g, arm r K')" "healthy K'"
proof (cases "case pf_fd (f_impl f) of None \<Rightarrow> False | Some d \<Rightarrow> o_wr d")
  case True
  then obtain d where d: "pf_fd (f_impl f) = Some d" "o_wr d" by (auto split: option.splits)
  show thesis
    by (rule that [of "if bs = [] then 0 else 1"]) (use assms d in \<open>auto simp: file_write_def pf_write_bytes_def sys_write_def
      Let_def split: if_splits prod.splits\<close>)
next
  case False
  show thesis
    by (rule that [of 0]) (use assms False in \<open>auto simp: file_write_def pf_write_bytes_def sys_write_def
      Let_def split: if_splits option.splits prod.splits\<close>)
qed

lemma fs_open_arm:
  assumes "healthy K" "fs_open p m K = (h, K')"
  obtains c where "\<And>r. fs_open p m (arm (c + r) K) = (h, arm r K')" "healthy K'"
proof (cases "m = ModeRead")
  case True
  with assms show thesis
    by (intro that [of 0]) (auto simp: fs_open_read split: option.splits)
next
  case False
  then have cr: "fl_creat (posix_flags m)" by (cases m) (simp_all add: posix_flags_def)
  show thesis
    by (rule that [of 1]) (use assms cr in \<open>auto simp: fs_open_def posix_open_def sys_open_def Let_def
      pf_new_def sys_size_def split: option.splits if_splits\<close>)
qed

lemma fs_remove_arm: "healthy K \<Longrightarrow> fs_remove p (arm (Suc r) K) = arm r (fs_remove p K)"
  by (auto simp: fs_remove_def posix_remove_def sys_unlink_def)

lemma fs_remove_health: "healthy K \<Longrightarrow> healthy (fs_remove p K)"
  by (simp add: fs_remove_healthy)

lemma fs_rename_arm:
  "healthy K \<Longrightarrow> fs_rename a b (arm (Suc r) K) = (fst (fs_rename a b K), arm r (snd (fs_rename a b K)))"
  by (auto simp: fs_rename_def posix_rename_def sys_rename_def split: option.splits)

lemma write_live_arm:
  assumes "healthy K" "write_live r outf K = (ok, g, K')"
  obtains c where "\<And>x. write_live r outf (arm (c + x) K) = (ok, g, arm x K')" "healthy K'"
proof -
  obtain hdr k v where r: "r = (hdr, k, v)" by (cases r)
  obtain w1 f1 K1 where s1: "file_write (enc_header hdr) outf K = (w1, f1, K1)" by (metis prod_cases3)
  obtain w2 f2 K2 where s2: "file_write k f1 K1 = (w2, f2, K2)" by (metis prod_cases3)
  obtain w3 f3 K3 where s3: "(if rh_length hdr > 0 then file_write v f2 K2 else (0, f2, K2)) = (w3, f3, K3)"
    by (metis prod_cases3)
  obtain w4 f4 K4 where s4: "file_write (enc_commit MAGIC_COMMIT) f3 K3 = (w4, f4, K4)" by (metis prod_cases3)
  obtain c1 where c1: "\<And>x. file_write (enc_header hdr) outf (arm (c1 + x) K) = (w1, f1, arm x K1)" "healthy K1"
    by (rule file_write_arm [OF assms(1) s1]) blast
  obtain c2 where c2: "\<And>x. file_write k f1 (arm (c2 + x) K1) = (w2, f2, arm x K2)" "healthy K2"
    by (rule file_write_arm [OF c1(2) s2]) blast
  obtain c3 where c3: "\<And>x. (if rh_length hdr > 0 then file_write v f2 (arm (c3 + x) K2)
      else (0, f2, arm (c3 + x) K2)) = (w3, f3, arm x K3)" "healthy K3"
  proof (cases "rh_length hdr > 0")
    case True
    with s3 have "file_write v f2 K2 = (w3, f3, K3)" by simp
    then obtain c where "\<And>x. file_write v f2 (arm (c + x) K2) = (w3, f3, arm x K3)" "healthy K3"
      by (rule file_write_arm [OF c2(2)]) blast
    with True show thesis by (intro that [of c]) simp_all
  next
    case False
    with s3 c2(2) show thesis by (intro that [of 0]) auto
  qed
  obtain c4 where c4: "\<And>x. file_write (enc_commit MAGIC_COMMIT) f3 (arm (c4 + x) K3) = (w4, f4, arm x K4)" "healthy K4"
    by (rule file_write_arm [OF c3(2) s4]) blast
  have "write_live r outf (arm (c1 + (c2 + (c3 + (c4 + x)))) K) = (ok, g, arm x K')" for x
    using assms(2) by (simp add: write_live_def r s1 s2 s3 s4 c1(1) c2(1) c3(1) c4(1))
  moreover have "K' = K4" using assms(2) by (simp add: write_live_def r s1 s2 s3 s4)
  ultimately show thesis using c4(2) by (intro that [of "c1 + (c2 + (c3 + c4))"]) (simp_all add: add.assoc)
qed

lemma copy_live_arm:
  assumes "healthy K" "copy_live offs src outf K = (ok, g, K')"
  obtains c where "\<And>x. copy_live offs src outf (arm (c + x) K) = (ok, g, arm x K')" "healthy K'"
  using assms
proof (induction offs arbitrary: src outf K thesis)
  case Nil
  then show ?case by (intro Nil(1) [of 0]) auto
next
  case (Cons off offs)
  obtain r src1 where rl: "read_live off src K = (r, src1)" by (cases "read_live off src K")
  show ?case
  proof (cases r)
    case None
    with rl Cons.prems(3) have "copy_live offs src1 outf K = (ok, g, K')" by simp
    then obtain c where "\<And>x. copy_live offs src1 outf (arm (c + x) K) = (ok, g, arm x K')" "healthy K'"
      using Cons.IH [OF _ Cons.prems(2)] by metis
    with None rl show ?thesis by (intro Cons.prems(1) [of c]) simp_all
  next
    case (Some rec)
    obtain ok1 f1 K1 where w: "write_live rec outf K = (ok1, f1, K1)" by (metis prod_cases3)
    obtain c1 where c1: "\<And>x. write_live rec outf (arm (c1 + x) K) = (ok1, f1, arm x K1)" "healthy K1"
      by (rule write_live_arm [OF Cons.prems(2) w]) blast
    show ?thesis
    proof (cases ok1)
      case True
      with Some rl w Cons.prems(3) have "copy_live offs src1 f1 K1 = (ok, g, K')" by simp
      then obtain c where "\<And>x. copy_live offs src1 f1 (arm (c + x) K1) = (ok, g, arm x K')" "healthy K'"
        using Cons.IH [OF _ c1(2)] by metis
      with True Some rl c1 show ?thesis by (intro Cons.prems(1) [of "c1 + c"]) (simp_all add: add.assoc)
    next
      case False
      with Some rl w c1 Cons.prems(3) show ?thesis by (intro Cons.prems(1) [of c1]) auto
    qed
  qed
qed

lemma write_journal_arm:
  assumes "healthy (kern s)"
  obtains c where "\<And>x. write_journal st n v (armed (c + x) s) = armed x (write_journal st n v s)"
    "healthy (kern (write_journal st n v s))"
proof -
  obtain h K1 where o: "fs_open (journal_name (base_prefix s)) ModeWrite (kern s) = (h, K1)" by (metis surj_pair)
  obtain c1 where c1: "\<And>x. fs_open (journal_name (base_prefix s)) ModeWrite (arm (c1 + x) (kern s)) = (h, arm x K1)"
      "healthy K1" by (rule fs_open_arm [OF assms o]) blast
  show thesis
  proof (cases h)
    case None
    with o c1 show thesis by (intro that [of c1]) (simp_all add: write_journal_def armed_def)
  next
    case (Some f)
    let ?j = "enc_journal \<lparr>j_magic = JOURNAL_MAGIC, j_state = journal_state_code st, j_next_seg = of_nat n,
      j_tmp_valid_size = of_nat v\<rparr>"
    obtain m g K2 where w: "file_write ?j f K1 = (m, g, K2)" by (metis prod_cases3)
    obtain c2 where c2: "\<And>x. file_write ?j f (arm (c2 + x) K1) = (m, g, arm x K2)" "healthy K2"
      by (rule file_write_arm [OF c1(2) w]) blast
    show thesis
      by (rule that [of "c1 + c2"])
        (use o Some w c1(1) c2 in \<open>simp_all add: write_journal_def armed_def Let_def add.assoc\<close>)
  qed
qed

lemma fs_remove_in_arm:
  "healthy (kern s) \<Longrightarrow> fs_remove_in p (armed (Suc x) s) = armed x (fs_remove_in p s)"
  by (simp add: fs_remove_in_def armed_def fs_remove_arm)

lemma fs_remove_in_health [simp]: "healthy (kern s) \<Longrightarrow> healthy (kern (fs_remove_in p s))"
  by (simp add: fs_remove_in_def fs_remove_health)

lemma live_offsets_armed [simp]: "live_offsets clk n (armed c s) = live_offsets clk n s"
  by (rule live_offsets_cong) simp_all

lemma remove_segments_arm:
  assumes "healthy (kern s)"
  shows "remove_segments is (armed (length is + x) s) = armed x (remove_segments is s)"
    "healthy (kern (remove_segments is s))"
  using assms
proof (induction "is" arbitrary: s)
  case Nil
  { case 1 then show ?case by (simp add: remove_segments_def) }
  { case 2 then show ?case by (simp add: remove_segments_def) }
next
  case (Cons i "is")
  { case 1
    from Cons.IH(1) [OF fs_remove_in_health [OF 1, of "segment_name (base_prefix s) i"]] show ?case
      using 1 by (simp add: remove_segments_def fs_remove_in_arm) }
  { case 2
    from Cons.IH(2) [OF fs_remove_in_health [OF 2, of "segment_name (base_prefix s) i"]] show ?case
      by (simp add: remove_segments_def) }
qed

lemma compact_segments_arm:
  assumes "healthy (kern s)" "compact_segments clk ns outf cs s = (ok, cs', s')"
  obtains c where "\<And>x. compact_segments clk ns outf cs (armed (c + x) s) = (ok, cs', armed x s')"
    "healthy (kern s')"
  using assms
proof (induction ns arbitrary: outf cs s thesis)
  case Nil
  then show ?case by (intro Nil(1) [of 0]) auto
next
  case (Cons n ns)
  let ?offs = "live_offsets clk n s" and ?src = "segment_name (base_prefix s) n"
  let ?copy = "\<lambda>s. if ?offs = [] then (True, outf, s)
      else case fs_open ?src ModeRead (kern s) of
          (None, K) \<Rightarrow> (True, outf, s\<lparr>kern := K\<rparr>)
        | (Some src, K) \<Rightarrow> (case copy_live ?offs src outf K of (ok, outf, K) \<Rightarrow> (ok, outf, s\<lparr>kern := K\<rparr>))"
  obtain ok1 f1 s1 where cp: "?copy s = (ok1, f1, s1)" by (rule prod_cases3)
  obtain c1 where c1: "\<And>x. ?copy (armed (c1 + x) s) = (ok1, f1, armed x s1)" "healthy (kern s1)"
  proof (cases "?offs = [] \<or> fst (fs_open ?src ModeRead (kern s)) = None")
    case True
    have noop: "?copy t = (True, outf, t)" if "t = s \<or> (\<exists>x. t = armed x s)" for t
    proof (cases "?offs = []")
      case False
      then have "fst (fs_open ?src ModeRead (kern t)) = None" using True that by auto
      moreover have "snd (fs_open ?src ModeRead (kern t)) = kern t" by (simp add: fs_open_read split: option.split)
      ultimately have "fs_open ?src ModeRead (kern t) = (None, kern t)" by (simp add: prod_eq_iff)
      with False show ?thesis by simp
    qed simp
    have "(ok1, f1, s1) = (True, outf, s)" using cp noop [of s] by (simp only: refl simp_thms)
    then have "ok1" "f1 = outf" "s1 = s" by (simp_all only: prod.inject simp_thms)
    moreover have "?copy (armed x s) = (True, outf, armed x s)" for x by (rule noop) blast
    ultimately show thesis using Cons.prems(2) by (intro that [of 0]) (simp_all only: add_0 refl simp_thms)
  next
    case False
    then obtain src where src: "fs_open ?src ModeRead (kern s) = (Some src, kern s)"
      by (auto simp: fs_open_read split: option.splits)
    obtain K1 where K1: "copy_live ?offs src outf (kern s) = (ok1, f1, K1)" "s1 = s\<lparr>kern := K1\<rparr>"
      using cp False src by (auto split: prod.splits)
    obtain c where "\<And>x. copy_live ?offs src outf (arm (c + x) (kern s)) = (ok1, f1, arm x K1)" "healthy K1"
      by (rule copy_live_arm [OF Cons.prems(2) K1(1)]) blast
    with False src K1(2) show thesis by (intro that [of c]) (simp_all add: armed_def)
  qed
  have run: "compact_segments clk (n # ns) outf cs t =
      (if \<not> ok1 then (False, cs, t1)
       else compact_segments clk ns f1 (cs + 1)
         (fs_remove_in ?src (write_journal JOURNAL_COMPACTING (n + 1) (file_tell f1) t1)))"
    if "?copy t = (ok1, f1, t1)" "live_offsets clk n t = ?offs" "base_prefix t = base_prefix s" for t t1
    using that by (simp add: Let_def)
  show ?case
  proof (cases ok1)
    case False
    with run [OF cp] Cons.prems(3) have "ok = ok1" "cs' = cs" "s' = s1" by simp_all
    with False run [OF c1(1)] c1(2) show ?thesis by (intro Cons.prems(1) [of c1]) simp_all
  next
    case True
    let ?s2 = "write_journal JOURNAL_COMPACTING (n + 1) (file_tell f1) s1"
    obtain c2 where c2: "\<And>x. write_journal JOURNAL_COMPACTING (n + 1) (file_tell f1) (armed (c2 + x) s1) =
        armed x ?s2" "healthy (kern ?s2)"
      by (rule write_journal_arm [OF c1(2)]) blast
    have "compact_segments clk ns f1 (cs + 1) (fs_remove_in ?src ?s2) = (ok, cs', s')"
      using run [OF cp] True Cons.prems(3) by simp
    with Cons.IH [OF _ fs_remove_in_health [OF c2(2)]] obtain c3 where
      c3: "\<And>x. compact_segments clk ns f1 (cs + 1) (armed (c3 + x) (fs_remove_in ?src ?s2)) =
        (ok, cs', armed x s')" "healthy (kern s')" by metis
    have "compact_segments clk (n # ns) outf cs (armed (c1 + (c2 + Suc (c3 + x))) s) = (ok, cs', armed x s')" for x
    proof -
      have "compact_segments clk (n # ns) outf cs (armed (c1 + y) s) =
          (if \<not> ok1 then (False, cs, armed y s1)
           else compact_segments clk ns f1 (cs + 1) (fs_remove_in ?src
             (write_journal JOURNAL_COMPACTING (n + 1) (file_tell f1) (armed y s1))))" for y
        by (rule run [OF c1(1)]) simp_all
      from this [of "c2 + Suc (c3 + x)"] show ?thesis
        using True c2(1) c3(1) by (simp add: fs_remove_in_arm [OF c2(2)]
            del: compact_segments.simps add_Suc_right One_nat_def)
    qed
    then show ?thesis using c3(2)
      by (intro Cons.prems(1) [of "c1 + (c2 + Suc c3)"]) (simp_all add: add.assoc)
  qed
qed

end
