(* ===== verification/DeadDisk.thy ===== *)
theory DeadDisk
  imports PowerFailure
begin

text \<open>
  After the power has failed no operation changes the disk, whatever it does in memory: the kernel
  \<open>arm 0 K\<close> is left as it is, through \<open>put\<close> and \<open>remove\<close> with their rotations and compactions.
\<close>

section \<open>Files and the index\<close>

lemma dead_calls [simp]:
  "fs_remove p (arm 0 K) = arm 0 K" "fs_rename a b (arm 0 K) = (False, arm 0 K)"
  by (simp_all add: fs_remove_def posix_remove_def sys_unlink_def fs_rename_def posix_rename_def sys_rename_def)

lemma dead_open [simp]: "m \<noteq> ModeRead \<Longrightarrow> fs_open p m (arm 0 K) = (None, arm 0 K)"
  by (cases m) (simp_all add: fs_open_def posix_open_def sys_open_def posix_flags_def)

lemma dead_store [simp]:
  "fs_remove_in p (armed 0 s) = armed 0 s" "clear_journal (armed 0 s) = armed 0 s"
  "write_journal st n v (armed 0 s) = armed 0 s" "write_index_bulk (armed 0 s) = (False, armed 0 s)"
  "kern (open_index_for_append (armed 0 s)) = arm 0 (kern s)"
  by (simp_all add: fs_remove_in_def clear_journal_def write_journal_def write_index_bulk_def
      open_index_for_append_def armed_def)

lemma finalize_visits_kern: "kern (foldl finalize_visit s rs) = kern s"
  by (induction rs arbitrary: s) (auto simp: finalize_visit_def index_insert_def split: prod.split)

lemma finalize_visits_prefix: "base_prefix (foldl finalize_visit s rs) = base_prefix s"
  by (induction rs arbitrary: s) (auto simp: finalize_visit_def index_insert_def split: prod.split)

lemma close_index_kern [simp]: "kern (close_index s) = kern s"
  using close_index_shape [of s] by auto

lemma kern_armed: "kern s = arm 0 K \<Longrightarrow> \<exists>s'. s = armed 0 s' \<and> kern s' = K"
  by (intro exI [of _ "s\<lparr>kern := K\<rparr>"]) (simp add: armed_def)

lemma open_index_dead: "kern s = arm 0 K \<Longrightarrow> kern (open_index_for_append s) = arm 0 K"
  by (simp add: open_index_for_append_def)

lemma write_index_dead: "kern s = arm 0 K \<Longrightarrow> kern (snd (write_index_bulk s)) = arm 0 K"
  by (simp add: write_index_bulk_def)

lemma fs_remove_in_dead: "kern s = arm 0 K \<Longrightarrow> kern (fs_remove_in p s) = arm 0 K"
  by (simp add: fs_remove_in_def)

lemma dead_write: "snd (snd (file_write bs f (arm 0 K))) = arm 0 K"
  by (simp add: file_write_def pf_write_bytes_def sys_write_def Let_def split: option.split prod.split)

lemma finalize_dead: "kern s = arm 0 K \<Longrightarrow> kern (finalize_compaction s) = arm 0 K"
proof -
  assume k: "kern s = arm 0 K"
  have "kern (remove_segments is s) = arm 0 K" for "is"
    using k by (induction "is" arbitrary: s) (simp_all add: remove_segments_def fs_remove_in_dead)
  then show ?thesis by (simp add: finalize_compaction_def Let_def fs_remove_in_dead)
qed

section \<open>Compaction\<close>

lemma write_live_dead: "snd (snd (write_live r outf (arm 0 K))) = arm 0 K"
proof -
  obtain h k v where r: "r = (h, k, v)" by (cases r)
  have w: "\<exists>n g. file_write bs f (arm 0 K) = (n, g, arm 0 K)" for bs f
    using dead_write [of bs f K] by (metis prod.collapse)
  obtain n1 f1 where 1: "file_write (enc_header h) outf (arm 0 K) = (n1, f1, arm 0 K)" using w by blast
  obtain n2 f2 where 2: "file_write k f1 (arm 0 K) = (n2, f2, arm 0 K)" using w by blast
  obtain n3 f3 where 3: "file_write v f2 (arm 0 K) = (n3, f3, arm 0 K)" using w by blast
  obtain n4 f4 where 4: "file_write (enc_commit MAGIC_COMMIT) f3 (arm 0 K) = (n4, f4, arm 0 K)" using w by blast
  obtain n5 f5 where 5: "file_write (enc_commit MAGIC_COMMIT) f2 (arm 0 K) = (n5, f5, arm 0 K)" using w by blast
  show ?thesis by (simp add: write_live_def r 1 2 3 4 5)
qed

lemma copy_live_dead: "snd (snd (copy_live offs src outf (arm 0 K))) = arm 0 K"
proof (induction offs arbitrary: src outf)
  case (Cons off offs)
  obtain r src1 where rl: "read_live off src K = (r, src1)" by (cases "read_live off src K")
  show ?case
  proof (cases r)
    case (Some rec)
    obtain ok f1 where "write_live rec outf (arm 0 K) = (ok, f1, arm 0 K)"
      using write_live_dead [of rec outf K] by (metis prod.collapse)
    with Some rl Cons.IH show ?thesis by simp
  qed (use rl Cons.IH in simp)
qed simp

lemma write_journal_dead: "kern s = arm 0 K \<Longrightarrow> write_journal st n v s = s"
  by (metis dead_store(3) kern_armed)

lemma compact_segments_dead: "kern s = arm 0 K \<Longrightarrow> kern (snd (snd (compact_segments clk ns outf cs s))) = arm 0 K"
proof (induction ns arbitrary: outf cs s)
  case (Cons n ns)
  let ?offs = "live_offsets clk n s" and ?src = "segment_name (base_prefix s) n"
  let ?copy = "if ?offs = [] then (True, outf, s)
      else case fs_open ?src ModeRead (kern s) of
          (None, K) \<Rightarrow> (True, outf, s\<lparr>kern := K\<rparr>)
        | (Some src, K) \<Rightarrow> (case copy_live ?offs src outf K of (ok, outf, K) \<Rightarrow> (ok, outf, s\<lparr>kern := K\<rparr>))"
  obtain ok f1 s1 where cp: "?copy = (ok, f1, s1)" by (rule prod_cases3)
  have "kern (snd (snd ?copy)) = arm 0 K"
  proof (cases "fst (fs_open ?src ModeRead (kern s))")
    case None
    then show ?thesis using Cons.prems
      by (auto simp: fs_open_read split: option.split prod.split)
  next
    case (Some src)
    then have "fs_open ?src ModeRead (kern s) = (Some src, arm 0 K)"
      using Cons.prems by (auto simp: fs_open_read split: option.splits)
    then show ?thesis using Cons.prems copy_live_dead [of ?offs src outf K]
      by (auto split: prod.split)
  qed
  with cp have k1: "kern s1 = arm 0 K" by simp
  have "kern (fs_remove_in ?src s1) = arm 0 K" by (rule fs_remove_in_dead [OF k1])
  from Cons.IH [OF this] show ?case
    using cp k1 unfolding compact_segments.simps Let_def by (simp add: write_journal_dead [OF k1])
qed simp

lemma clear_journal_dead: "kern s = arm 0 K \<Longrightarrow> kern (clear_journal s) = arm 0 K"
  by (simp add: clear_journal_def fs_remove_in_dead)

lemma compact_dead:
  assumes "kern s = arm 0 K"
  shows "kern (snd (compact clk s)) = arm 0 K"
  using assms by (simp add: compact_def Let_def write_journal_dead clear_journal_dead)

section \<open>Segments and the write buffer\<close>

lemma open_segment_dead: "kern s = arm 0 K \<Longrightarrow> kern (snd (open_segment n s)) = arm 0 K"
  using close_active_shape [of s] by (auto simp: open_segment_def Let_def)

lemma flush_buffer_dead: "kern s = arm 0 K \<Longrightarrow> kern (snd (flush_buffer s)) = arm 0 K"
  using dead_write [of "write_buf s" _ K]
  by (auto simp: flush_buffer_def split: option.split prod.split) (metis snd_conv)

lemma append_buffer_dead: "kern s = arm 0 K \<Longrightarrow> kern (append_buffer data s) = arm 0 K"
proof (induction data s rule: append_buffer.induct)
  case (1 data s)
  show ?case
  proof (cases "data = []")
    case True
    then show ?thesis using 1(2) by (simp add: append_buffer.simps)
  next
    case False
    then obtain n where n: "n = min (length data) (WRITE_BUFFER_SIZE - length (write_buf s))"
      "append_buffer data s = append_buffer (drop n data)
         (let s1 = s\<lparr>write_buf := write_buf s @ take n data\<rparr>
          in if WRITE_BUFFER_SIZE \<le> length (write_buf s1) then snd (flush_buffer s1) else s1)"
      by (rule append_buffer_step)
    show ?thesis
      unfolding n(2) Let_def
      by (rule 1(1) [OF False refl _ refl refl, of n])
        (use n(1) 1(2) in \<open>auto simp: min_def not_less flush_buffer_dead\<close>)
  qed
qed

lemma append_all_dead: "kern s = arm 0 K \<Longrightarrow> kern (append_all cs s) = arm 0 K"
  by (induction cs arbitrary: s) (simp_all add: append_all_def append_buffer_dead)

lemma file_write_seq_dead: "snd (file_write_seq bss f (arm 0 K)) = arm 0 K"
proof (induction bss arbitrary: f)
  case (Cons b bss)
  obtain n g K' where w: "file_write b f (arm 0 K) = (n, g, K')" by (metis prod_cases3)
  with dead_write [of b f K] have "K' = arm 0 K" by simp
  with w Cons show ?case by simp
qed simp

lemma persist_index_entry_dead:
  "kern s = arm 0 K \<Longrightarrow> kern (snd (persist_index_entry key seg off ts ttl pr s)) = arm 0 K"
  using file_write_seq_dead [of _ _ K]
  by (auto simp: persist_index_entry_def split: option.split prod.split) (metis snd_conv)

section \<open>put and remove\<close>

lemma rotate_dead:
  assumes "kern s = arm 0 K"
  shows "kern (snd (rotate_segment_if_needed clk n s)) = arm 0 K"
proof -
  obtain a where a: "close_active (snd (flush_buffer s)) = (snd (flush_buffer s))\<lparr>active_file := a\<rparr>"
    using close_active_shape by blast
  have seg: "kern (snd (open_segment k t)) = arm 0 K" if "kern t = arm 0 K" for k t
    by (rule open_segment_dead [OF that])
  have comp: "kern t' = arm 0 K" if "compact clk t = (ok, t')" "kern t = arm 0 K" for t t' ok
    using compact_dead [OF that(2), of clk] that(1) by simp
  show ?thesis
    using assms flush_buffer_dead [OF assms]
    by (auto simp: rotate_segment_if_needed_def Let_def a intro!: seg elim!: comp split: prod.split bool.split)
qed

lemma compact_if_threshold_dead: "kern s = arm 0 K \<Longrightarrow> kern (compact_if_threshold clk s) = arm 0 K"
  using compact_dead [of s K clk]
  by (auto simp: compact_if_threshold_def Let_def intro!: open_segment_dead split: prod.split bool.split)

lemma prune_kern_same [simp]: "kern (snd (prune_index_to_max_recs s)) = kern s"
  using arg_cong [OF prune_kern [where s = s and K = "kern s"], of "\<lambda>r. kern (snd r)"] by simp

lemma commit_put_dead: "kern s = arm 0 K \<Longrightarrow> kern (commit_put key len off ttl ts pr s) = arm 0 K"
  by (simp add: commit_put_def Let_def persist_index_entry_dead index_insert_def)

lemma commit_remove_dead: "kern s = arm 0 K \<Longrightarrow> kern (commit_remove key s) = arm 0 K"
  by (simp add: commit_remove_def Let_def persist_index_entry_dead index_remove_def)

lemma write_record_dead: "kern s = arm 0 K \<Longrightarrow> kern (snd (write_record hdr key data s)) = arm 0 K"
  by (simp add: write_record_def flush_buffer_dead append_all_dead)

text \<open>The rest of a \<open>put\<close> when the power failed before or in its rotation.\<close>

lemma store_put_dead:
  assumes "kern (snd (rotate_segment_if_needed clk (length data) s)) = arm 0 K" "kern s = arm 0 K \<or> fs_valid s \<and>
    length key \<le> MAX_KEY_LEN \<and> length data \<le> MAX_VALUE_LEN"
  shows "kern (snd (store_put clk key data ttl ts pr s)) = arm 0 K"
proof -
  let ?r = "snd (rotate_segment_if_needed clk (length data) s)"
  obtain ok s2 where w: "write_record (put_header key data ttl ts pr) key data ?r = (ok, s2)" by fastforce
  with write_record_dead [OF assms(1), of "put_header key data ttl ts pr" key data] have "kern s2 = arm 0 K" by simp
  with assms w show ?thesis
    by (cases ok) (auto simp: store_put_def Let_def compact_if_threshold_dead commit_put_dead)
qed

lemma store_remove_dead: "kern s = arm 0 K \<Longrightarrow> kern (snd (store_remove clk jt jp key s)) = arm 0 K"
  by (simp add: store_remove_def Let_def compact_if_threshold_dead commit_remove_dead flush_buffer_dead append_all_dead)

end
