(* ===== verification/WriteCrash.thy ===== *)
theory WriteCrash
  imports DeadDisk FileStoreLaws
begin

text \<open>
  Disks whose power fails between two calls or in the middle of a \<open>write\<close>, which then transfers a part of
  its bytes, as a medium for \<open>put\<close> and \<open>remove\<close> that neither rotate nor compact; and the next \<open>init\<close> on a disk
  whose index file ends in a torn entry.
\<close>

section \<open>Failing disks\<close>

lemma new_store_kern: "(new_store a b K)\<lparr>kern := K'\<rparr> = new_store a b K'"
  by (simp add: new_store_def)

lemma cold_new: "cold (new_store a b K)"
  by (simp add: cold_def new_store_def)

definition failing :: "kernel \<Rightarrow> bool" where
  "failing K \<longleftrightarrow> halted K \<and> (\<exists>c m. faults K = replicate c None \<or> faults K = replicate c None @ [Some m])"

definition dead :: "kernel \<Rightarrow> bool" where
  "dead K \<longleftrightarrow> halted K \<and> faults K = []"

lemma failing_updates [simp]:
  "failing (K\<lparr>inodes := f\<rparr>) = failing K" "dead (K\<lparr>inodes := f\<rparr>) = dead K"
  "failing (append_ino i bs K) = failing K" "dead (append_ino i bs K) = dead K"
  by (simp_all add: failing_def dead_def append_ino_def)

lemma revive_updates [simp]:
  "revive (K\<lparr>inodes := f\<rparr>) = (revive K)\<lparr>inodes := f\<rparr>" "revive (append_ino i bs K) = append_ino i bs (revive K)"
  by (simp_all add: revive_def append_ino_def)

lemma next_fault_failing:
  assumes "failing K"
  obtains x K' where "next_fault K = (x, K')" "failing K'" "revive K' = revive K" "x \<noteq> None \<Longrightarrow> dead K'"
    "dead K \<Longrightarrow> K' = K \<and> x = Some 0" "inodes K' = inodes K" "dir K' = dir K"
proof (cases "faults K")
  case Nil
  with assms show thesis
    by (intro that [of "Some 0" K]) (simp_all add: next_fault_def failing_def dead_def)
next
  case (Cons y ys)
  from assms obtain c m where "halted K" "faults K = replicate c None \<or> faults K = replicate c None @ [Some m]"
    unfolding failing_def by blast
  with Cons have "failing (K\<lparr>faults := ys\<rparr>)" "y \<noteq> None \<Longrightarrow> ys = []"
    by (cases c; auto simp: failing_def)+
  with Cons \<open>halted K\<close> show thesis
    by (intro that [of y "K\<lparr>faults := ys\<rparr>"]) (simp_all add: next_fault_def dead_def revive_def)
qed

text \<open>\<open>written i K bs K'\<close>: of the bytes to be appended to a file a part arrived, and all of them unless the
  power failed.\<close>

definition written :: "nat \<Rightarrow> kernel \<Rightarrow> bytes \<Rightarrow> kernel \<Rightarrow> bool" where
  "written i K bs K' \<longleftrightarrow> failing K' \<and> (dead K \<longrightarrow> K' = K) \<and>
     (\<exists>j \<le> length bs. revive K' = append_ino i (take j bs) (revive K) \<and> (j < length bs \<longrightarrow> dead K'))"

lemma written_refl: "failing K \<Longrightarrow> written i K [] K"
  by (simp add: written_def)

lemma written_trans:
  assumes "written i K xs K1" "written i K1 ys K2"
  shows "written i K (xs @ ys) K2"
proof -
  obtain j where j: "j \<le> length xs" "revive K1 = append_ino i (take j xs) (revive K)" "j < length xs \<longrightarrow> dead K1"
    using assms(1) by (auto simp: written_def)
  obtain l where l: "l \<le> length ys" "revive K2 = append_ino i (take l ys) (revive K1)" "l < length ys \<longrightarrow> dead K2"
    using assms(2) by (auto simp: written_def)
  have "\<exists>m \<le> length (xs @ ys). revive K2 = append_ino i (take m (xs @ ys)) (revive K) \<and>
      (m < length (xs @ ys) \<longrightarrow> dead K2)"
  proof (cases "j < length xs")
    case True
    with j(3) have "dead K1" by simp
    moreover from this have "K2 = K1" using assms(2) by (simp add: written_def)
    ultimately show ?thesis using j(1,2) by (intro exI [of _ j]) simp
  next
    case False
    with j l show ?thesis by (intro exI [of _ "length xs + l"]) simp
  qed
  with assms show ?thesis by (auto simp: written_def)
qed

lemma file_write_failing:
  assumes "append_handle f i" "failing K"
  obtains n g K' where "file_write bs f K = (n, g, K')" "append_handle g i" "written i K bs K'"
proof -
  from assms(1) obtain d where d: "pf_fd (f_impl f) = Some d" "o_ino d = i" "o_wr d" "o_append d"
      "\<not> pf_closed (f_impl f)"
    by (auto simp: append_handle_def pf_is_valid_def split: option.splits)
  obtain x K1 where x: "next_fault K = (x, K1)" "failing K1" "revive K1 = revive K" "x \<noteq> None \<Longrightarrow> dead K1"
    "dead K \<Longrightarrow> K1 = K \<and> x = Some 0" "inodes K1 = inodes K"
    by (rule next_fault_failing [OF assms(2)]) blast
  let ?n = "case x of None \<Rightarrow> length bs | Some m \<Rightarrow> min m (length bs)"
  have w: "sys_write bs d K = (if bs = [] then (Some 0, d, K) else if ?n = 0 then (None, d, K1)
      else (Some ?n, d\<lparr>o_pos := length (inodes K1 i) + ?n\<rparr>, append_ino i (take ?n bs) K1))"
    using d by (simp add: sys_write_def x(1) Let_def append_ino_def)
  have "written i K bs (append_ino i (take ?n bs) K1)"
    unfolding written_def
  proof (intro conjI exI [of _ ?n] impI)
    show "append_ino i (take ?n bs) K1 = K" if "dead K" using x(5) [OF that] by simp
  qed (use x(2,3,4) in \<open>auto split: option.splits\<close>)
  then have "written i K bs (if bs = [] then K else append_ino i (take ?n bs) K1)"
    using written_refl [OF assms(2), of i] by simp
  then show thesis
    using w d by (intro that [of "fst (file_write bs f K)" "fst (snd (file_write bs f K))" "snd (snd (file_write bs f K))"])
      (auto simp: file_write_def pf_write_bytes_def append_handle_def pf_is_valid_def split: prod.split if_splits)
qed

interpretation failed: append_medium failing written
proof
  fix f i K bs
  assume "append_handle f i" "failing K"
  then show "\<exists>n g K'. file_write bs f K = (n, g, K') \<and> append_handle g i \<and> written i K bs K'"
    using file_write_failing [of f i K bs] by blast
qed (auto simp: written_refl intro: written_trans, simp add: written_def)

section \<open>Operations that only append\<close>

text \<open>The test of \<open>compact_if_threshold\<close>, and the one of \<open>rotate_segment_if_needed\<close>.\<close>

definition compaction_due :: "nat \<Rightarrow> u32 \<Rightarrow> bool" where
  "compaction_due n deads \<longleftrightarrow> (let total = of_nat n + deads in total > 0 \<and> deads * 100 div total \<ge> COMPACT_THRESHOLD)"

lemma compact_if_threshold_skip:
  "\<not> compaction_due (length (index s)) (dead_since_compact s) \<Longrightarrow> compact_if_threshold clk s = s"
  by (auto simp: compact_if_threshold_def compaction_due_def Let_def)

definition put_rotates :: "bytes \<Rightarrow> store \<Rightarrow> bool" where
  "put_rotates data s \<longleftrightarrow> unat (segment_size s) \<le> current_offset s + length data + HEADER_SIZE + COMMIT_SIZE"

text \<open>A call of \<open>put\<close> or \<open>remove\<close>, with the record and the index entry that it appends.\<close>

datatype store_op =
    OpPut clock (op_key: bytes) bytes u32 u32 u8
  | OpRemove clock u32 u8 (op_key: bytes)

fun run_op :: "store_op \<Rightarrow> store \<Rightarrow> store" where
  "run_op (OpPut clk key data ttl ts pr) s = snd (store_put clk key data ttl ts pr s)"
| "run_op (OpRemove clk jt jp key) s = snd (store_remove clk jt jp key s)"

definition run_ops :: "store_op list \<Rightarrow> store \<Rightarrow> store" where
  "run_ops ops s = foldl (\<lambda>s o'. run_op o' s) s ops"

lemma run_ops_simps [simp]: "run_ops [] s = s" "run_ops (x # ops) s = run_ops ops (run_op x s)"
  by (simp_all add: run_ops_def)

fun op_record :: "store_op \<Rightarrow> log_record" where
  "op_record (OpPut clk key data ttl ts pr) = (put_header key data ttl ts pr, key, data)"
| "op_record (OpRemove clk jt jp key) = (tombstone_header jt jp key, key, [])"

fun op_entry :: "store_op \<Rightarrow> store \<Rightarrow> index_entry" where
  "op_entry (OpPut clk key data ttl ts pr) s =
     (key, of_nat (current_segment s), of_nat (current_offset s), ts, ttl, pr)"
| "op_entry (OpRemove clk jt jp key) s = (key, INDEX_DELETED, 0, 0, 0, 0)"

fun op_index :: "store_op \<Rightarrow> store \<Rightarrow> index_map" where
  "op_index (OpPut clk key data ttl ts pr) s = AList.update key
     (make_index_value (of_nat (current_segment s)) (of_nat (current_offset s)) ts ttl pr) (index s)"
| "op_index (OpRemove clk jt jp key) s = AList.delete key (index s)"

definition op_dead :: "store_op \<Rightarrow> store \<Rightarrow> u32" where
  "op_dead o' s = dead_since_compact s + (if map_of (index s) (op_key o') = None then 0 else 1)"

text \<open>What the operation changes in memory, file handles aside.\<close>

definition op_memory :: "store_op \<Rightarrow> store \<Rightarrow> store" where
  "op_memory o' s = s\<lparr>dead_since_compact := op_dead o' s, index := op_index o' s,
     current_offset := current_offset s + length (enc_rec (op_record o'))\<rparr>"

text \<open>Its arguments are in range, the store has room, and it neither rotates nor compacts.\<close>

fun op_rotates :: "store_op \<Rightarrow> store \<Rightarrow> bool" where
  "op_rotates (OpPut clk key data ttl ts pr) s \<longleftrightarrow> put_rotates data s"
| "op_rotates (OpRemove clk jt jp key) s \<longleftrightarrow> False"

definition op_fits :: "store_op \<Rightarrow> bool" where
  "op_fits o' \<longleftrightarrow> 0 < length (op_key o') \<and> length (op_key o') \<le> MAX_KEY_LEN \<and>
     (case op_record o' of (h, k, v) \<Rightarrow> length v \<le> MAX_VALUE_LEN)"

definition has_room :: "store \<Rightarrow> bool" where
  "has_room s \<longleftrightarrow> length (index s) < max_keys \<and> current_offset s < 2 ^ 24 \<and> policy_max_recs s = 0"

definition appends_only :: "store_op \<Rightarrow> store \<Rightarrow> bool" where
  "appends_only o' s \<longleftrightarrow> op_fits o' \<and> has_room s \<and>
     \<not> op_rotates o' s \<and> \<not> compaction_due (length (op_index o' s)) (op_dead o' s)"

text \<open>The operation between its rotation and its compaction.\<close>

fun op_core :: "store_op \<Rightarrow> store \<Rightarrow> store" where
  "op_core (OpPut clk key data ttl ts pr) s =
     commit_put key (length data) (current_offset s) ttl ts pr
       (snd (write_record (put_header key data ttl ts pr) key data s))"
| "op_core (OpRemove clk jt jp key) s =
     commit_remove key (snd (flush_buffer
       (append_all [enc_header (tombstone_header jt jp key), key, enc_commit MAGIC_COMMIT] s)))"

fun op_clock :: "store_op \<Rightarrow> clock" where
  "op_clock (OpPut clk key data ttl ts pr) = clk"
| "op_clock (OpRemove clk jt jp key) = clk"

text \<open>The store appends to the files \<open>i\<close> and \<open>j\<close>; twins differ in the disk and in what the handles say.\<close>

definition writes_to :: "nat \<Rightarrow> nat \<Rightarrow> store \<Rightarrow> bool" where
  "writes_to i j s \<longleftrightarrow> fs_valid s \<and> write_buf s = [] \<and> (\<exists>f. active_file s = Some f \<and> append_handle f i) \<and>
     (\<exists>g. index_file s = Some g \<and> append_handle g j)"

definition twin :: "store \<Rightarrow> store \<Rightarrow> bool" where
  "twin t s \<longleftrightarrow> t = s\<lparr>active_file := active_file t, index_file := index_file t, kern := kern t\<rparr>"

lemma twin_refl [simp]: "twin s s"
  by (simp add: twin_def)

lemma twin_updates [simp]: "twin (s\<lparr>active_file := f, index_file := g, kern := K\<rparr>) s" "twin (s\<lparr>kern := K\<rparr>) s"
  by (simp_all add: twin_def)

lemma twin_sym: "twin t s \<Longrightarrow> twin s t"
  by (cases s; cases t) (simp add: twin_def)

lemma twin_trans: "twin r s \<Longrightarrow> twin s t \<Longrightarrow> twin r t"
  by (cases r; cases s; cases t) (simp add: twin_def)

lemma twin_fields:
  assumes "twin t s"
  shows "index t = index s" "current_segment t = current_segment s" "current_offset t = current_offset s"
    "dead_since_compact t = dead_since_compact s" "base_prefix t = base_prefix s" "segment_count t = segment_count s"
    "segment_size t = segment_size s" "policy_max_recs t = policy_max_recs s" "policy_ttl_secs t = policy_ttl_secs s"
    "fs_valid t = fs_valid s" "write_buf t = write_buf s" "compact_in_cooldown t = compact_in_cooldown s"
    "compact_cooldown_start_ms t = compact_cooldown_start_ms s"
  using assms by (cases s; cases t; simp add: twin_def)+

lemma twin_op:
  assumes "twin t s"
  shows "twin (op_memory o' t) (op_memory o' s)" "appends_only o' t = appends_only o' s"
    "op_entry o' t = op_entry o' s"
proof -
  have same: "op_index o' t = op_index o' s" "op_dead o' t = op_dead o' s" "op_rotates o' t = op_rotates o' s"
    by (cases o'; simp add: twin_fields [OF assms] op_dead_def put_rotates_def)+
  show "appends_only o' t = appends_only o' s"
    by (simp add: appends_only_def has_room_def same twin_fields [OF assms])
  show "op_entry o' t = op_entry o' s" by (cases o'; simp add: twin_fields [OF assms])
  show "twin (op_memory o' t) (op_memory o' s)"
    unfolding twin_def by (rule store.equality) (simp_all add: op_memory_def same twin_fields [OF assms])
qed

lemma commit_put_plain:
  assumes "policy_max_recs s = 0"
  shows "commit_put key (length data) (current_offset s) ttl ts pr s =
     (let o' = OpPut clk key data ttl ts pr;
          s' = snd (persist_index_entry key (of_nat (current_segment s)) (of_nat (current_offset s)) ts ttl pr
            (s\<lparr>dead_since_compact := op_dead o' s, index := op_index o' s\<rparr>))
      in s'\<lparr>current_offset := current_offset s' + length (enc_rec (op_record o'))\<rparr>)"
proof -
  have "s\<lparr>dead_since_compact := dead_since_compact s\<rparr> = s" by simp
  with assms show ?thesis
    by (simp add: commit_put_def Let_def index_find_def index_insert_def op_dead_def enc_rec_def add.assoc)
qed

lemma commit_remove_plain:
  "commit_remove key s =
     (let o' = OpRemove clk jt jp key;
          s' = snd (persist_index_entry key INDEX_DELETED 0 0 0 0
            (s\<lparr>dead_since_compact := op_dead o' s, index := op_index o' s\<rparr>))
      in s'\<lparr>current_offset := current_offset s' + length (enc_rec (op_record o'))\<rparr>)"
proof -
  have "s\<lparr>dead_since_compact := dead_since_compact s\<rparr> = s" by simp
  then show ?thesis
    by (simp add: commit_remove_def Let_def index_find_def index_remove_def op_dead_def enc_rec_def add.assoc)
qed

context append_medium
begin

lemma persist_entry:
  assumes "index_file s = Some g" "append_handle g j" "good (kern s)"
  obtains g' K' where "persist_index_entry key seg off ts ttl pr s = (True, s\<lparr>index_file := Some g', kern := K'\<rparr>)"
    "append_handle g' j" "wrote j (kern s) (enc_entry (key, seg, off, ts, ttl, pr)) K'"
proof -
  obtain g' K' where "file_write_seq (index_entry_writes key seg off ts ttl pr) g (kern s) = (g', K')"
    "append_handle g' j" "wrote j (kern s) (concat (index_entry_writes key seg off ts ttl pr)) K'"
    by (rule write_seq [OF assms(2,3)])
  with assms(1,2) show thesis
    by (intro that [where g' = g' and K' = K']) (simp_all add: persist_index_entry_def enc_entry_def)
qed

text \<open>On any medium the operation writes its record, then its entry, and does the same in memory.\<close>

lemma op_core_shape:
  assumes s: "writes_to i j s" "good (kern s)" "policy_max_recs s = 0"
  obtains K1 where "writes_to i j (op_core o' s)" "twin (op_core o' s) (op_memory o' s)"
    "wrote i (kern s) (enc_rec (op_record o')) K1" "wrote j K1 (enc_entry (op_entry o' s)) (kern (op_core o' s))"
    "case o' of OpPut clk key data ttl ts pr \<Rightarrow> fst (write_record (put_header key data ttl ts pr) key data s)
     | OpRemove clk jt jp key \<Rightarrow> True"
proof -
  obtain f g where s': "fs_valid s" "write_buf s = []" "active_file s = Some f" "append_handle f i"
      "index_file s = Some g" "append_handle g j"
    using s(1) by (auto simp: writes_to_def)
  note result = that and appended = buffered_writes_append [OF s'(3,4) s(2) s'(2)]
  have fin: thesis if "op_core o' s = (op_memory o' s)\<lparr>active_file := Some f', index_file := Some g', kern := K2\<rparr>"
      "append_handle f' i" "append_handle g' j" "wrote i (kern s) (enc_rec (op_record o')) K1"
      "wrote j K1 (enc_entry (op_entry o' s)) K2" "case o' of OpPut clk key data ttl ts pr \<Rightarrow>
        fst (write_record (put_header key data ttl ts pr) key data s) | OpRemove clk jt jp key \<Rightarrow> True" for f' g' K1 K2
    using that s' by (intro result [of K1]) (simp_all add: writes_to_def op_memory_def)
  show thesis
  proof (cases o')
    case o: (OpPut clk key data ttl ts pr)
    let ?h = "put_header key data ttl ts pr"
    have chunks: "concat [enc_header ?h, key, data, enc_commit MAGIC_COMMIT] = enc_rec (op_record o')"
      by (simp add: o enc_rec_def enc_record_def)
    from appended [of "[enc_header ?h, key, data, enc_commit MAGIC_COMMIT]"]
    obtain f' K1 where w: "write_record ?h key data s = (True, s\<lparr>active_file := Some f', kern := K1\<rparr>)"
        "append_handle f' i" "wrote i (kern s) (enc_rec (op_record o')) K1"
      unfolding chunks write_record_def by auto
    let ?s1 = "s\<lparr>active_file := Some f', kern := K1\<rparr>"
    let ?t = "?s1\<lparr>dead_since_compact := op_dead o' ?s1, index := op_index o' ?s1\<rparr>"
    have t: "index_file ?t = Some g" "good (kern ?t)" using s'(5) wrote_good [OF w(3)] by simp_all
    obtain g' K2 where p: "persist_index_entry key (of_nat (current_segment ?s1)) (of_nat (current_offset ?s1)) ts ttl pr ?t =
        (True, ?t\<lparr>index_file := Some g', kern := K2\<rparr>)" "append_handle g' j"
        "wrote j K1 (enc_entry (op_entry o' s)) K2"
      by (rule persist_entry [OF t(1) s'(6) t(2)]) (simp add: o)
    have "policy_max_recs ?s1 = 0" using s(3) by simp
    from commit_put_plain [OF this, of key data ttl ts pr clk, folded o]
    have "commit_put key (length data) (current_offset s) ttl ts pr ?s1 =
        (op_memory o' s)\<lparr>active_file := Some f', index_file := Some g', kern := K2\<rparr>"
      using p(1) by (simp add: op_memory_def op_dead_def o Let_def)
    then show thesis using w p(2,3) by (intro fin) (simp_all add: o)
  next
    case o: (OpRemove clk jt jp key)
    let ?h = "tombstone_header jt jp key"
    have chunks: "concat [enc_header ?h, key, enc_commit MAGIC_COMMIT] = enc_rec (op_record o')"
      by (simp add: o enc_rec_def enc_record_def)
    from appended [of "[enc_header ?h, key, enc_commit MAGIC_COMMIT]"]
    obtain f' K1 where w: "flush_buffer (append_all [enc_header ?h, key, enc_commit MAGIC_COMMIT] s) =
          (True, s\<lparr>active_file := Some f', kern := K1\<rparr>)"
        "append_handle f' i" "wrote i (kern s) (enc_rec (op_record o')) K1"
      unfolding chunks by auto
    let ?s1 = "s\<lparr>active_file := Some f', kern := K1\<rparr>"
    let ?t = "?s1\<lparr>dead_since_compact := op_dead o' ?s1, index := op_index o' ?s1\<rparr>"
    have t: "index_file ?t = Some g" "good (kern ?t)" using s'(5) wrote_good [OF w(3)] by simp_all
    obtain g' K2 where p: "persist_index_entry key INDEX_DELETED 0 0 0 0 ?t =
        (True, ?t\<lparr>index_file := Some g', kern := K2\<rparr>)" "append_handle g' j"
        "wrote j K1 (enc_entry (op_entry o' s)) K2"
      by (rule persist_entry [OF t(1) s'(6) t(2)]) (simp add: o)
    have "commit_remove key ?s1 = (op_memory o' s)\<lparr>active_file := Some f', index_file := Some g', kern := K2\<rparr>"
      using p(1) commit_remove_plain [of key ?s1 clk jt jp, folded o]
      by (simp add: op_memory_def op_dead_def o Let_def)
    then show thesis using w p(2,3) by (intro fin) (simp_all add: o)
  qed
qed

end

text \<open>\<open>put\<close> and \<open>remove\<close> are a rotation, the core and a compaction.\<close>

fun op_start :: "store_op \<Rightarrow> store \<Rightarrow> store" where
  "op_start (OpPut clk key data ttl ts pr) s = snd (rotate_segment_if_needed clk (length data) s)"
| "op_start (OpRemove clk jt jp key) s = s"

context append_medium
begin

lemma run_op_phases:
  assumes "fs_valid s" "op_fits o'" "writes_to i j (op_start o' s)" "good (kern (op_start o' s))"
    "policy_max_recs (op_start o' s) = 0"
  shows "run_op o' s = compact_if_threshold (op_clock o') (op_core o' (op_start o' s))"
proof -
  show ?thesis
  proof (cases o')
    case o: (OpPut clk key data ttl ts pr)
    have "fst (write_record (put_header key data ttl ts pr) key data (op_start o' s))"
      by (rule op_core_shape [OF assms(3-5), of o']) (simp add: o)
    then obtain s1 where "write_record (put_header key data ttl ts pr) key data (op_start o' s) = (True, s1)"
      by (cases "write_record (put_header key data ttl ts pr) key data (op_start o' s)") auto
    then show ?thesis using assms(1,2) by (simp add: o store_put_def Let_def op_fits_def)
  next
    case o: (OpRemove clk jt jp key)
    then show ?thesis using assms(1,2) by (simp add: store_remove_def Let_def op_fits_def)
  qed
qed

lemma run_op_appends:
  assumes s: "writes_to i j s" "good (kern s)" and plain: "appends_only o' s"
  obtains K1 where "writes_to i j (run_op o' s)" "twin (run_op o' s) (op_memory o' s)"
    "wrote i (kern s) (enc_rec (op_record o')) K1" "wrote j K1 (enc_entry (op_entry o' s)) (kern (run_op o' s))"
proof -
  have p: "policy_max_recs s = 0" "fs_valid s" "op_fits o'"
    using plain s(1) by (simp_all add: appends_only_def has_room_def writes_to_def)
  obtain K1 where core: "writes_to i j (op_core o' s)" "twin (op_core o' s) (op_memory o' s)"
    "wrote i (kern s) (enc_rec (op_record o')) K1" "wrote j K1 (enc_entry (op_entry o' s)) (kern (op_core o' s))"
    by (rule op_core_shape [OF s p(1)]) blast
  have start: "op_start o' s = s"
    using plain by (cases o') (simp_all add: appends_only_def rotate_segment_if_needed_def put_rotates_def)
  have "compact_if_threshold (op_clock o') (op_core o' s) = op_core o' s"
    using plain twin_fields [OF core(2)]
    by (intro compact_if_threshold_skip) (simp add: appends_only_def op_memory_def)
  then have "run_op o' s = op_core o' s"
    using run_op_phases [of s o' i j] p(1,2,3) s by (simp add: start)
  with core show thesis by (intro that [of K1]) simp_all
qed

end

section \<open>The next boot\<close>

text \<open>What a store shows after \<open>init\<close> on a disk whose index file may end in a torn entry.\<close>

definition get_agrees :: "clock \<Rightarrow> store \<Rightarrow> bool" where
  "get_agrees clk s \<longleftrightarrow> (\<forall>k out_size. length k \<le> MAX_KEY_LEN \<longrightarrow>
     fst (store_get clk k True out_size s) = (case visible clk s k of None \<Rightarrow> None
       | Some (v, ts, ttl, pr) \<Rightarrow> Some (take (unat out_size) v, of_nat (length v))))"

lemma boot_index:
  assumes u: "healthy (kern u)" "kernel_wf (kern u)" "index u = []" "policy_max_recs u = 0"
    and ix: "contents (kern u) (index_name (base_prefix u)) = Some (enc_entries es @ torn)" "parse_entries torn = []"
      "\<forall>e \<in> set es. length (fst e) \<le> MAX_KEY_LEN"
  obtains w where "(let s = open_index_for_append (prune_at_boot (load_or_rebuild u))
      in snd (open_segment (resume_segment s) s)) = w"
    "index w = replay es" "base_prefix w = base_prefix u" "fs_valid w = fs_valid u" "write_buf w = write_buf u"
    "policy_ttl_secs w = policy_ttl_secs u"
    "\<And>q bs. contents (kern u) q = Some bs \<Longrightarrow> contents (kern w) q = Some bs"
proof -
  obtain g where g: "open_index_for_append (prune_at_boot (load_or_rebuild u)) =
      u\<lparr>index := replay es, index_file := Some g\<rparr>"
    by (rule boot_loaded [OF u ix]) blast
  define c where "c = resume_segment (u\<lparr>index := replay es, index_file := Some g\<rparr>)"
  obtain f where f: "snd (open_segment c (u\<lparr>index := replay es, index_file := Some g\<rparr>)) =
       u\<lparr>index := replay es, index_file := Some g, active_file := Some f,
         kern := create_ino (segment_name (base_prefix u) c) (kern u), current_segment := c,
         current_offset := (case contents (kern u) (segment_name (base_prefix u) c) of None \<Rightarrow> 0 | Some bs \<Rightarrow> length bs)\<rparr>"
    by (rule open_segment_shape [of "u\<lparr>index := replay es, index_file := Some g\<rparr>" c]) (use u(1,2) in auto)
  have eq: "(let s = open_index_for_append (prune_at_boot (load_or_rebuild u)) in snd (open_segment (resume_segment s) s)) =
      u\<lparr>index := replay es, index_file := Some g, active_file := Some f,
         kern := create_ino (segment_name (base_prefix u) c) (kern u), current_segment := c,
         current_offset := (case contents (kern u) (segment_name (base_prefix u) c) of None \<Rightarrow> 0 | Some bs \<Rightarrow> length bs)\<rparr>"
    unfolding g Let_def c_def [symmetric] f ..
  show thesis by (rule that [OF eq]) (auto simp: contents_create [OF u(2)])
qed

lemma boot_torn:
  assumes t: "healthy (kern t)" "kernel_wf (kern t)" "cold t" and p: "prefix_ok p" and n: "unat seg_count \<noteq> 0"
    and jn: "contents (kern t) (journal_name p) = None"
    and ix: "contents (kern t) (index_name p) = Some (enc_entries es @ torn)" "parse_entries torn = []"
      "\<forall>e \<in> set es. length (fst e) \<le> MAX_KEY_LEN"
    and entries: "\<forall>k iv. map_of (replay es) k = Some iv \<longrightarrow> entry_ok (kern t) p (unat seg_count) k iv"
  obtains w where "store_init p False seg_size seg_count t = (True, w)"
    "\<And>k. stored w k = (case map_of (replay es) k of None \<Rightarrow> None
       | Some iv \<Rightarrow> map_option payload_of (entry_record (kern t) p iv))"
    "policy_ttl_secs w = policy_ttl_secs t" "get_agrees clk w"
proof -
  obtain u where u: "store_init p False seg_size seg_count t =
      (True, let s = open_index_for_append (prune_at_boot (load_or_rebuild u))
             in snd (open_segment (resume_segment s) s))"
    "base_prefix u = p" "segment_count u = seg_count" "fs_valid u" "index u = []" "write_buf u = []"
    "policy_max_recs u = 0" "policy_ttl_secs u = policy_ttl_secs t" "active_file u = active_file t"
    "healthy (kern u)" "kernel_wf (kern u)" "\<And>q. contents (kern u) q = contents (kern t) q"
    by (rule init_start [OF t(1,2) p jn t(3) n]) blast
  have ixu: "contents (kern u) (index_name (base_prefix u)) = Some (enc_entries es @ torn)"
    using ix(1) u(2,12) by simp
  obtain w where w: "(let s = open_index_for_append (prune_at_boot (load_or_rebuild u))
      in snd (open_segment (resume_segment s) s)) = w"
    "index w = replay es" "base_prefix w = base_prefix u" "fs_valid w = fs_valid u" "write_buf w = write_buf u"
    "policy_ttl_secs w = policy_ttl_secs u"
    "\<And>q bs. contents (kern u) q = Some bs \<Longrightarrow> contents (kern w) q = Some bs"
    by (rule boot_index [OF u(10,11,5,7) ixu ix(2,3)]) blast
  have init: "store_init p False seg_size seg_count t = (True, w)" unfolding u(1) w(1) ..
  have wf: "index w = replay es" "base_prefix w = p" "fs_valid w" "write_buf w = []" "policy_ttl_secs w = policy_ttl_secs t"
    using w(2-6) u by simp_all
  have grow: "\<exists>xs. contents (kern w) (segment_name p i) = Some (bs @ xs)"
    if "contents (kern t) (segment_name p i) = Some bs" for i bs
    using that w(7) [of "segment_name p i" bs] u(12) by simp
  have e: "entry_ok (kern w) p (unat seg_count) k iv" "entry_record (kern w) p iv = entry_record (kern t) p iv"
    if "map_of (replay es) k = Some iv" for k iv
    using entry_ok_mono [of "kern t" p _ k iv "kern w", OF _ grow] entries that by blast+
  have st: "stored w k = (case map_of (replay es) k of None \<Rightarrow> None
       | Some iv \<Rightarrow> map_option payload_of (entry_record (kern t) p iv))" for k
    using e(2) [of k] by (simp add: stored_def wf split: option.split)
  have "get_agrees clk w"
    unfolding get_agrees_def
  proof (intro allI impI)
    fix k :: bytes and out_size :: u16
    assume k: "length k \<le> MAX_KEY_LEN"
    have "entry_ok (kern w) (base_prefix w) (unat seg_count) k iv" if "map_of (index w) k = Some iv" for iv
      using e(1) that by (simp add: wf)
    from get_stored [OF wf(3,4) k this, of clk True out_size]
    show "fst (store_get clk k True out_size w) = (case visible clk w k of None \<Rightarrow> None
       | Some (v, ts, ttl, pr) \<Rightarrow> Some (take (unat out_size) v, of_nat (length v)))"
      by (auto simp: visible_def split: option.split prod.split)
  qed
  then show thesis using init st wf(5) by (intro that [of w]) simp_all
qed

end
