(* ===== verification/RunCrash.thy ===== *)
theory RunCrash
  imports WriteCrash
begin

text \<open>
  Power failures during a sequence of \<open>put\<close>s and \<open>remove\<close>s that may rotate to the next segment, but do not
  compact. What reaches the disk of the operation that is hit is nothing, an empty segment, a prefix of its
  record or, once the record is complete, a prefix of its index entry; the operations after it change
  nothing. The next \<open>init\<close> shows the store as it was after some prefix of the operations.
\<close>

section \<open>What the disk remembers\<close>

text \<open>The persistent index agrees with the one in memory about \<open>k\<close>.\<close>

definition logged :: "store \<Rightarrow> bytes \<Rightarrow> bool" where
  "logged s k \<longleftrightarrow> (\<exists>es. contents (kern s) (index_name (base_prefix s)) = Some (enc_entries es) \<and>
     (\<forall>e \<in> set es. length (fst e) \<le> MAX_KEY_LEN) \<and> map_of (replay es) k = map_of (index s) k)"

lemma enc_entries_inj:
  assumes "enc_entries es = enc_entries es'" "\<forall>e \<in> set es. length (fst e) \<le> MAX_KEY_LEN"
    "\<forall>e \<in> set es'. length (fst e) \<le> MAX_KEY_LEN"
  shows "es = es'"
  using parse_enc_entries [OF assms(2), of "[]"] parse_enc_entries [OF assms(3), of "[]"] assms(1)
  by (simp add: parse_entries_Nil)

lemma loggedD:
  assumes "logged s k" "contents (kern s) (index_name (base_prefix s)) = Some (enc_entries es)"
    "\<forall>e \<in> set es. length (fst e) \<le> MAX_KEY_LEN"
  shows "map_of (replay es) k = map_of (index s) k"
  using assms enc_entries_inj by (auto simp: logged_def)

lemma logged_stored:
  assumes "store_ok s" "stored s k \<noteq> None"
  shows "logged s k"
proof -
  obtain iv where iv: "map_of (index s) k = Some iv" using assms(2) by (auto simp: stored_def split: option.splits)
  obtain es where es: "contents (kern s) (index_name (base_prefix s)) = Some (enc_entries es)"
      "\<forall>e \<in> set es. length (fst e) \<le> MAX_KEY_LEN" "map_of (index s) \<subseteq>\<^sub>m map_of (replay es)"
    using assms(1) by (auto simp: store_ok_def disk_ok_def)
  with iv have "map_of (replay es) k = map_of (index s) k" unfolding map_le_def by (metis domI)
  with es show ?thesis by (auto simp: logged_def)
qed

lemma writes_to_dir:
  assumes "store_ok s" "writes_to i j s"
  shows "dir (kern s) (segment_name (base_prefix s) (current_segment s)) = Some i"
    "dir (kern s) (index_name (base_prefix s)) = Some j"
proof -
  have "a = b" if "append_handle f a" "append_handle f b" for f a b
    using that by (auto simp: append_handle_def split: option.splits)
  then show "dir (kern s) (segment_name (base_prefix s) (current_segment s)) = Some i"
    "dir (kern s) (index_name (base_prefix s)) = Some j"
    using assms unfolding store_ok_def writes_to_def handle_on_def by (metis option.inject)+
qed

text \<open>Of an operation that is cut short the next boot sees nothing.\<close>

lemma boot_after:
  assumes ok: "store_ok s" "writes_to i j s" and t: "cold t" "policy_ttl_secs t = policy_ttl_secs s"
    and K: "kern t = append_ino j torn (append_ino i xs (kern s))" "parse_entries torn = []"
  obtains w where "store_init (base_prefix s) False seg_size (segment_count s) t = (True, w)" "get_agrees clk w"
    "policy_ttl_secs w = policy_ttl_secs s" "\<And>k. logged s k \<Longrightarrow> stored w k = stored s k"
proof -
  let ?p = "base_prefix s" and ?n = "unat (segment_count s)" and ?c = "current_segment s"
  have disk: "disk_ok (kern s) ?p ?n (index s)" and cur: "?c < ?n" using ok(1) by (simp_all add: store_ok_def)
  have n0: "?n \<noteq> 0" using cur by simp
  have p: "prefix_ok ?p" and wf: "healthy (kern s)" "kernel_wf (kern s)" using disk by (simp_all add: disk_ok_def)
  note ij = writes_to_dir [OF ok]
  define K1 where "K1 = append_ino i xs (kern s)"
  note grow = disk_ok_grow [OF disk segment_count_le cur ij(1), where xs = xs, folded K1_def]
  obtain es where es: "contents (kern s) (index_name ?p) = Some (enc_entries es)"
      "\<forall>e \<in> set es. length (fst e) \<le> MAX_KEY_LEN"
      "\<And>k iv. map_of (replay es) k = Some iv \<Longrightarrow> entry_ok (kern s) ?p ?n k iv"
    using disk by (auto simp: disk_ok_def)
  have wf1: "healthy K1" "kernel_wf K1" "dir K1 (index_name ?p) = Some j" using wf ij(2) by (simp_all add: K1_def)
  note app = touches_append(3) [OF wf1, of torn]
  have lt: "l < 256" if "l < ?n" for l using that by (rule segment_count_less)
  have same: "\<exists>ys. contents (kern t) (segment_name ?p l) = Some (bs @ ys)"
    if "l < ?n" "contents K1 (segment_name ?p l) = Some bs" for l bs
    using that p lt [OF that(1)] by (simp add: K(1) K1_def [symmetric] app)
  have keep: "entry_ok (kern t) ?p ?n k iv" "entry_record (kern t) ?p iv = entry_record (kern s) ?p iv"
    if "map_of (replay es) k = Some iv" for k iv
    using entry_ok_mono [OF grow(2) [OF es(3) [OF that]] same] grow(3) [OF es(3) [OF that]] by simp_all
  have "inodes K1 j = enc_entries es"
    using es(1) ij kernel_wf_inj [OF wf(2) ij(1), of "index_name ?p"] p lt [OF cur]
    by (auto simp: K1_def contents_def)
  then have ix: "contents (kern t) (index_name ?p) = Some (enc_entries es @ torn)"
    by (simp add: K(1) K1_def [symmetric] app)
  have jn: "contents (kern t) (journal_name ?p) = None"
    using grow(1) p by (simp add: K(1) K1_def [symmetric] app) (simp add: disk_ok_def)
  have tt: "healthy (kern t)" "kernel_wf (kern t)" using wf1 by (simp_all add: K(1) K1_def)
  obtain w where w: "store_init ?p False seg_size (segment_count s) t = (True, w)"
    "\<And>k. stored w k = (case map_of (replay es) k of None \<Rightarrow> None
       | Some iv \<Rightarrow> map_option payload_of (entry_record (kern t) ?p iv))"
    "policy_ttl_secs w = policy_ttl_secs t" "get_agrees clk w"
    by (rule boot_torn [OF tt t(1) p n0 jn ix K(2) es(2), of seg_size clk]) (use keep(1) in blast)+
  show thesis
  proof (rule that [OF w(1,4)])
    show "stored w k = stored s k" if "logged s k" for k
      using loggedD [OF that es(1,2)] keep(2) [of k] w(2) [of k]
      by (simp add: stored_def [of s] split: option.splits)
  qed (use w(3) t(2) in simp)
qed

section \<open>One operation\<close>

lemma store_ok_append:
  assumes "store_ok s" "appends_only o' s"
  shows "store_ok (run_op o' s)"
proof (cases o')
  case (OpPut clk key data ttl ts pr)
  with assms store_put_ok [of s key data clk ttl ts pr] show ?thesis by (simp add: appends_only_def op_fits_def has_room_def)
next
  case (OpRemove clk jt jp key)
  with assms store_remove_ok [of s key clk jt jp] show ?thesis by (simp add: appends_only_def op_fits_def has_room_def)
qed

lemma store_ok_writes_to:
  assumes "store_ok s"
  obtains i j where "writes_to i j s"
  using assms by (auto simp: store_ok_def writes_to_def handle_on_def)

text \<open>The files after a record and an index entry have been appended.\<close>

lemma appended_files:
  assumes ok: "store_ok s" "writes_to i j s" and K: "K = append_ino j (enc_entry e) (append_ino i xs (kern s))"
  obtains es where "contents (kern s) (index_name (base_prefix s)) = Some (enc_entries es)"
    "\<forall>e \<in> set es. length (fst e) \<le> MAX_KEY_LEN"
    "contents K (index_name (base_prefix s)) = Some (enc_entries (es @ [e]))"
    "\<And>l bs. l < unat (segment_count s) \<Longrightarrow> contents (kern s) (segment_name (base_prefix s) l) = Some bs \<Longrightarrow>
       \<exists>ys. contents K (segment_name (base_prefix s) l) = Some (bs @ ys)"
proof -
  let ?p = "base_prefix s" and ?K = "kern s"
  have h: "healthy ?K" "kernel_wf ?K" "prefix_ok ?p" using ok(1) by (simp_all add: store_ok_def disk_ok_def)
  note d = writes_to_dir [OF ok]
  have small: "l < 256" if "l < unat (segment_count s)" for l using that by (rule segment_count_less)
  then have cur: "current_segment s < 256" using ok(1) by (auto simp: store_ok_def)
  obtain es where es: "contents ?K (index_name ?p) = Some (enc_entries es)"
      "\<forall>e \<in> set es. length (fst e) \<le> MAX_KEY_LEN"
    using ok(1) by (auto simp: store_ok_def disk_ok_def)
  define K1 where "K1 = append_ino i xs ?K"
  have K1: "healthy K1" "kernel_wf K1" "dir K1 (index_name ?p) = Some j" using h d by (simp_all add: K1_def)
  note app = touches_append(3) [OF K1] touches_append(3) [OF h(1,2) d(1), of xs, folded K1_def]
  have "inodes K1 j = enc_entries es"
    using es(1) d kernel_wf_inj [OF h(2) d(1), of "index_name ?p"] h(3) cur by (auto simp: K1_def contents_def)
  then have c: "contents K (index_name ?p) = Some (enc_entries (es @ [e]))"
    by (simp add: K K1_def [symmetric] app)
  have g: "\<exists>ys. contents K (segment_name ?p l) = Some (bs @ ys)"
    if "l < unat (segment_count s)" "contents ?K (segment_name ?p l) = Some bs" for l bs
  proof (cases "segment_name ?p l = segment_name ?p (current_segment s)")
    case True
    have "contents K (segment_name ?p l) = contents K1 (segment_name ?p (current_segment s))"
      using True h(3) cur by (simp add: K K1_def [symmetric] app(1))
    moreover have "inodes ?K i = bs" using that(2) d(1) True by (simp add: contents_def)
    ultimately show ?thesis by (simp add: app(2))
  next
    case False
    with that h(3) small [OF that(1)] show ?thesis by (simp add: K K1_def [symmetric] app)
  qed
  show thesis by (rule that [OF es c g])
qed

lemma logged_core:
  assumes ok: "store_ok s" "writes_to i j s" and s': "twin s' (op_memory o' s)"
      "kern s' = append_ino j (enc_entry (op_entry o' s)) (append_ino i xs (kern s))"
    and k: "k = op_key o' \<or> logged s k" and len: "length (op_key o') \<le> MAX_KEY_LEN"
  shows "logged s' k"
proof -
  have cur: "current_segment s < 256" using ok(1) by (intro segment_count_less) (auto simp: store_ok_def)
  obtain es where es: "contents (kern s) (index_name (base_prefix s)) = Some (enc_entries es)"
    "\<forall>e \<in> set es. length (fst e) \<le> MAX_KEY_LEN"
    "contents (kern s') (index_name (base_prefix s)) = Some (enc_entries (es @ [op_entry o' s]))"
    by (rule appended_files [OF ok s'(2)]) blast
  have "base_prefix s' = base_prefix s" "index s' = op_index o' s"
    using twin_fields [OF s'(1)] by (simp_all add: op_memory_def)
  moreover have "map_of (replay (es @ [op_entry o' s])) k = map_of (op_index o' s) k"
  proof -
    have "(of_nat (current_segment s) :: u32) \<noteq> INDEX_DELETED" using cur by (rule of_nat_not_deleted)
    moreover have "map_of (replay es) k = map_of (index s) k" if "k \<noteq> op_key o'"
      using loggedD [OF _ es(1,2)] k that by blast
    ultimately show ?thesis by (cases o'; cases "k = op_key o'") (simp_all add: replay_append)
  qed
  moreover have "length (fst (op_entry o' s)) \<le> MAX_KEY_LEN" using len by (cases o') simp_all
  ultimately show ?thesis
    using es(2,3) unfolding logged_def by (intro exI [of _ "es @ [op_entry o' s]"]) auto
qed

lemma logged_append:
  assumes ok: "store_ok s" and plain: "appends_only o' s" and k: "k = op_key o' \<or> logged s k"
  shows "logged (run_op o' s) k"
proof -
  obtain i j where ij: "writes_to i j s" by (rule store_ok_writes_to [OF ok])
  have "healthy (kern s)" using ok by (simp add: store_ok_def disk_ok_def)
  then have r: "twin (run_op o' s) (op_memory o' s)"
      "kern (run_op o' s) = append_ino j (enc_entry (op_entry o' s)) (append_ino i (enc_rec (op_record o')) (kern s))"
    by (rule sound.run_op_appends [OF ij _ plain], blast)+
  show ?thesis
    by (rule logged_core [OF ok ij r k]) (use plain in \<open>simp add: appends_only_def op_fits_def\<close>)
qed

text \<open>The same operation on a good disk and on a failing one.\<close>

lemma run_failing_step:
  assumes t: "writes_to i j t" "twin t s" "failing (kern t)" and s: "writes_to i j s" "healthy (kern s)"
    and plain: "appends_only o' s"
  obtains K1 where "writes_to i j (run_op o' t)" "twin (run_op o' t) (run_op o' s)" "writes_to i j (run_op o' s)"
    "written i (kern t) (enc_rec (op_record o')) K1" "written j K1 (enc_entry (op_entry o' s)) (kern (run_op o' t))"
    "kern (run_op o' s) = append_ino j (enc_entry (op_entry o' s)) (append_ino i (enc_rec (op_record o')) (kern s))"
proof -
  note same = twin_op [OF t(2)]
  obtain K1 where r: "writes_to i j (run_op o' t)" "twin (run_op o' t) (op_memory o' t)"
    "written i (kern t) (enc_rec (op_record o')) K1" "written j K1 (enc_entry (op_entry o' t)) (kern (run_op o' t))"
    by (rule failed.run_op_appends [OF t(1,3)]) (use plain in \<open>simp_all add: same\<close>)
  obtain K2 where h: "writes_to i j (run_op o' s)" "twin (run_op o' s) (op_memory o' s)"
    "K2 = append_ino i (enc_rec (op_record o')) (kern s)"
    "kern (run_op o' s) = append_ino j (enc_entry (op_entry o' s)) K2"
    by (rule sound.run_op_appends [OF s plain]) blast
  have "twin (run_op o' t) (run_op o' s)"
    by (rule twin_trans [OF r(2) twin_trans [OF same(1) twin_sym [OF h(2)]]])
  then show thesis using r h by (intro that [of K1]) (simp_all add: same)
qed

lemma written_dead: "written i K bs K' \<Longrightarrow> dead K \<Longrightarrow> K' = K"
  by (simp add: written_def)

lemma written_failing: "written i K bs K' \<Longrightarrow> failing K'"
  by (simp add: written_def)

lemma dead_arm: "dead K \<Longrightarrow> K = arm 0 K"
  by (rule kernel.equality) (simp_all add: dead_def arm_def)

section \<open>Rotations\<close>

text \<open>It may rotate to the next segment, but does not compact.\<close>

definition op_safe :: "store_op \<Rightarrow> store \<Rightarrow> bool" where
  "op_safe o' s \<longleftrightarrow> (op_rotates o' s \<longrightarrow> Suc (current_segment s) < unat (segment_count s)) \<and>
     appends_only o' (op_start o' s)"

fun run_safe :: "store_op list \<Rightarrow> store \<Rightarrow> bool" where
  "run_safe [] s \<longleftrightarrow> True"
| "run_safe (o' # ops) s \<longleftrightarrow> op_safe o' s \<and> run_safe ops (run_op o' s)"

text \<open>\<open>s'\<close> shows what \<open>s\<close> shows, and so does its disk.\<close>

definition like :: "store \<Rightarrow> store \<Rightarrow> bool" where
  "like s' s \<longleftrightarrow> store_ok s' \<and> stored s' = stored s \<and> logged s' = logged s \<and> base_prefix s' = base_prefix s \<and>
     segment_count s' = segment_count s \<and> policy_ttl_secs s' = policy_ttl_secs s"

lemma like_refl: "store_ok s \<Longrightarrow> like s s"
  by (simp add: like_def)

definition next_segment :: "store \<Rightarrow> store" where
  "next_segment s = (case fs_open (segment_name (base_prefix s) (Suc (current_segment s))) ModeReadAppend (kern s) of
      (None, K) \<Rightarrow> s\<lparr>active_file := None, current_segment := Suc (current_segment s), kern := K\<rparr>
    | (Some f, K) \<Rightarrow> let f = snd (file_seek 0 SeekModeEnd f K)
        in s\<lparr>active_file := Some f, kern := K, current_segment := Suc (current_segment s), current_offset := file_tell f\<rparr>)"

lemma op_start_cases:
  assumes "op_rotates o' s \<longrightarrow> Suc (current_segment s) < unat (segment_count s)" "write_buf s = []"
  shows "op_start o' s = (if op_rotates o' s then next_segment s else s)"
proof (cases o')
  case o: (OpPut clk key data ttl ts pr)
  show ?thesis
  proof (cases "op_rotates o' s")
    case True
    obtain a where a: "close_active s = s\<lparr>active_file := a\<rparr>" using close_active_shape by blast
    obtain b where b: "close_active (s\<lparr>active_file := a, current_segment := Suc (current_segment s)\<rparr>) =
        s\<lparr>active_file := a, current_segment := Suc (current_segment s)\<rparr>\<lparr>active_file := b\<rparr>"
      using close_active_shape by blast
    from True assms have "Suc (current_segment s) < unat (segment_count s)" "flush_buffer s = (True, s)"
      by (simp_all add: flush_buffer_def)
    with True o a b show ?thesis
      by (simp add: rotate_segment_if_needed_def put_rotates_def Let_def open_segment_def next_segment_def
          split: option.split prod.split)
  next
    case False
    with o show ?thesis by (simp add: rotate_segment_if_needed_def put_rotates_def)
  qed
qed simp

lemma next_segment_fields [simp]:
  "fs_valid (next_segment s) = fs_valid s" "write_buf (next_segment s) = write_buf s"
  "index (next_segment s) = index s" "index_file (next_segment s) = index_file s"
  "base_prefix (next_segment s) = base_prefix s" "segment_count (next_segment s) = segment_count s"
  "policy_ttl_secs (next_segment s) = policy_ttl_secs s"
  by (simp_all add: next_segment_def Let_def split: option.split prod.split)

lemma run_op_start:
  assumes "op_safe o' s" "write_buf s = []" "fs_valid s"
  shows "run_op o' s = run_op o' (op_start o' s)"
proof (cases o')
  case o: (OpPut clk key data ttl ts pr)
  have "fs_valid (op_start o' s) = fs_valid s" using op_start_cases [of o' s] assms(1,2) by (simp add: op_safe_def)
  moreover have "rotate_segment_if_needed clk (length data) (op_start o' s) = (True, op_start o' s)"
    using assms(1) by (simp add: op_safe_def appends_only_def op_fits_def has_room_def o rotate_segment_if_needed_def put_rotates_def)
  moreover have "length key \<le> MAX_KEY_LEN" "length data \<le> MAX_VALUE_LEN"
    using assms(1) by (simp_all add: op_safe_def appends_only_def op_fits_def has_room_def o)
  ultimately show ?thesis using assms(3) by (simp add: o store_put_def Let_def)
qed simp

lemma run_op_dead: "kern s = arm 0 K \<Longrightarrow> kern (run_op o' s) = arm 0 K"
  by (cases o') (simp_all add: store_put_dead rotate_dead store_remove_dead)

lemma run_dead:
  assumes "dead (kern s)"
  shows "kern (run_ops ops s) = kern s"
proof -
  have "kern (run_ops ops s) = arm 0 K" if "kern s = arm 0 K" for K
    using that by (induction ops arbitrary: s) (simp_all add: run_op_dead)
  then show ?thesis using dead_arm [OF assms] by metis
qed

lemma run_op_start_dead:
  assumes "op_rotates o' s" "op_start o' s = s1" "dead (kern s1)" "fs_valid s" "\<exists>u. appends_only o' u"
  shows "kern (run_op o' s) = kern s1"
proof (cases o')
  case (OpPut clk key data ttl ts pr)
  with assms dead_arm [OF assms(3)] show ?thesis
    using store_put_dead [of clk data s "kern s1" key ttl ts pr] by (auto simp: appends_only_def op_fits_def has_room_def)
qed (use assms(1) in simp)

text \<open>A good disk.\<close>

lemma next_segment_like:
  assumes ok: "store_ok s" and c: "Suc (current_segment s) < unat (segment_count s)"
  shows "like (next_segment s) s" "same_config s (next_segment s)" "current_offset (next_segment s) = 0"
    "current_segment (next_segment s) = Suc (current_segment s)"
    "dead_since_compact (next_segment s) = dead_since_compact s"
proof -
  let ?q = "segment_name (base_prefix s) (Suc (current_segment s))"
  have s: "disk_ok (kern s) (base_prefix s) (unat (segment_count s)) (index s)" "fs_valid s"
      "2 \<le> unat (segment_count s)" "write_buf s = []" "handle_on (index_file s) (index_name (base_prefix s)) (kern s)"
    using ok by (simp_all add: store_ok_def)
  have "\<forall>i. Suc (current_segment s) < i \<longrightarrow> i < unat (segment_count s) \<longrightarrow> contents (kern s) (segment_name (base_prefix s) i) = None"
    using store_ok_segs_high [OF ok] by simp
  note op = store_ok_opened [OF s(2-4,1) c this s(5)]
  obtain f where f: "fs_open ?q ModeReadAppend (kern s) = (Some f, create_ino ?q (kern s))"
    by (rule fs_open_append [of "kern s" ModeReadAppend ?q]) (use s(1) in \<open>simp_all add: disk_ok_def\<close>)
  obtain a where a: "close_active s = s\<lparr>active_file := a\<rparr>" using close_active_shape by blast
  have eq: "next_segment s = snd (open_segment (Suc (current_segment s)) s)"
    by (simp add: next_segment_def open_segment_def a f Let_def)
  have "contents (kern (next_segment s)) (index_name (base_prefix s)) = contents (kern s) (index_name (base_prefix s))"
    using s(1) c segment_count_less [OF c] f
    by (simp add: next_segment_def Let_def disk_ok_def contents_create)
  then have "logged (next_segment s) = logged s" by (intro ext) (simp add: logged_def)
  then show "like (next_segment s) s" using op(1,2) by (simp add: like_def eq [symmetric])
  have "contents (kern s) ?q = None" using store_ok_segs_high [OF ok _ c] by simp
  then show "same_config s (next_segment s)" "current_offset (next_segment s) = 0"
    "current_segment (next_segment s) = Suc (current_segment s)"
    "dead_since_compact (next_segment s) = dead_since_compact s"
    using op(3,5,6,7) by (simp_all add: eq)
qed

lemma op_start_like:
  assumes "store_ok s" "op_safe o' s"
  shows "like (op_start o' s) s"
proof -
  have "write_buf s = []" using assms(1) by (simp add: store_ok_def)
  with op_start_cases [of o' s] show ?thesis
    using next_segment_like(1) [OF assms(1)] like_refl [OF assms(1)] assms(2) by (simp add: op_safe_def)
qed

lemma run_op_safe:
  assumes "store_ok s" "op_safe o' s"
  shows "store_ok (run_op o' s)" "k = op_key o' \<or> logged s k \<Longrightarrow> logged (run_op o' s) k"
    "base_prefix (run_op o' s) = base_prefix s" "segment_count (run_op o' s) = segment_count s"
    "policy_ttl_secs (run_op o' s) = policy_ttl_secs s"
proof -
  let ?s = "op_start o' s"
  have l: "like ?s s" by (rule op_start_like [OF assms])
  then have ok: "store_ok ?s" by (simp add: like_def)
  have plain: "appends_only o' ?s" using assms(2) by (simp add: op_safe_def)
  have run: "run_op o' s = run_op o' ?s" using assms by (intro run_op_start) (simp_all add: store_ok_def)
  show "store_ok (run_op o' s)" unfolding run by (rule store_ok_append [OF ok plain])
  show "k = op_key o' \<or> logged s k \<Longrightarrow> logged (run_op o' s) k"
    unfolding run using logged_append [OF ok plain] l by (simp add: like_def)
  obtain i j where ij: "writes_to i j ?s" by (rule store_ok_writes_to [OF ok])
  have "healthy (kern ?s)" using ok by (simp add: store_ok_def disk_ok_def)
  then have "twin (run_op o' ?s) (op_memory o' ?s)" by (rule sound.run_op_appends [OF ij _ plain]) blast
  from twin_fields [OF this] l show "base_prefix (run_op o' s) = base_prefix s"
      "segment_count (run_op o' s) = segment_count s" "policy_ttl_secs (run_op o' s) = policy_ttl_secs s"
    unfolding run by (simp_all add: op_memory_def like_def)
qed

lemma run_ops_safe:
  assumes "store_ok s" "run_safe ops s"
  shows "store_ok (run_ops (take m ops) s)"
    "k \<in> op_key ` set (take m ops) \<or> logged s k \<Longrightarrow> logged (run_ops (take m ops) s) k"
    "base_prefix (run_ops (take m ops) s) = base_prefix s" "segment_count (run_ops (take m ops) s) = segment_count s"
    "policy_ttl_secs (run_ops (take m ops) s) = policy_ttl_secs s"
proof -
  have "store_ok (run_ops (take m ops) s) \<and>
      (k \<in> op_key ` set (take m ops) \<or> logged s k \<longrightarrow> logged (run_ops (take m ops) s) k) \<and>
      base_prefix (run_ops (take m ops) s) = base_prefix s \<and> segment_count (run_ops (take m ops) s) = segment_count s \<and>
      policy_ttl_secs (run_ops (take m ops) s) = policy_ttl_secs s"
    using assms
  proof (induction ops arbitrary: s m)
    case (Cons x ops)
    then show ?case using run_op_safe(1,3-5) [of s x] run_op_safe(2) [of s x k] by (cases m) auto
  qed simp
  then show "store_ok (run_ops (take m ops) s)"
    "k \<in> op_key ` set (take m ops) \<or> logged s k \<Longrightarrow> logged (run_ops (take m ops) s) k"
    "base_prefix (run_ops (take m ops) s) = base_prefix s" "segment_count (run_ops (take m ops) s) = segment_count s"
    "policy_ttl_secs (run_ops (take m ops) s) = policy_ttl_secs s" by blast+
qed

section \<open>Rotations on a failing disk\<close>

lemma pf_revive [simp]:
  "pf_new d (revive K) = pf_new d K" "file_seek n m f (revive K) = file_seek n m f K"
  by (simp_all add: pf_new_def sys_size_def file_seek_def pf_seek_def sys_lseek_def revive_def
      split: option.split whence.split)

lemma fs_open_failing:
  assumes "failing K"
  obtains (cut) K' where "fs_open q ModeReadAppend K = (None, K')" "dead K'" "revive K' = revive K"
  | (opened) f i K' where "fs_open q ModeReadAppend K = (Some f, K')"
      "fs_open q ModeReadAppend (revive K) = (Some f, revive K')" "failing K'" "append_handle f i"
proof -
  obtain x K1 where x: "next_fault K = (x, K1)" "failing K1" "revive K1 = revive K" "x \<noteq> None \<Longrightarrow> dead K1"
    by (rule next_fault_failing [OF assms]) blast
  obtain f i where f: "fs_open q ModeReadAppend (revive K) = (Some f, create_ino q (revive K))" "append_handle f i"
    by (rule fs_open_append [of "revive K" ModeReadAppend q]) simp_all
  show thesis
  proof (cases x)
    case None
    have fl: "failing (create_ino q K1)" using x(2) by (simp add: create_ino_def failing_def)
    have rv: "revive (create_ino q K1) = create_ino q (revive K)"
      by (simp add: create_ino_def revive_def x(3) [symmetric, unfolded revive_def])
    have "fs_open q ModeReadAppend K = (Some f, create_ino q K1)"
    proof -
      have "dir K1 = dir K" "inodes K1 = inodes K" "next_ino K1 = next_ino K"
        using x(3) by (metis revive_fields(1-3))+
      then have "fs_open q ModeReadAppend K = (fst (fs_open q ModeReadAppend (revive K)), create_ino q K1)"
        by (auto simp: fs_open_def posix_open_def sys_open_def posix_flags_def x(1) None create_ino_def Let_def
          pf_new_def sys_size_def split: option.splits)
      then show ?thesis using f(1) by simp
    qed
    with f rv fl show thesis by (intro opened [of f "create_ino q K1" i]) simp_all
  next
    case (Some n)
    with x show thesis
      by (intro cut [of K1]) (simp_all add: fs_open_def posix_open_def sys_open_def posix_flags_def)
  qed
qed

lemma next_segment_failing:
  assumes t: "twin t s" "writes_to i j t" "failing (kern t)" "revive (kern t) = kern s" and s: "writes_to i j s"
  obtains (cut) "dead (kern (next_segment t))" "revive (kern (next_segment t)) = kern s"
  | (opened) i' where "writes_to i' j (next_segment s)" "writes_to i' j (next_segment t)"
      "twin (next_segment t) (next_segment s)" "failing (kern (next_segment t))"
      "revive (kern (next_segment t)) = kern (next_segment s)"
proof -
  let ?q = "segment_name (base_prefix s) (Suc (current_segment s))"
  note same = twin_fields [OF t(1)]
  show thesis
  proof (rule fs_open_failing [OF t(3), of ?q])
    fix K assume "fs_open ?q ModeReadAppend (kern t) = (None, K)" "dead K" "revive K = revive (kern t)"
    then show thesis using t(4) by (intro cut) (simp_all add: next_segment_def same)
  next
    fix f i' K assume o: "fs_open ?q ModeReadAppend (kern t) = (Some f, K)"
      "fs_open ?q ModeReadAppend (revive (kern t)) = (Some f, revive K)" "failing K" "append_handle f i'"
    let ?f = "snd (file_seek 0 SeekModeEnd f K)"
    have f: "append_handle ?f i'" by (rule append_handle_seek [OF o(4)])
    have nt: "next_segment t = t\<lparr>active_file := Some ?f, kern := K, current_segment := Suc (current_segment s), current_offset := file_tell ?f\<rparr>"
      using o(1) by (simp add: next_segment_def same Let_def)
    have ns: "next_segment s = s\<lparr>active_file := Some ?f, kern := revive K, current_segment := Suc (current_segment s), current_offset := file_tell ?f\<rparr>"
      using o(2) t(4) by (simp add: next_segment_def Let_def)
    have "twin (next_segment t) (next_segment s)"
      unfolding twin_def by (rule store.equality) (simp_all add: nt ns same)
    then show thesis
      using f t(2) s o(3) by (intro opened [of i']) (simp_all add: nt ns writes_to_def)
  qed
qed

section \<open>Runs\<close>

text \<open>What an operation without a rotation leaves when the power fails in it.\<close>

lemma run_op_cut:
  assumes ok: "store_ok s" "appends_only o' s" and st: "writes_to i j s" "writes_to i j t" "twin t s"
    and K: "failing (kern t)" "revive (kern t) = kern s"
  shows "dead (kern (run_op o' t)) \<and> (\<exists>a b. parse_entries b = [] \<and>
        revive (kern (run_op o' t)) = append_ino j b (append_ino i a (kern s))) \<or>
    writes_to i j (run_op o' s) \<and> writes_to i j (run_op o' t) \<and> twin (run_op o' t) (run_op o' s) \<and>
      failing (kern (run_op o' t)) \<and> revive (kern (run_op o' t)) = kern (run_op o' s)"
proof -
  let ?r = "enc_rec (op_record o')" and ?e = "enc_entry (op_entry o' s)"
  have "healthy (kern s)" using ok(1) by (simp add: store_ok_def disk_ok_def)
  then obtain K1 where r: "writes_to i j (run_op o' t)" "twin (run_op o' t) (run_op o' s)" "writes_to i j (run_op o' s)"
    "written i (kern t) ?r K1" "written j K1 ?e (kern (run_op o' t))"
    "kern (run_op o' s) = append_ino j ?e (append_ino i ?r (kern s))"
    by (rule run_failing_step [OF st(2,3) K(1) st(1) _ ok(2)]) blast
  obtain a where a: "a \<le> length ?r" "revive K1 = append_ino i (take a ?r) (kern s)" "a < length ?r \<longrightarrow> dead K1"
    using r(4) K(2) by (auto simp: written_def)
  obtain b where b: "b \<le> length ?e" "revive (kern (run_op o' t)) = append_ino j (take b ?e) (revive K1)"
      "b < length ?e \<longrightarrow> dead (kern (run_op o' t))"
    using r(5) by (auto simp: written_def)
  show ?thesis
  proof (cases "dead K1")
    case True
    moreover have "kern (run_op o' t) = K1" using written_dead [OF r(5) True] .
    ultimately show ?thesis
      using a(2) by (intro disjI1 conjI exI [of _ "take a ?r"] exI [of _ "[]"]) (simp_all add: parse_entries_Nil)
  next
    case False
    then have full: "take a ?r = ?r" using a(1,3) by auto
    show ?thesis
    proof (cases "b < length ?e")
      case True
      then have "parse_entry (take b ?e) = None"
        using ok(2) by (intro parse_torn_entry) (cases o'; simp add: appends_only_def op_fits_def has_room_def)
      then have "parse_entries (take b ?e) = []" by (simp add: parse_entries.simps)
      then show ?thesis using b True a(2) full by (intro disjI1 conjI exI [of _ ?r] exI [of _ "take b ?e"]) simp_all
    next
      case False
      with b(1,2) a(2) full r show ?thesis by (intro disjI2) (simp add: written_failing [OF r(5)])
    qed
  qed
qed

text \<open>The power fails during an operation, or not at all.\<close>

lemma run_failing:
  assumes "store_ok s" "writes_to i j s" "writes_to i j t" "twin t s" "failing (kern t)" "revive (kern t) = kern s"
    "run_safe ops s"
  shows "\<exists>m s' i a b. m \<le> length ops \<and> like s' (run_ops (take m ops) s) \<and> writes_to i j s' \<and> parse_entries b = [] \<and>
    revive (kern (run_ops ops t)) = append_ino j b (append_ino i a (kern s'))"
  using assms
proof (induction ops arbitrary: s t i)
  case Nil
  then show ?case
    by (intro exI [of _ 0] exI [of _ s] exI [of _ i] exI [of _ "[]"]) (simp add: parse_entries_Nil like_refl)
next
  case (Cons x ops)
  note ok = Cons.prems(1) and same = twin_fields [OF Cons.prems(4)]
  have safe: "op_safe x s" "run_safe ops (run_op x s)" using Cons.prems(7) by simp_all
  have stop: ?case if "like s' s" "writes_to i' j s'" "parse_entries b = []" "dead (kern (run_op x t))"
      "revive (kern (run_op x t)) = append_ino j b (append_ino i' a (kern s'))" for s' i' a b
    using that run_dead [OF that(4), of ops] by (intro exI [of _ 0] exI [of _ s'] exI [of _ i']) auto
  have go: ?case if st: "like s1 s" "run_op x s = run_op x s1" "run_op x t = run_op x t1" "appends_only x s1"
      "writes_to i' j s1" "writes_to i' j t1" "twin t1 s1" "failing (kern t1)" "revive (kern t1) = kern s1" for s1 t1 i'
  proof -
    have ok1: "store_ok s1" using st(1) by (simp add: like_def)
    consider (cut) a b where "dead (kern (run_op x t1))" "parse_entries b = []"
        "revive (kern (run_op x t1)) = append_ino j b (append_ino i' a (kern s1))"
      | (on) "writes_to i' j (run_op x s1)" "writes_to i' j (run_op x t1)" "twin (run_op x t1) (run_op x s1)"
        "failing (kern (run_op x t1))" "revive (kern (run_op x t1)) = kern (run_op x s1)"
      using run_op_cut [OF ok1 st(4-9)] by blast
    then show ?case
    proof cases
      case (cut a b)
      then show ?thesis by (intro stop [OF st(1,5)]) (simp_all add: st(3))
    next
      case on
      have "\<exists>m s' i a b. m \<le> length ops \<and> like s' (run_ops (take m ops) (run_op x s)) \<and> writes_to i j s' \<and>
          parse_entries b = [] \<and> revive (kern (run_ops ops (run_op x t))) = append_ino j b (append_ino i a (kern s'))"
        using on safe(2) by (intro Cons.IH [OF run_op_safe(1) [OF ok safe(1)], of i']) (simp_all add: st(2,3))
      then obtain m s' i a b where "m \<le> length ops" "like s' (run_ops (take m ops) (run_op x s))" "writes_to i j s'"
          "parse_entries b = []" "revive (kern (run_ops ops (run_op x t))) = append_ino j b (append_ino i a (kern s'))"
        by blast
      then show ?thesis by (intro exI [of _ "Suc m"] exI [of _ s'] exI [of _ i] exI [of _ a] exI [of _ b]) simp
    qed
  qed
  have wb: "write_buf s = []" "write_buf t = []" "fs_valid s" "fs_valid t"
    using Cons.prems(2,3) by (simp_all add: writes_to_def)
  have next_free: "op_rotates x s \<longrightarrow> Suc (current_segment s) < unat (segment_count s)"
    using safe(1) by (simp add: op_safe_def)
  note start = op_start_cases [OF next_free wb(1)] run_op_start [OF safe(1) wb(1,3)]
  have plain: "appends_only x (op_start x s)" using safe(1) by (simp add: op_safe_def)
  show ?case
  proof (cases "op_rotates x s")
    case False
    show ?thesis
      by (rule go [OF like_refl [OF ok] refl refl _ Cons.prems(2-6)]) (use False plain start(1) in simp)
  next
    case True
    then have s1: "op_start x s = next_segment s" using start(1) by simp
    have like1: "like (next_segment s) s" using op_start_like [OF ok safe(1)] s1 by simp
    from run_op_start [OF safe(1) wb(1,3)] s1 have runs: "run_op x s = run_op x (next_segment s)" by simp
    have rot: "op_rotates x t" using True by (cases x) (simp_all add: put_rotates_def same)
    then have startt: "op_start x t = next_segment t"
      using op_start_cases [of x t] next_free True wb(2) by (simp add: same)
    show ?thesis
    proof (rule next_segment_failing [OF Cons.prems(4,3,5,6,2)])
      assume d: "dead (kern (next_segment t))" "revive (kern (next_segment t)) = kern s"
      have "kern (run_op x t) = kern (next_segment t)"
        by (rule run_op_start_dead [OF rot startt d(1) wb(4)]) (use plain in blast)
      then show ?thesis using d
        by (intro stop [where a = "[]", OF like_refl [OF ok] Cons.prems(2) parse_entries_Nil]) simp_all
    next
      fix i' assume o: "writes_to i' j (next_segment s)" "writes_to i' j (next_segment t)"
        "twin (next_segment t) (next_segment s)" "failing (kern (next_segment t))"
        "revive (kern (next_segment t)) = kern (next_segment s)"
      have "op_safe x t"
        using twin_op(2) [OF o(3), of x] plain s1 startt next_free True by (simp add: op_safe_def same)
      from run_op_start [OF this wb(2,4)] startt have "run_op x t = run_op x (next_segment t)" by simp
      then show ?thesis by (rule go [OF like1 runs _ _ o]) (use plain s1 in simp)
    qed
  qed
qed

text \<open>C3: Prefix consistency: the power fails at any point of a sequence of \<open>put\<close>s and \<open>remove\<close>s that may rotate
  to the next segment but do not compact, between two calls or in the middle of a \<open>write\<close>. The next \<open>init\<close> succeeds, and \<open>get\<close> returns
  what it shows. There is a prefix of the operations such that it shows every record as that prefix left
  it, and no key that the prefix removed.\<close>

theorem power_failure_keeps_prefix:
  assumes ok: "store_ok s" and run: "run_safe ops s" and K0: "failing K0" "revive K0 = kern s"
    and t: "cold t" "policy_ttl_secs t = policy_ttl_secs s"
  shows "let K = revive (kern (run_ops ops (s\<lparr>kern := K0\<rparr>)));
      r = store_init (base_prefix s) False seg_size (segment_count s) (t\<lparr>kern := K\<rparr>)
    in fst r \<and> get_agrees clk (snd r) \<and>
      (\<exists>m \<le> length ops. \<forall>k. k \<in> op_key ` set (take m ops) \<or> stored (run_ops (take m ops) s) k \<noteq> None \<longrightarrow>
         visible clk (snd r) k = visible clk (run_ops (take m ops) s) k)"
proof -
  obtain i j where ij: "writes_to i j s" by (rule store_ok_writes_to [OF ok])
  then have ij0: "writes_to i j (s\<lparr>kern := K0\<rparr>)" by (simp add: writes_to_def)
  obtain m s' i a b where m: "m \<le> length ops" "like s' (run_ops (take m ops) s)" "writes_to i j s'" "parse_entries b = []"
      "revive (kern (run_ops ops (s\<lparr>kern := K0\<rparr>))) = append_ino j b (append_ino i a (kern s'))"
    using run_failing [OF ok ij ij0 _ _ _ run] K0 by auto
  let ?s = "run_ops (take m ops) s" and ?t = "t\<lparr>kern := revive (kern (run_ops ops (s\<lparr>kern := K0\<rparr>)))\<rparr>"
  note prefix = run_ops_safe [OF ok run]
  have s': "store_ok s'" "stored s' = stored ?s" "logged s' = logged ?s" "base_prefix s' = base_prefix s"
      "segment_count s' = segment_count s" "policy_ttl_secs s' = policy_ttl_secs s"
    using m(2) prefix(3-5) [of m] by (simp_all add: like_def)
  have t': "cold ?t" "policy_ttl_secs ?t = policy_ttl_secs s'" using t s'(6) by (simp_all add: cold_def)
  have K: "kern ?t = append_ino j b (append_ino i a (kern s'))" using m(5) by simp
  obtain w where w: "store_init (base_prefix s') False seg_size (segment_count s') ?t = (True, w)"
    "get_agrees clk w" "policy_ttl_secs w = policy_ttl_secs s'" "\<And>k. logged s' k \<Longrightarrow> stored w k = stored s' k"
    by (rule boot_after [OF s'(1) m(3) t' K m(4)]) blast
  have "visible clk w k = visible clk ?s k" if "k \<in> op_key ` set (take m ops) \<or> stored ?s k \<noteq> None" for k
  proof -
    have "logged s' k"
      unfolding s'(3) using that prefix(2) [of k m] logged_stored [OF prefix(1)] by blast
    from w(4) [OF this] show ?thesis unfolding visible_def w(3) s'(2,6) prefix(5) by simp
  qed
  with w(1,2) m(1) s'(4,5) show ?thesis by (auto simp: Let_def)
qed

section \<open>An example\<close>

lemma run_op_memory:
  assumes "store_ok s" "appends_only o' s"
  shows "index (run_op o' s) = op_index o' s" "dead_since_compact (run_op o' s) = op_dead o' s"
    "current_offset (run_op o' s) = current_offset s + length (enc_rec (op_record o'))"
    "segment_size (run_op o' s) = segment_size s" "policy_max_recs (run_op o' s) = policy_max_recs s"
    "segment_count (run_op o' s) = segment_count s" "current_segment (run_op o' s) = current_segment s"
proof -
  obtain i j where ij: "writes_to i j s" by (rule store_ok_writes_to [OF assms(1)])
  have "healthy (kern s)" using assms(1) by (simp add: store_ok_def disk_ok_def)
  then have "twin (run_op o' s) (op_memory o' s)" by (rule sound.run_op_appends [OF ij _ assms(2)]) blast
  from twin_fields [OF this] show "index (run_op o' s) = op_index o' s" "dead_since_compact (run_op o' s) = op_dead o' s"
    "current_offset (run_op o' s) = current_offset s + length (enc_rec (op_record o'))"
    "segment_size (run_op o' s) = segment_size s" "policy_max_recs (run_op o' s) = policy_max_recs s"
    "segment_count (run_op o' s) = segment_count s" "current_segment (run_op o' s) = current_segment s"
    by (simp_all add: op_memory_def)
qed

text \<open>Segments of 64 bytes: every second record of 27 bytes goes to a new segment.\<close>

definition demo_state :: "bytes list \<Rightarrow> nat \<Rightarrow> nat \<Rightarrow> store \<Rightarrow> bool" where
  "demo_state ks seg off s \<longleftrightarrow> store_ok s \<and> map fst (index s) = ks \<and> current_segment s = seg \<and> current_offset s = off \<and>
     dead_since_compact s = 0 \<and> segment_size s = 64 \<and> segment_count s = 8 \<and> policy_max_recs s = 0"

definition demo_put :: "u8 \<Rightarrow> store_op" where
  "demo_put x = OpPut demo_clock [x] [x] 0 100 0"

lemma demo_append:
  assumes s: "demo_state ks seg off s" and k: "[x] \<notin> set ks" "length ks < 10" "off < 38"
  shows "appends_only (demo_put x) s" "demo_state (ks @ [[x]]) seg (off + 27) (run_op (demo_put x) s)"
proof -
  have len: "length (index s) = length ks" using s by (auto simp: demo_state_def)
  have new: "map_of (index s) [x] = None"
    using s k(1) unfolding demo_state_def map_of_eq_None_iff by (metis list.set_map)
  have "\<not> compaction_due n 0" for n by (simp add: compaction_due_def COMPACT_THRESHOLD_def)
  then show plain: "appends_only (demo_put x) s"
    using s k new len by (simp add: appends_only_def op_fits_def has_room_def demo_put_def demo_state_def put_rotates_def op_dead_def
      MAX_KEY_LEN_def MAX_VALUE_LEN_def max_keys_def HEADER_SIZE_def COMMIT_SIZE_def)
  have ok: "store_ok s" using s by (simp add: demo_state_def)
  have key: "map fst (op_index (demo_put x) s) = ks @ [[x]]"
    using s k(1) by (simp add: demo_put_def demo_state_def update_keys)
  have size: "length (enc_rec (op_record (demo_put x))) = 27"
    by (simp add: demo_put_def enc_rec_def HEADER_SIZE_def COMMIT_SIZE_def)
  show "demo_state (ks @ [[x]]) seg (off + 27) (run_op (demo_put x) s)"
    using s store_ok_append [OF ok plain] run_op_memory [OF ok plain] new key size
    by (simp add: demo_state_def op_dead_def demo_put_def)
qed

lemma demo_visible:
  assumes s: "demo_state ks seg off s" and k: "length ks < 10" "off < 1000"
  shows "visible demo_clock (run_op (demo_put x) s) = (visible demo_clock s)([x] \<mapsto> ([x], 100, 0, 0))"
proof -
  have "store_ok s" "length (index s) < max_keys" "policy_max_recs s = 0" "current_offset s < 2 ^ 24"
    using s k by (auto simp: demo_state_def max_keys_def)
  moreover have "\<not> expired demo_clock (policy_ttl_secs s) (put_payload [x] 100 0 0)"
    using put_payload_not_expired [of demo_clock "policy_ttl_secs s" "[x]" 0 0] by (simp add: demo_clock_def)
  ultimately show ?thesis
    using store_put_ok [of s "[x]" "[x]" demo_clock 0 100 0]
    by (simp add: demo_put_def put_visible_def MAX_KEY_LEN_def MAX_VALUE_LEN_def put_payload_def)
qed

lemma demo_put:
  assumes s: "demo_state ks seg off s" and k: "[x] \<notin> set ks" "length ks < 10" "off < 1000" "seg < 7"
  shows "op_safe (demo_put x) s"
    "demo_state (ks @ [[x]]) (if off < 38 then seg else Suc seg) (if off < 38 then off + 27 else 27) (run_op (demo_put x) s)"
proof -
  have good: "store_ok s" using s by (simp add: demo_state_def)
  have ok: "store_ok s" "write_buf s = []" "fs_valid s" using good unfolding store_ok_def by blast+
  have rot: "op_rotates (demo_put x) s \<longleftrightarrow> \<not> off < 38"
    using s by (auto simp: demo_put_def demo_state_def put_rotates_def HEADER_SIZE_def COMMIT_SIZE_def)
  have c: "Suc (current_segment s) < unat (segment_count s)" using s k(4) by (simp add: demo_state_def)
  let ?s = "op_start (demo_put x) s"
  have start: "?s = (if off < 38 then s else next_segment s)"
    using op_start_cases [of "demo_put x" s] c ok(2) rot by simp
  have "demo_state ks (Suc seg) 0 (next_segment s)"
    using next_segment_like [OF ok(1) c] s by (simp add: demo_state_def like_def same_config_def)
  then have st: "demo_state ks (if off < 38 then seg else Suc seg) (if off < 38 then off else 0) ?s"
    using s start by simp
  have "(if off < 38 then off else 0) < (38 :: nat)" by simp
  note plain = demo_append [OF st k(1,2) this]
  show safe: "op_safe (demo_put x) s" using plain(1) c by (simp add: op_safe_def)
  show "demo_state (ks @ [[x]]) (if off < 38 then seg else Suc seg) (if off < 38 then off + 27 else 27) (run_op (demo_put x) s)"
    using plain(2) run_op_start [OF safe ok(2,3)] by (simp split: if_splits)
qed

definition demo_run :: "store_op list" where
  "demo_run = [demo_put 2, demo_put 3, demo_put 4, demo_put 5, OpRemove demo_clock 7 7 [1]]"

definition small_store :: store where
  "small_store = run_op (demo_put 1) (snd (store_init ''store_'' False 64 8 (new_store 64 8 empty_kernel)))"

definition demo_after :: "nat \<Rightarrow> store" where
  "demo_after n = run_ops (take n demo_run) small_store"

lemma small_store:
  "demo_state [[1]] 0 27 small_store" "visible demo_clock small_store = [[1] \<mapsto> ([1], 100, 0, 0)]"
  "base_prefix small_store = ''store_''" "segment_count small_store = 8" "policy_ttl_secs small_store = 0"
proof -
  let ?s = "snd (store_init ''store_'' False 64 8 (new_store 64 8 empty_kernel))"
  have init: "store_ok ?s" "visible demo_clock ?s = Map.empty" "index ?s = []" "current_offset ?s = 0"
    "dead_since_compact ?s = 0" "segment_size ?s = 64" "segment_count ?s = 8" "policy_max_recs ?s = 0"
    "base_prefix ?s = ''store_''" "policy_ttl_secs ?s = 0" "current_segment ?s = 0"
    using init_empty_ok [of empty_kernel "''store_''" 8 64 64 8 demo_clock] by (simp_all add: prefix_ok_def)
  have st: "demo_state [] 0 0 ?s" using init by (simp add: demo_state_def)
  show "demo_state [[1]] 0 27 small_store" using demo_put(2) [OF st, of 1] by (simp add: small_store_def)
  show "visible demo_clock small_store = [[1] \<mapsto> ([1], 100, 0, 0)]"
    using demo_visible [OF st, of 1] init(2) by (simp add: small_store_def)
  have "op_safe (demo_put 1) ?s" using demo_put(1) [OF st, of 1] by simp
  from run_op_safe(3-5) [OF init(1) this] init(7,9,10)
  show "base_prefix small_store = ''store_''" "segment_count small_store = 8" "policy_ttl_secs small_store = 0"
    by (simp_all add: small_store_def)
qed

lemma demo_after_step:
  "demo_after (Suc 0) = run_op (demo_put 2) (demo_after 0)" "demo_after 2 = run_op (demo_put 3) (demo_after (Suc 0))"
  "demo_after 3 = run_op (demo_put 4) (demo_after 2)" "demo_after 4 = run_op (demo_put 5) (demo_after 3)"
  "demo_after 5 = run_op (OpRemove demo_clock 7 7 [1]) (demo_after 4)" "demo_after 0 = small_store"
  by (simp_all add: demo_after_def demo_run_def numeral_eq_Suc)

lemma demo_after_state:
  "demo_state [[1]] 0 27 (demo_after 0)" "demo_state [[1], [2]] 0 54 (demo_after (Suc 0))"
  "demo_state [[1], [2], [3]] 1 27 (demo_after 2)" "demo_state [[1], [2], [3], [4]] 1 54 (demo_after 3)"
  "demo_state [[1], [2], [3], [4], [5]] (Suc (Suc 0)) 27 (demo_after 4)"
proof -
  show 0: "demo_state [[1]] 0 27 (demo_after 0)" using small_store(1) by (simp add: demo_after_step)
  show 1: "demo_state [[1], [2]] 0 54 (demo_after (Suc 0))" using demo_put(2) [OF 0, of 2] by (simp add: demo_after_step(1))
  show 2: "demo_state [[1], [2], [3]] 1 27 (demo_after 2)" using demo_put(2) [OF 1, of 3] by (simp add: demo_after_step(2))
  show 3: "demo_state [[1], [2], [3], [4]] 1 54 (demo_after 3)" using demo_put(2) [OF 2, of 4] by (simp add: demo_after_step(3))
  show "demo_state [[1], [2], [3], [4], [5]] (Suc (Suc 0)) 27 (demo_after 4)"
    using demo_put(2) [OF 3, of 5] by (simp add: demo_after_step(4))
qed

lemma demo_after_shows:
  "n \<le> 4 \<Longrightarrow> visible demo_clock (demo_after n) [1] = Some ([1], 100, 0, 0)"
  "visible demo_clock (demo_after 5) [1] = None" "visible demo_clock (demo_after 5) [5] = Some ([5], 100, 0, 0)"
  "op_safe (OpRemove demo_clock 7 7 [1]) (demo_after 4)"
proof -
  note st = demo_after_state
  have vis: "visible demo_clock (demo_after (Suc 0)) = (visible demo_clock (demo_after 0))([2] \<mapsto> ([2], 100, 0, 0))"
    "visible demo_clock (demo_after 2) = (visible demo_clock (demo_after (Suc 0)))([3] \<mapsto> ([3], 100, 0, 0))"
    "visible demo_clock (demo_after 3) = (visible demo_clock (demo_after 2))([4] \<mapsto> ([4], 100, 0, 0))"
    "visible demo_clock (demo_after 4) = (visible demo_clock (demo_after 3))([5] \<mapsto> ([5], 100, 0, 0))"
    using demo_visible [OF st(1), of 2] demo_visible [OF st(2), of 3] demo_visible [OF st(3), of 4]
      demo_visible [OF st(4), of 5] by (simp_all add: demo_after_step(1-4))
  have "visible demo_clock (demo_after m) [1] = Some ([1], 100, 0, 0)" if "m \<in> {0, Suc 0, 2, 3, 4}" for m
    using that by (auto simp: vis demo_after_step(6) small_store(2))
  then show "n \<le> 4 \<Longrightarrow> visible demo_clock (demo_after n) [1] = Some ([1], 100, 0, 0)"
    by (simp add: numeral_eq_Suc le_Suc_eq)
  have ok: "store_ok (demo_after 4)" "policy_max_recs (demo_after 4) = 0" using st(5) by (simp_all add: demo_state_def)
  have ix: "map fst (index (demo_after 4)) = [[1], [2], [3], [4], [5]]" using st(5) by (simp add: demo_state_def)
  from arg_cong [OF ix, of length] have len: "length (index (demo_after 4)) = 5" by simp
  have "visible demo_clock (demo_after 5) = (visible demo_clock (demo_after 4))([1] := None)"
    using store_remove_ok [OF ok(1), of "[1]" demo_clock 7 7] ok(2) len
    by (simp add: demo_after_step(5) MAX_KEY_LEN_def max_keys_def)
  then show "visible demo_clock (demo_after 5) [1] = None"
    "visible demo_clock (demo_after 5) [5] = Some ([5], 100, 0, 0)" by (simp_all add: vis(4))
  have "map fst (AList.delete [1] (index (demo_after 4))) = [[2], [3], [4], [5]]" by (simp add: delete_keys ix)
  from arg_cong [OF this, of length] have del: "length (AList.delete [1] (index (demo_after 4))) = 4" by simp
  have "[1] \<in> fst ` set (index (demo_after 4))" using ix by (metis list.set_intros(1) list.set_map)
  then have "map_of (index (demo_after 4)) [1] \<noteq> None" by (simp add: map_of_eq_None_iff)
  then show "op_safe (OpRemove demo_clock 7 7 [1]) (demo_after 4)"
    using st(5) len del
    by (simp add: op_safe_def appends_only_def op_fits_def has_room_def demo_state_def op_dead_def compaction_due_def COMPACT_THRESHOLD_def
      MAX_KEY_LEN_def MAX_VALUE_LEN_def max_keys_def)
qed

lemma demo_run_safe: "run_safe demo_run small_store"
proof -
  note st = demo_after_state
  have safe: "op_safe (demo_put 2) (demo_after 0)" "op_safe (demo_put 3) (demo_after (Suc 0))"
    "op_safe (demo_put 4) (demo_after 2)" "op_safe (demo_put 5) (demo_after 3)"
    using demo_put(1) [OF st(1), of 2] demo_put(1) [OF st(2), of 3] demo_put(1) [OF st(3), of 4]
      demo_put(1) [OF st(4), of 5] by simp_all
  have "run_safe demo_run (demo_after 0)"
    unfolding demo_run_def run_safe.simps demo_after_step(1) [symmetric] demo_after_step(2) [symmetric]
      demo_after_step(3) [symmetric] demo_after_step(4) [symmetric]
    using safe demo_after_shows(4) by blast
  then show ?thesis by (simp add: demo_after_step(6))
qed

text \<open>Four \<open>put\<close>s, of which the second and the fourth rotate, and the \<open>remove\<close> of the first record: it is gone only
  when all four are there.\<close>

theorem power_failure_keeps_prefix_witness:
  "let K = revive (kern (run_ops demo_run
        (small_store\<lparr>kern := (kern small_store)\<lparr>faults := replicate 7 None @ [Some 5], halted := True\<rparr>\<rparr>)));
      w = snd (store_init ''store_'' False 64 8 (new_store 0 0 K));
      old = fst (store_get demo_clock [1] True 10 w); new = fst (store_get demo_clock [5] True 10 w)
    in old = Some ([1], 1) \<or> old = None \<and> new = Some ([5], 1)"
proof -
  let ?K = "(kern small_store)\<lparr>faults := replicate 7 None @ [Some 5], halted := True\<rparr>"
  have ok: "store_ok small_store" using small_store(1) by (simp add: demo_state_def)
  have "healthy (kern small_store)" by (rule store_ok_active [OF ok])
  then have K: "revive ?K = kern small_store" by (intro kernel.equality) (simp_all add: revive_def healthy_def)
  have rem: "[1] \<in> op_key ` set (take 5 demo_run)" by (simp add: demo_run_def)
  have "failing ?K" unfolding failing_def by (simp, blast)
  have ttl: "policy_ttl_secs (new_store 0 0 empty_kernel) = policy_ttl_secs small_store"
    by (simp add: new_store_def small_store(5))
  note r = power_failure_keeps_prefix [OF ok demo_run_safe \<open>failing ?K\<close> K cold_new ttl,
      of 64 demo_clock, unfolded Let_def small_store(3,4) new_store_kern]
  define w where "w = snd (store_init ''store_'' False 64 8
      (new_store 0 0 (revive (kern (run_ops demo_run (small_store\<lparr>kern := ?K\<rparr>))))))"
  have agrees: "get_agrees demo_clock w" using r by (simp only: w_def)
  have len: "length demo_run = 5" by (simp add: demo_run_def)
  obtain m where m: "m \<le> 5" "\<And>k. k \<in> op_key ` set (take m demo_run) \<or> stored (demo_after m) k \<noteq> None \<Longrightarrow>
      visible demo_clock w k = visible demo_clock (demo_after m) k"
    using r [THEN conjunct2, THEN conjunct2, folded w_def demo_after_def] unfolding len by (elim exE conjE) blast
  have seen: "visible demo_clock w k = Some pl" if "visible demo_clock (demo_after m) k = Some pl" for k pl
    using m(2) [of k] that by (auto simp: visible_def split: option.splits)
  have get: "fst (store_get demo_clock k True 10 w) = (case visible demo_clock w k of None \<Rightarrow> None
       | Some (v, ts, ttl, pr) \<Rightarrow> Some (take (unat (10 :: u16)) v, of_nat (length v)))" if "length k = 1" for k
    using agrees that unfolding get_agrees_def by (simp add: MAX_KEY_LEN_def)
  show ?thesis
  proof (cases "m \<le> 4")
    case True
    then have "visible demo_clock w [1] = Some ([1], 100, 0, 0)" by (rule seen [OF demo_after_shows(1)])
    then show ?thesis by (simp add: get w_def [symmetric] Let_def)
  next
    case False
    with m(1) have "m = 5" by simp
    then have "visible demo_clock w [1] = None" "visible demo_clock w [5] = Some ([5], 100, 0, 0)"
      using m(2) [of "[1]"] demo_after_shows(2) rem seen [of "[5]", unfolded \<open>m = 5\<close>, OF demo_after_shows(3)] by simp_all
    then show ?thesis by (simp add: get w_def [symmetric] Let_def)
  qed
qed

end
