(* ===== verification/DiskView.thy ===== *)
theory DiskView
  imports RunCrash
begin

text \<open>
  What a store would show if it were started again on its disk (\<open>disk_stored\<close>), and how \<open>put\<close>, \<open>remove\<close>,
  \<open>get\<close>, \<open>exists\<close>, rotations, compactions and \<open>init\<close> change this view and the one in memory: both change
  alike, up to records that have expired (\<open>fades\<close>).
\<close>

section \<open>The view of the disk\<close>

definition disk_index :: "kernel \<Rightarrow> string \<Rightarrow> index_map" where
  "disk_index K p = (case contents K (index_name p) of None \<Rightarrow> [] | Some bs \<Rightarrow> replay (parse_entries bs))"

definition disk_stored :: "store \<Rightarrow> bytes \<Rightarrow> payload option" where
  "disk_stored s k = (case map_of (disk_index (kern s) (base_prefix s)) k of None \<Rightarrow> None
     | Some iv \<Rightarrow> map_option payload_of (entry_record (kern s) (base_prefix s) iv))"

lemma disk_index_entries:
  assumes "contents K (index_name p) = Some (enc_entries es)" "\<forall>e \<in> set es. length (fst e) \<le> MAX_KEY_LEN"
  shows "disk_index K p = replay es"
  using parse_enc_entries [OF assms(2), of "[]"] by (simp add: disk_index_def assms(1) parse_entries_Nil)

lemma disk_ok_index:
  assumes "disk_ok K p n m" "map_of (disk_index K p) k = Some iv"
  shows "entry_ok K p n k iv"
proof -
  obtain es where es: "contents K (index_name p) = Some (enc_entries es)" "\<forall>e \<in> set es. length (fst e) \<le> MAX_KEY_LEN"
    "\<forall>k iv. map_of (replay es) k = Some iv \<longrightarrow> entry_ok K p n k iv"
    using assms(1) by (auto simp: disk_ok_def)
  from disk_index_entries [OF es(1,2)] es(3) assms(2) show ?thesis by simp
qed

lemma store_ok_disk_index:
  assumes "store_ok s" "map_of (disk_index (kern s) (base_prefix s)) k = Some iv"
  shows "entry_ok (kern s) (base_prefix s) (unat (segment_count s)) k iv"
  using assms by (intro disk_ok_index) (auto simp: store_ok_def)

lemma logged_iff:
  assumes "store_ok s"
  shows "logged s k \<longleftrightarrow> map_of (disk_index (kern s) (base_prefix s)) k = map_of (index s) k"
proof -
  obtain es where es: "contents (kern s) (index_name (base_prefix s)) = Some (enc_entries es)"
      "\<forall>e \<in> set es. length (fst e) \<le> MAX_KEY_LEN"
    using assms by (auto simp: store_ok_def disk_ok_def)
  show ?thesis
    using loggedD [OF _ es] es unfolding disk_index_entries [OF es] by (auto simp: logged_def)
qed

lemma disk_stored_logged: "store_ok s \<Longrightarrow> logged s k \<Longrightarrow> disk_stored s k = stored s k"
  by (simp add: logged_iff disk_stored_def stored_def)

text \<open>Appending to the segments leaves the view alone.\<close>

lemma disk_stored_mono:
  assumes "store_ok s" "base_prefix s' = base_prefix s" "disk_index (kern s') (base_prefix s) = disk_index (kern s) (base_prefix s)"
    "\<And>i bs. i < unat (segment_count s) \<Longrightarrow> contents (kern s) (segment_name (base_prefix s) i) = Some bs \<Longrightarrow>
       \<exists>xs. contents (kern s') (segment_name (base_prefix s) i) = Some (bs @ xs)"
  shows "disk_stored s' = disk_stored s"
proof
  fix k show "disk_stored s' k = disk_stored s k"
  proof (cases "map_of (disk_index (kern s) (base_prefix s)) k")
    case (Some iv)
    from entry_ok_mono(2) [OF store_ok_disk_index [OF assms(1) Some] assms(4)] Some assms(2,3) show ?thesis
      by (simp add: disk_stored_def)
  qed (simp add: disk_stored_def assms(2,3))
qed

section \<open>Fading\<close>

text \<open>\<open>f'\<close> is \<open>f\<close> without some of the records that have expired.\<close>

definition fades :: "clock \<Rightarrow> u32 \<Rightarrow> (bytes \<Rightarrow> payload option) \<Rightarrow> (bytes \<Rightarrow> payload option) \<Rightarrow> bool" where
  "fades clk p f f' \<longleftrightarrow> (\<forall>k. f' k = f k \<or> f' k = None \<and> (\<exists>pl. f k = Some pl \<and> expired clk p pl))"

lemma fades_refl [simp]: "fades clk p f f"
  by (simp add: fades_def)

lemma fades_trans: "fades clk p f g \<Longrightarrow> fades clk p g h \<Longrightarrow> fades clk p f h"
  unfolding fades_def by metis

lemma fades_upd: "fades clk p f f' \<Longrightarrow> fades clk p (f(k := x)) (f'(k := x))"
  by (simp add: fades_def)

lemma expired_later:
  assumes "clk_time clk \<le> clk_time clk'" "expired clk p pl"
  shows "expired clk' p pl"
  using assms by (auto simp: expired_def Let_def word_le_nat_alt split: prod.splits)

lemma fades_later: "clk_time clk \<le> clk_time clk' \<Longrightarrow> fades clk p f f' \<Longrightarrow> fades clk' p f f'"
  unfolding fades_def by (metis expired_later)

text \<open>What is shown of a map at a time.\<close>

definition shown :: "clock \<Rightarrow> u32 \<Rightarrow> (bytes \<Rightarrow> payload option) \<Rightarrow> bytes \<Rightarrow> payload option" where
  "shown clk p f k = (case f k of None \<Rightarrow> None | Some pl \<Rightarrow> if expired clk p pl then None else Some pl)"

lemma visible_shown: "visible clk s = shown clk (policy_ttl_secs s) (stored s)"
  by (rule ext) (simp add: visible_def shown_def)

lemma fades_shown: "fades clk p f (shown clk p f)"
  by (auto simp: fades_def shown_def split: option.split)

lemma shown_fades:
  assumes "fades clk p f f'"
  shows "shown clk p f' = shown clk p f"
proof
  fix k
  from assms consider "f' k = f k" | pl where "f' k = None" "f k = Some pl" "expired clk p pl"
    unfolding fades_def by blast
  then show "shown clk p f' k = shown clk p f k" by cases (simp_all add: shown_def)
qed

section \<open>How the views change\<close>

text \<open>Both views of \<open>s'\<close> come from a view of \<open>s\<close> by \<open>u\<close>, up to what has expired.\<close>

definition follows :: "clock \<Rightarrow> ((bytes \<Rightarrow> payload option) \<Rightarrow> bytes \<Rightarrow> payload option) \<Rightarrow> store \<Rightarrow> store \<Rightarrow> bool" where
  "follows clk u s s' \<longleftrightarrow> store_ok s' \<and> same_config s s' \<and>
     (\<forall>f' \<in> {stored s', disk_stored s'}. \<exists>f \<in> {stored s, disk_stored s}. fades clk (policy_ttl_secs s) (u f) f')"

lemma follows_refl: "store_ok s \<Longrightarrow> follows clk id s s"
  by (simp add: follows_def)

lemma follows_trans:
  assumes "follows clk u s s1" "follows clk v s1 s2" "\<And>p f f'. fades clk p f f' \<Longrightarrow> fades clk p (v f) (v f')"
  shows "follows clk (v \<circ> u) s s2"
  unfolding follows_def
proof (intro conjI ballI)
  show "store_ok s2" "same_config s s2"
    using assms(1,2) same_config_trans [of s s1 s2] by (simp_all add: follows_def)
  fix f2 assume "f2 \<in> {stored s2, disk_stored s2}"
  then obtain f1 where f1: "f1 \<in> {stored s1, disk_stored s1}" "fades clk (policy_ttl_secs s1) (v f1) f2"
    using assms(2) unfolding follows_def by blast
  then obtain f where f: "f \<in> {stored s, disk_stored s}" "fades clk (policy_ttl_secs s) (u f) f1"
    using assms(1) unfolding follows_def by blast
  have "policy_ttl_secs s1 = policy_ttl_secs s" using assms(1) by (simp add: follows_def same_config_def)
  then have "fades clk (policy_ttl_secs s) (v (u f)) f2"
    using fades_trans [OF assms(3) [OF f(2)]] f1(2) by simp
  with f(1) show "\<exists>f \<in> {stored s, disk_stored s}. fades clk (policy_ttl_secs s) ((v \<circ> u) f) f2"
    by (intro bexI [of _ f]) simp_all
qed

lemma followsI:
  assumes "store_ok s'" "same_config s s'" "fades clk (policy_ttl_secs s) (u (stored s)) (stored s')"
    "fades clk (policy_ttl_secs s) (u (disk_stored s)) (disk_stored s')"
  shows "follows clk u s s'"
  using assms by (auto simp: follows_def)

text \<open>Opening a segment.\<close>

lemma open_segment_views:
  assumes ok: "store_ok s" and t: "same_data s t" and c: "c < unat (segment_count s)"
  shows "stored (snd (open_segment c t)) = stored s" "disk_stored (snd (open_segment c t)) = disk_stored s"
proof -
  let ?p = "base_prefix s" and ?t = "snd (open_segment c t)"
  have wf: "healthy (kern s)" "kernel_wf (kern s)" "prefix_ok ?p" using ok by (simp_all add: store_ok_def disk_ok_def)
  have e: "base_prefix t = ?p" "kern t = kern s" "index t = index s" using t by (simp_all add: same_data_def same_config_def)
  have sh: "index ?t = index s \<and> base_prefix ?t = ?p \<and> kern ?t = create_ino (segment_name ?p c) (kern s)"
    by (rule open_segment_shape [of t c]) (use wf e in simp_all)
  have grow: "\<exists>xs. contents (kern ?t) (segment_name ?p i) = Some (bs @ xs)"
    if "contents (kern s) (segment_name ?p i) = Some bs" for i bs
    using that sh by (cases "contents (kern s) (segment_name ?p c)"; cases "segment_name ?p i = segment_name ?p c")
      (auto simp: contents_create [OF wf(2)])
  have "contents (kern ?t) (index_name ?p) = contents (kern s) (index_name ?p)"
    using sh wf(3) segment_count_less [OF c] by (simp add: contents_create [OF wf(2)])
  then have "disk_index (kern ?t) ?p = disk_index (kern s) ?p" by (simp add: disk_index_def)
  with sh grow show "disk_stored ?t = disk_stored s" by (intro disk_stored_mono [OF ok]) auto
  show "stored ?t = stored s"
  proof
    fix k show "stored ?t k = stored s k"
    proof (cases "map_of (index s) k")
      case (Some iv)
      from entry_ok_mono(2) [OF disk_ok_entry [OF store_ok_disk [OF ok] Some] grow] Some sh show ?thesis
        by (simp add: stored_def)
    qed (simp add: stored_def sh)
  qed
qed

text \<open>A compaction leaves what is visible, in memory and on the disk.\<close>

lemma compacted_follows:
  assumes ok: "store_ok s" "policy_max_recs s = 0" and u: "same_data s u" and c: "compacted clk u s'" "same_data s' t"
  shows "follows clk id s (snd (open_segment 1 t))"
proof -
  note d = same_data_disk [OF ok(1) u]
  note one = compacted_reopen [OF d(1-4) c]
  let ?t = "snd (open_segment 1 t)"
  have cfg: "policy_ttl_secs u = policy_ttl_secs s" "policy_max_recs u = 0" "same_config s u"
    using u ok(2) by (simp_all add: same_data_def same_config_def)
  have st: "stored ?t = visible clk u" using c(1) one(4) cfg(2) by (simp add: compacted_def prune_off)
  have ix: "distinct_keys (index s')" "\<forall>e \<in> set (map entry_of (index s')). length (fst e) \<le> MAX_KEY_LEN"
  proof -
    have dk: "disk_ok (kern s') (base_prefix u) (unat (segment_count u)) (index s')"
      using c(1) by (simp add: compacted_def)
    then show d: "distinct_keys (index s')" by (simp add: disk_ok_def)
    show "\<forall>e \<in> set (map entry_of (index s')). length (fst e) \<le> MAX_KEY_LEN"
    proof
      fix e assume "e \<in> set (map entry_of (index s'))"
      then obtain k iv where e: "(k, iv) \<in> set (index s')" "fst e = k" by (auto simp: entry_of_def)
      then have "map_of (index s') k = Some iv" using d by simp
      from disk_ok_entry [OF dk this] e(2) show "length (fst e) \<le> MAX_KEY_LEN"
        by (auto simp: entry_ok_def wf_record_def split: option.splits prod.splits)
    qed
  qed
  have "disk_index (kern ?t) (base_prefix ?t) = index ?t"
    using disk_index_entries [OF one(7) ix(2)] replay_entry_of [OF ix(1)] one(5,6) by simp
  then have "disk_stored ?t = stored ?t" by (intro ext) (simp add: disk_stored_def stored_def)
  moreover have "fades clk (policy_ttl_secs s) (stored s) (stored ?t)"
    unfolding st visible_shown d(6) cfg(1) by (rule fades_shown)
  moreover have "same_config s ?t"
    using one(2) cfg(3) same_config_trans by (auto simp: keeps_def)
  ultimately show ?thesis using one(1) by (simp add: follows_def)
qed

lemma rotate_follows:
  assumes ok: "store_ok s" "length (index s) \<le> max_keys" "policy_max_recs s = 0"
  shows "follows clk id s (snd (rotate_segment_if_needed clk w s))"
proof (rule rotate_cases [OF ok(1,2), of clk w])
  assume "snd (rotate_segment_if_needed clk w s) = s"
  then show ?thesis using follows_refl [OF ok(1)] by simp
next
  fix c t assume r: "snd (rotate_segment_if_needed clk w s) = snd (open_segment c t)" "same_data s t" "c < unat (segment_count s)"
  have "store_ok (snd (rotate_segment_if_needed clk w s))" "same_config s (snd (rotate_segment_if_needed clk w s))"
    using rotate_ok [OF ok(1,2), of clk w] by (simp_all add: keeps_def)
  then show ?thesis using open_segment_views [OF ok(1) r(2,3)] by (intro followsI) (simp_all add: r(1))
next
  fix u s' t assume "snd (rotate_segment_if_needed clk w s) = snd (open_segment 1 t)" "same_data s u"
    "compacted clk u s'" "same_data s' t"
  then show ?thesis using compacted_follows [OF ok(1,3)] by simp
qed

lemma compact_if_threshold_follows:
  assumes ok: "store_ok s" "length (index s) \<le> max_keys" "policy_max_recs s = 0"
  shows "follows clk id s (compact_if_threshold clk s)"
proof -
  have d: "disk_ok (kern s) (base_prefix s) (unat (segment_count s)) (index s)" "0 < unat (segment_count s)"
    using ok(1) by (simp_all add: store_ok_def)
  obtain s' where s': "compact clk s = (True, s')" "compacted clk s s'"
    by (rule compact_ok [OF d ok(2)])
  have "follows clk id s (snd (open_segment 1 (s'\<lparr>current_segment := 1\<rparr>)))"
    using s'(2) by (intro compacted_follows [OF ok(1,3)]) (simp_all add: same_data_def same_config_def)
  then show ?thesis using follows_refl [OF ok(1)] s'(1) by (simp add: compact_if_threshold_def Let_def)
qed

text \<open>The core of \<open>put\<close> and \<open>remove\<close>.\<close>

definition op_update :: "store_op \<Rightarrow> (bytes \<Rightarrow> payload option) \<Rightarrow> bytes \<Rightarrow> payload option" where
  "op_update o' f = (case o' of
      OpPut clk key data ttl ts pr \<Rightarrow> f(key \<mapsto> put_payload data ts ttl pr)
    | OpRemove clk jt jp key \<Rightarrow> f(key := None))"

lemma op_update_fades: "fades clk p f f' \<Longrightarrow> fades clk p (op_update o' f) (op_update o' f')"
  by (cases o') (simp_all add: op_update_def fades_upd)

lemma op_core_follows:
  assumes ok: "store_ok s" and o': "op_fits o'" "has_room s"
  shows "follows clk (op_update o') s (op_core o' s)" "length (index (op_core o' s)) \<le> max_keys"
proof -
  let ?p = "base_prefix s" and ?s' = "op_core o' s"
  have room: "length (index s) < max_keys" "current_offset s < 2 ^ 24" "policy_max_recs s = 0"
    using o'(2) by (simp_all add: has_room_def)
  have core: "store_ok ?s' \<and> same_config s ?s' \<and> stored ?s' = op_update o' (stored s) \<and>
      length (index ?s') \<le> Suc (length (index s))"
  proof (cases o')
    case (OpPut clk key data ttl ts pr)
    with o'(1) have "0 < length key" "length key \<le> MAX_KEY_LEN" "length data \<le> MAX_VALUE_LEN"
      by (simp_all add: op_fits_def)
    then obtain s1 s2 where "write_record (put_header key data ttl ts pr) key data s = (True, s1)"
      "s2 = commit_put key (length data) (current_offset s) ttl ts pr s1" "store_ok s2" "same_config s s2"
      "policy_max_recs s = 0 \<Longrightarrow> stored s2 = (stored s)(key \<mapsto> put_payload data ts ttl pr)"
      "length (index s2) \<le> Suc (length (index s))"
      using put_core_ok [OF ok _ _ _ room(2), where key = key and data = data and ts = ts and ttl = ttl and pr = pr] by blast
    with room(3) show ?thesis by (simp add: OpPut op_update_def)
  next
    case (OpRemove clk jt jp key)
    with o'(1) have "0 < length key" "length key \<le> MAX_KEY_LEN" by (simp_all add: op_fits_def)
    then obtain s1 s2 where
      "snd (flush_buffer (append_all [enc_header (tombstone_header jt jp key), key, enc_commit MAGIC_COMMIT] s)) = s1"
      "s2 = commit_remove key s1" "store_ok s2" "same_config s s2" "stored s2 = (stored s)(key := None)"
      "length (index s2) \<le> length (index s)"
      using remove_core_ok [OF ok, where key = key and jt = jt and jp = jp] by blast
    then show ?thesis by (simp add: OpRemove op_update_def)
  qed
  then show "length (index ?s') \<le> max_keys" using room(1) by simp
  obtain i j where ij: "writes_to i j s" by (rule store_ok_writes_to [OF ok])
  have h: "healthy (kern s)" "kernel_wf (kern s)" "prefix_ok ?p" using ok by (simp_all add: store_ok_def disk_ok_def)
  have r: "twin ?s' (op_memory o' s)"
      "kern ?s' = append_ino j (enc_entry (op_entry o' s)) (append_ino i (enc_rec (op_record o')) (kern s))"
    by (rule sound.op_core_shape [OF ij h(1) room(3), of o'], blast)+
  have len: "length (op_key o') \<le> MAX_KEY_LEN" using o'(1) by (simp add: op_fits_def)
  have bp: "base_prefix ?s' = ?p" using twin_fields [OF r(1)] by (simp add: op_memory_def)
  obtain es where es: "contents (kern s) (index_name ?p) = Some (enc_entries es)" "\<forall>e \<in> set es. length (fst e) \<le> MAX_KEY_LEN"
    "contents (kern ?s') (index_name ?p) = Some (enc_entries (es @ [op_entry o' s]))"
    "\<And>l bs. l < unat (segment_count s) \<Longrightarrow> contents (kern s) (segment_name ?p l) = Some bs \<Longrightarrow>
       \<exists>ys. contents (kern ?s') (segment_name ?p l) = Some (bs @ ys)"
    by (rule appended_files [OF ok ij r(2)]) blast
  have "\<forall>e \<in> set (es @ [op_entry o' s]). length (fst e) \<le> MAX_KEY_LEN" using es(2) len by (cases o') simp_all
  note ix = disk_index_entries [OF es(1,2)] disk_index_entries [OF es(3) this]
  have "disk_stored ?s' = op_update o' (disk_stored s)"
  proof
    fix k show "disk_stored ?s' k = op_update o' (disk_stored s) k"
    proof (cases "k = op_key o'")
      case True
      with logged_core [OF ok ij r _ len] have "logged ?s' k" by blast
      with core have "disk_stored ?s' k = op_update o' (stored s) k" by (simp add: disk_stored_logged)
      with True show ?thesis by (cases o') (simp_all add: op_update_def)
    next
      case False
      then have m: "map_of (replay (es @ [op_entry o' s])) k = map_of (replay es) k"
        by (cases o') (simp_all add: replay_append)
      have "disk_stored ?s' k = disk_stored s k"
      proof (cases "map_of (replay es) k")
        case (Some iv)
        then have "entry_ok (kern s) ?p (unat (segment_count s)) k iv"
          by (intro store_ok_disk_index [OF ok]) (simp add: ix)
        from entry_ok_mono(2) [OF this es(4)] Some m show ?thesis by (simp add: disk_stored_def bp ix)
      qed (simp add: disk_stored_def bp ix m)
      with False show ?thesis by (cases o') (simp_all add: op_update_def)
    qed
  qed
  with core show "follows clk (op_update o') s ?s'" by (intro followsI) simp_all
qed

end
