(* ===== verification/ClearStore.thy ===== *)
theory ClearStore
  imports FreshStore
begin

text \<open>
  \<open>clear\<close> on a good store: the segments and the index file are removed and created anew, and the store is a
  good one without records, in memory and on the disk.
\<close>

lemma store_clear_ok:
  assumes ok: "store_ok s"
  shows "store_ok (store_clear s) \<and> same_config s (store_clear s) \<and> index (store_clear s) = [] \<and>
    current_offset (store_clear s) = 0 \<and>
    contents (kern (store_clear s)) (index_name (base_prefix s)) = Some []"
proof -
  let ?p = "base_prefix s" and ?n = "unat (segment_count s)"
  have s: "fs_valid s" "2 \<le> ?n" "write_buf s = []" "healthy (kern s)" "kernel_wf (kern s)" "prefix_ok ?p"
      "contents (kern s) (journal_name ?p) = None"
    using ok by (simp_all add: store_ok_def disk_ok_def)
  have small: "i < 256" if "i < ?n" for i using that by (rule segment_count_less)
  obtain f g where fg: "valid_file (active_file s) = Some f" "valid_file (index_file s) = Some g"
    using ok by (auto simp: store_ok_def handle_on_def)
  obtain g' where g': "close_index s = s\<lparr>index_file := g'\<rparr>" using close_index_shape by blast
  obtain a where a: "close_active (s\<lparr>index_file := g'\<rparr>) = s\<lparr>index_file := g', active_file := a\<rparr>"
    using close_active_shape [of "s\<lparr>index_file := g'\<rparr>"] by auto
  let ?t = "s\<lparr>index_file := g', active_file := a\<rparr>"
  obtain K1 where K1: "remove_segments [0..<?n] ?t = ?t\<lparr>kern := K1\<rparr>"
      "touches (segment_name ?p ` {0..<?n}) (kern s) K1" "\<forall>i \<in> {0..<?n}. contents K1 (segment_name ?p i) = None"
    by (rule remove_segments_ok [of ?t "[0..<?n]"]) (use s in simp_all)
  note wf1 = touches_wf [OF K1(2)]
  define K2 where "K2 = fs_remove (index_name ?p) K1"
  note rm = touches_remove [OF conjunct1 [OF wf1] conjunct2 [OF wf1], of "index_name ?p", folded K2_def]
  note wf2 = touches_wf [OF rm(1)]
  let ?u = "?t\<lparr>kern := K2, index := [], dead_since_compact := 0, current_segment := 0, current_offset := 0, write_buf := []\<rparr>"
  have seg2: "contents K2 (segment_name ?p i) = None" if "i < ?n" for i
    using K1(3) that s(6) small [OF that] by (simp add: rm(3))
  have jn2: "contents K2 (journal_name ?p) = None"
  proof -
    have "journal_name ?p \<notin> segment_name ?p ` {0..<?n}" using s(6) small by auto
    with touches_contents [OF K1(2)] s(6,7) show ?thesis by (simp add: rm(3))
  qed
  have "healthy (kern ?u)" using wf2 by simp
  then obtain h where h: "open_index_for_append ?u = ?u\<lparr>index_file := Some h, kern := create_ino (index_name ?p) K2\<rparr>"
      "handle_on (Some h) (index_name ?p) (create_ino (index_name ?p) K2)"
    by (rule open_index_ok) simp
  define K3 where "K3 = create_ino (index_name ?p) K2"
  note cr = touches_create [OF conjunct1 [OF wf2] conjunct2 [OF wf2], of "index_name ?p", folded K3_def]
  note wf3 = touches_wf [OF cr(1)]
  let ?v = "?u\<lparr>index_file := Some h, kern := K3\<rparr>"
  have c3: "contents K3 (index_name ?p) = Some []" "contents K3 (journal_name ?p) = None"
      "\<And>i. i < ?n \<Longrightarrow> contents K3 (segment_name ?p i) = None"
    using s(6) small seg2 jn2 by (simp_all add: cr(2) rm(3))
  have "disk_ok K3 ?p ?n []"
    using wf3 s(6) c3 by (auto simp: disk_ok_def replay_def intro!: exI [of _ "[]"])
  then have v: "fs_valid ?v" "2 \<le> unat (segment_count ?v)" "write_buf ?v = []"
    "disk_ok (kern ?v) (base_prefix ?v) (unat (segment_count ?v)) (index ?v)" "0 < unat (segment_count ?v)"
    "\<forall>i. 0 < i \<longrightarrow> i < unat (segment_count ?v) \<longrightarrow> contents (kern ?v) (segment_name (base_prefix ?v) i) = None"
    "handle_on (index_file ?v) (index_name (base_prefix ?v)) (kern ?v)"
    using s c3 h(2) by (simp_all add: K3_def)
  note op = store_ok_opened [OF v]
  have clear: "store_clear s = snd (open_segment 0 ?v)"
    using s(1,3) fg g' a K1(1) h(1)
    by (simp add: store_clear_def Let_def fs_remove_in_def K2_def [symmetric] K3_def [symmetric])
  have "contents (kern (snd (open_segment 0 ?v))) (index_name ?p) = Some []"
    by (rule open_segment_shape [of ?v 0]) (use wf3 c3 s(6) in \<open>simp_all add: contents_create\<close>)
  moreover have "current_offset (snd (open_segment 0 ?v)) = 0" using op(6) c3(3) v(5) by simp
  ultimately show ?thesis using op(1,3,4) by (simp add: clear same_config_def)
qed

end
