(* ===== verification/Session.thy ===== *)
theory Session
  imports DiskView ClearStore
begin

text \<open>
  Whole sessions: calls of \<open>put\<close>, \<open>remove\<close>, \<open>get\<close>, \<open>exists\<close> and \<open>clear\<close> and restarts in any order, with clocks that do not
  go back. The answers are those of a map whose records expire; in particular a restart neither loses a
  record nor brings a removed one back, whichever rotations and compactions the calls went through.
\<close>

section \<open>Calls\<close>

text \<open>\<open>CallRestart a n seg_size\<close> is a new store object, constructed with the segment size \<open>a\<close> and the count \<open>n\<close>,
  with the same policy, initialised with the same prefix and count on the disk as it is.\<close>

datatype call = CallUpdate store_op | CallGet clock bytes u16 | CallExists clock bytes | CallRestart u32 u8 u32 | CallClear

datatype answer = AnswerDone bool | AnswerValue "(bytes \<times> u16) option" | AnswerBool bool

fun run_call :: "call \<Rightarrow> store \<Rightarrow> answer \<times> store" where
  "run_call (CallUpdate (OpPut clk key data ttl ts pr)) s =
     (case store_put clk key data ttl ts pr s of (ok, s) \<Rightarrow> (AnswerDone ok, s))"
| "run_call (CallUpdate (OpRemove clk jt jp key)) s =
     (case store_remove clk jt jp key s of (ok, s) \<Rightarrow> (AnswerDone ok, s))"
| "run_call (CallGet clk key out_size) s =
     (case store_get clk key True out_size s of (v, s) \<Rightarrow> (AnswerValue v, s))"
| "run_call (CallExists clk key) s = (case store_exists clk key s of (b, s) \<Rightarrow> (AnswerBool b, s))"
| "run_call (CallRestart a n seg_size) s =
     (case store_init (base_prefix s) False seg_size (segment_count s)
         (set_ttl_secs (policy_ttl_secs s) (new_store a n (kern s))) of (ok, s) \<Rightarrow> (AnswerDone ok, s))"
| "run_call CallClear s = (AnswerDone True, store_clear s)"

fun run_calls :: "call list \<Rightarrow> store \<Rightarrow> answer list" where
  "run_calls [] s = []"
| "run_calls (c # cs) s = (case run_call c s of (a, s) \<Rightarrow> a # run_calls cs s)"

text \<open>What the map answers, and what it is afterwards.\<close>

fun map_call :: "u32 \<Rightarrow> call \<Rightarrow> (bytes \<Rightarrow> payload option) \<Rightarrow> answer \<times> (bytes \<Rightarrow> payload option)" where
  "map_call p (CallUpdate o') A = (AnswerDone True, op_update o' A)"
| "map_call p (CallGet clk key out_size) A =
     (AnswerValue (case shown clk p A key of None \<Rightarrow> None
        | Some (v, ts, ttl, pr) \<Rightarrow> Some (take (unat out_size) v, of_nat (length v))), A)"
| "map_call p (CallExists clk key) A = (AnswerBool (shown clk p A key \<noteq> None), A)"
| "map_call p (CallRestart a n seg_size) A = (AnswerDone True, A)"
| "map_call p CallClear A = (AnswerDone True, Map.empty)"

fun map_calls :: "u32 \<Rightarrow> call list \<Rightarrow> (bytes \<Rightarrow> payload option) \<Rightarrow> answer list" where
  "map_calls p [] A = []"
| "map_calls p (c # cs) A = (case map_call p c A of (a, A) \<Rightarrow> a # map_calls p cs A)"

text \<open>The arguments are in range and the clocks do not go back.\<close>

fun call_fits :: "call \<Rightarrow> bool" where
  "call_fits (CallUpdate o') \<longleftrightarrow> op_fits o'"
| "call_fits (CallGet clk key out_size) \<longleftrightarrow> length key \<le> MAX_KEY_LEN"
| "call_fits (CallExists clk key) \<longleftrightarrow> length key \<le> MAX_KEY_LEN"
| "call_fits (CallRestart a n seg_size) \<longleftrightarrow> True"
| "call_fits CallClear \<longleftrightarrow> True"

fun call_time :: "call \<Rightarrow> u32 \<Rightarrow> u32" where
  "call_time (CallUpdate o') now = clk_time (op_clock o')"
| "call_time (CallGet clk key out_size) now = clk_time clk"
| "call_time (CallExists clk key) now = clk_time clk"
| "call_time (CallRestart a n seg_size) now = now"
| "call_time CallClear now = now"

fun in_order :: "u32 \<Rightarrow> call list \<Rightarrow> bool" where
  "in_order now [] \<longleftrightarrow> True"
| "in_order now (c # cs) \<longleftrightarrow> call_fits c \<and> now \<le> call_time c now \<and> in_order (call_time c now) cs"

section \<open>One update\<close>

lemma index_size:
  assumes "store_ok s"
  shows "finite (dom (stored s))" "length (index s) = card (dom (stored s))"
proof -
  have dist: "distinct_keys (index s)" using assms by (simp add: store_ok_def disk_ok_def)
  have "dom (stored s) = fst ` set (index s)"
  proof -
    have "stored s k \<noteq> None \<longleftrightarrow> map_of (index s) k \<noteq> None" for k
    proof (cases "map_of (index s) k")
      case (Some iv)
      then obtain v where "stored s k = Some (v, iv_timestamp iv, u24_get (iv_ttl iv), iv_priority iv)"
        by (rule stored_entry [OF store_ok_disk [OF assms]])
      with Some show ?thesis by simp
    qed (simp add: stored_missing)
    then have "dom (stored s) = dom (map_of (index s))" unfolding dom_def by blast
    then show ?thesis by (simp add: dom_map_of_conv_image_fst)
  qed
  then show "finite (dom (stored s))" "length (index s) = card (dom (stored s))"
    using distinct_card [OF dist] by simp_all
qed

lemma compact_if_threshold_offset:
  assumes "store_ok s" "length (index s) \<le> max_keys"
  shows "current_offset (compact_if_threshold clk s) \<le> current_offset s"
proof -
  have d: "disk_ok (kern s) (base_prefix s) (unat (segment_count s)) (index s)" "0 < unat (segment_count s)"
    "fs_valid s" "2 \<le> unat (segment_count s)" "write_buf s = []"
    using assms(1) by (simp_all add: store_ok_def)
  obtain s' where s': "compact clk s = (True, s')" "compacted clk s s'"
    by (rule compact_ok [OF d(1,2) assms(2)])
  have "same_data s' (s'\<lparr>current_segment := 1\<rparr>)" by (simp add: same_data_def same_config_def)
  from compacted_reopen(3) [OF d(1,3-5) s'(2) this]
  show ?thesis by (simp add: compact_if_threshold_def Let_def s'(1))
qed

lemma op_start_follows:
  assumes "store_ok s" "length (index s) \<le> max_keys" "policy_max_recs s = 0"
  shows "follows (op_clock o') id s (op_start o' s)" "current_offset (op_start o' s) \<le> current_offset s"
    "length (index (op_start o' s)) \<le> length (index s)"
proof -
  show "follows (op_clock o') id s (op_start o' s)"
    using rotate_follows [OF assms] follows_refl [OF assms(1)] by (cases o') simp_all
  show "current_offset (op_start o' s) \<le> current_offset s" "length (index (op_start o' s)) \<le> length (index s)"
    using rotate_ok [OF assms(1,2)] by (cases o'; simp add: keeps_def)+
qed

lemma op_record_size:
  assumes "op_fits o'"
  shows "length (enc_rec (op_record o')) \<le> 1113"
  using assms by (cases o') (simp_all add: op_fits_def enc_rec_def HEADER_SIZE_def COMMIT_SIZE_def
    MAX_KEY_LEN_def MAX_VALUE_LEN_def)

lemma run_op_follows:
  assumes ok: "store_ok s" and o': "op_fits o'" "has_room s"
  shows "follows (op_clock o') (op_update o') s (run_op o' s)"
    "current_offset (run_op o' s) \<le> current_offset s + 1113"
proof -
  have room: "length (index s) < max_keys" "current_offset s < 2 ^ 24" "policy_max_recs s = 0"
    using o'(2) by (simp_all add: has_room_def)
  let ?s1 = "op_start o' s" and ?clk = "op_clock o'"
  let ?s2 = "op_core o' ?s1"
  note st = op_start_follows [OF ok less_imp_le [OF room(1)] room(3), of o']
  have s1: "store_ok ?s1" "policy_max_recs ?s1 = 0" "has_room ?s1"
    using st room by (simp_all add: follows_def same_config_def has_room_def)
  note core = op_core_follows(1) [OF s1(1) o'(1) s1(3), of ?clk] op_core_follows(2) [OF s1(1) o'(1) s1(3)]
  have s2: "store_ok ?s2" "policy_max_recs ?s2 = 0"
    using core(1) s1(2) by (simp_all add: follows_def same_config_def)
  obtain i j where ij: "writes_to i j ?s1" by (rule store_ok_writes_to [OF s1(1)])
  have h: "healthy (kern ?s1)" "fs_valid s" using s1(1) ok by (simp_all add: store_ok_def disk_ok_def)
  have "twin ?s2 (op_memory o' ?s1)" by (rule sound.op_core_shape [OF ij h(1) s1(2), of o'])
  then have "current_offset ?s2 \<le> current_offset ?s1 + 1113"
    using op_record_size [OF o'(1)] twin_fields by (simp add: op_memory_def)
  moreover have run: "run_op o' s = compact_if_threshold ?clk ?s2"
    by (rule sound.run_op_phases [OF h(2) o'(1) ij h(1) s1(2)])
  ultimately show "current_offset (run_op o' s) \<le> current_offset s + 1113"
    using compact_if_threshold_offset [OF s2(1) core(2), of ?clk] st(2) by simp
  have "follows ?clk (op_update o' \<circ> id) s ?s2"
    by (rule follows_trans [OF st(1) core(1) op_update_fades])
  from follows_trans [OF this compact_if_threshold_follows [OF s2(1) core(2) s2(2)]]
  show "follows ?clk (op_update o') s (run_op o' s)" by (simp add: run)
qed

lemma forget_follows:
  assumes "store_ok s" "visible clk s k = None" "s' \<in> {s, index_remove k s}"
  shows "follows clk id s s'"
proof (cases "s' = s")
  case False
  then have s': "s' = index_remove k s" using assms(3) by simp
  show ?thesis
  proof (rule followsI)
    show "store_ok s'" using store_ok_remove [OF assms(1)] by (simp add: s')
    show "same_config s s'" by (simp add: s' index_remove_def same_config_def)
    show "fades clk (policy_ttl_secs s) (id (stored s)) (stored s')"
      using assms(2) by (auto simp: s' fades_def stored_index_remove visible_def split: option.splits if_splits)
    have same: "kern s' = kern s" "base_prefix s' = base_prefix s" by (simp_all add: s' index_remove_def)
    show "fades clk (policy_ttl_secs s) (id (disk_stored s)) (disk_stored s')"
      by (simp add: disk_stored_def [abs_def] same cong: option.case_cong)
  qed
qed (simp add: follows_refl [OF assms(1)])

section \<open>Sessions\<close>

text \<open>The map \<open>A\<close> is what memory and disk show, up to records that have expired by \<open>now\<close>; \<open>n\<close> calls were made.\<close>

definition tracks :: "u32 \<Rightarrow> u32 \<Rightarrow> nat \<Rightarrow> (bytes \<Rightarrow> payload option) \<Rightarrow> store \<Rightarrow> bool" where
  "tracks now p n A s \<longleftrightarrow> store_ok s \<and> policy_ttl_secs s = p \<and> policy_max_recs s = 0 \<and>
     current_offset s \<le> 1113 * n \<and> finite (dom A) \<and> card (dom A) \<le> n \<and>
     (\<forall>clk. now \<le> clk_time clk \<longrightarrow> fades clk p A (stored s) \<and> fades clk p A (disk_stored s))"

lemma fades_dom: "fades clk p f f' \<Longrightarrow> dom f' \<subseteq> dom f"
  by (auto simp: fades_def dom_def) (metis option.distinct(1))

lemma tracks_follows:
  assumes s: "tracks now p n A s" "follows clk u s s'" and t: "now \<le> clk_time clk"
    and u: "\<And>clk f f'. fades clk p f f' \<Longrightarrow> fades clk p (u f) (u f')"
    and n: "current_offset s' \<le> current_offset s + 1113" "dom (u A) \<subseteq> insert k (dom A)"
  shows "tracks (clk_time clk) p (Suc n) (u A) s'"
proof -
  have fin: "finite (dom A)" "card (dom A) \<le> n" using s(1) by (simp_all add: tracks_def)
  have "card (dom (u A)) \<le> card (insert k (dom A))" by (rule card_mono) (use fin(1) n(2) in auto)
  also have "\<dots> \<le> Suc n" using fin card_insert_le_m1 [of "Suc n" "dom A" k] by simp
  finally have size: "card (dom (u A)) \<le> Suc n" .
  have all: "fades clk' p (u A) f'" if "f' \<in> {stored s', disk_stored s'}" "clk_time clk \<le> clk_time clk'" for clk' f'
  proof -
    have p: "policy_ttl_secs s = p" using s(1) by (simp add: tracks_def)
    from that(1) obtain f where f: "f \<in> {stored s, disk_stored s}" "fades clk p (u f) f'"
      using s(2) p unfolding follows_def by blast
    have "fades clk' p A f" using f(1) s(1) t that(2) unfolding tracks_def by (blast intro: order_trans)
    from fades_trans [OF u [OF this] fades_later [OF that(2) f(2)]] show ?thesis .
  qed
  show ?thesis
    using s n(1) size finite_subset [OF n(2)] fin(1) all
    by (simp add: tracks_def follows_def same_config_def)
qed

lemma tracks_room:
  assumes "tracks now p n A s" "n < 15000"
  shows "has_room s"
proof -
  define clk where "clk = \<lparr>clk_time = now, clk_millis = 0\<rparr>"
  then have clk: "clk_time clk = now" by simp
  have ok: "store_ok s" and A: "finite (dom A)" "card (dom A) \<le> n" "fades clk p A (stored s)"
    using assms(1) by (simp_all add: tracks_def clk)
  have "card (dom (stored s)) \<le> card (dom A)" by (rule card_mono [OF A(1) fades_dom [OF A(3)]])
  with A(2) assms show ?thesis by (simp add: has_room_def tracks_def index_size(2) [OF ok] max_keys_def)
qed

lemma tracks_shown:
  assumes "tracks now p n A s" "now \<le> clk_time clk"
  shows "visible clk s = shown clk p A"
proof -
  have "fades clk p A (stored s)" "policy_ttl_secs s = p" using assms by (simp_all add: tracks_def)
  then show ?thesis by (simp add: visible_shown shown_fades)
qed

lemma restart_tracks:
  assumes s: "tracks now p n A s"
  obtains v where "run_call (CallRestart a c seg_size) s = (AnswerDone True, v)" "tracks now p (Suc n) A v"
proof -
  have ok: "store_ok s" and p: "policy_ttl_secs s = p" using s by (simp_all add: tracks_def)
  let ?t = "set_ttl_secs (policy_ttl_secs s) (new_store a c (kern s))"
  have t: "cold ?t" "kern ?t = kern s" "policy_ttl_secs ?t = policy_ttl_secs s"
    by (simp_all add: set_ttl_secs_def new_store_def cold_def)
  obtain v es where v: "store_init (base_prefix s) False seg_size (segment_count s) ?t = (True, v)" "store_ok v"
    "contents (kern s) (index_name (base_prefix s)) = Some (enc_entries es)"
    "\<forall>e \<in> set es. length (fst e) \<le> MAX_KEY_LEN"
    "index v = replay es" "base_prefix v = base_prefix s" "policy_ttl_secs v = policy_ttl_secs s"
    "policy_max_recs v = 0" "current_offset v = current_offset s" "\<And>q. contents (kern v) q = contents (kern s) q"
    by (rule store_reboot [OF ok t, of seg_size]) blast
  have ix: "disk_index (kern v) (base_prefix s) = disk_index (kern s) (base_prefix s)"
      "disk_index (kern s) (base_prefix s) = index v"
    using disk_index_entries [OF v(3,4)] v(5) by (simp_all add: disk_index_def v(10))
  have "disk_stored v = disk_stored s"
    by (rule disk_stored_mono [OF ok v(6) ix(1)]) (simp add: v(10))
  moreover have "disk_stored v = stored v"
    by (intro ext) (simp add: disk_stored_def stored_def ix v(6) cong: option.case_cong)
  ultimately have "tracks now p (Suc n) A v" using s v by (simp add: tracks_def)
  with v(1) show thesis by (intro that) simp_all
qed

lemma empty_views:
  assumes "index s = []" "contents (kern s) (index_name (base_prefix s)) = Some []"
  shows "stored s = Map.empty" "disk_stored s = Map.empty"
proof -
  have "disk_index (kern s) (base_prefix s) = []"
    using disk_index_entries [of "kern s" "base_prefix s" "[]"] assms(2) by (simp add: replay_def)
  with assms(1) show "stored s = Map.empty" "disk_stored s = Map.empty"
    by (intro ext, simp add: stored_def disk_stored_def)+
qed

lemma clear_tracks:
  assumes "tracks now p n A s"
  shows "tracks now p (Suc n) Map.empty (store_clear s)"
proof -
  have ok: "store_ok s" and p: "policy_ttl_secs s = p" "policy_max_recs s = 0" using assms by (simp_all add: tracks_def)
  note c = store_clear_ok [OF ok]
  have "base_prefix (store_clear s) = base_prefix s" using c by (simp add: same_config_def)
  with empty_views [of "store_clear s"] c p show ?thesis by (simp add: tracks_def same_config_def)
qed

lemma forgotten:
  assumes "visible clk (index_remove k s) = visible clk s"
  shows "visible clk s k = None"
  using fun_cong [OF assms, of k] by (simp add: visible_def stored_index_remove)

lemma call_tracks:
  assumes s: "tracks now p n A s" "n < 15000" and c: "call_fits c" "now \<le> call_time c now"
  obtains v where "run_call c s = (fst (map_call p c A), v)" "tracks (call_time c now) p (Suc n) (snd (map_call p c A)) v"
proof -
  have ok: "store_ok s" using s(1) by (simp add: tracks_def)
  note room = tracks_room [OF s]
  have quiet: "tracks (clk_time clk) p (Suc n) A v"
    if "v \<in> {s, index_remove k s}" "visible clk s k = None \<or> v = s" "now \<le> clk_time clk" for clk k v
  proof -
    have "follows clk id s v"
      using that(1,2) forget_follows [OF ok, of clk k v] follows_refl [OF ok, of clk] by (cases "v = s") simp_all
    moreover have "current_offset v = current_offset s" using that(1) by (auto simp: index_remove_def)
    ultimately show ?thesis using tracks_follows [OF s(1), of clk id v k] that(3) by auto
  qed
  show thesis
  proof (cases c)
    case o: (CallUpdate o')
    have "fst (run_call c s) = AnswerDone True \<and> snd (run_call c s) = run_op o' s"
    proof (cases o')
      case (OpPut clk key data ttl ts pr)
      with store_put_ok [OF ok, of key data clk ttl ts pr] room c(1) o show ?thesis
        by (cases "store_put clk key data ttl ts pr s") (simp add: op_fits_def has_room_def)
    next
      case (OpRemove clk jt jp key)
      with store_remove_ok [OF ok, of key clk jt jp] room c(1) o show ?thesis
        by (cases "store_remove clk jt jp key s") (simp add: op_fits_def has_room_def)
    qed
    moreover have "tracks (clk_time (op_clock o')) p (Suc n) (op_update o' A) (run_op o' s)"
      using run_op_follows [OF ok _ room, of o'] c o
      by (intro tracks_follows [OF s(1), where k = "op_key o'"])
        (auto simp: op_update_fades, auto simp: op_update_def split: store_op.splits if_splits)
    ultimately show thesis using o by (intro that [of "run_op o' s"]) (simp_all add: prod_eq_iff)
  next
    case o: (CallGet clk key out_size)
    have key: "length key \<le> MAX_KEY_LEN" and now: "now \<le> clk_time clk" using c o by simp_all
    note g = store_get_ok [OF ok key, of clk out_size]
    have "visible clk s key = None \<or> snd (store_get clk key True out_size s) = s"
      using g forgotten [of clk key s] by auto
    with g quiet [OF _ _ now, of "snd (store_get clk key True out_size s)" key] o show thesis
      by (intro that [of "snd (store_get clk key True out_size s)"])
        (auto simp: tracks_shown [OF s(1) now] split: prod.split)
  next
    case o: (CallExists clk key)
    have key: "length key \<le> MAX_KEY_LEN" and now: "now \<le> clk_time clk" using c o by simp_all
    note g = store_exists_ok [OF ok key, of clk]
    have "visible clk s key = None \<or> snd (store_exists clk key s) = s"
      using g forgotten [of clk key s] by auto
    with g quiet [OF _ _ now, of "snd (store_exists clk key s)" key] o show thesis
      by (intro that [of "snd (store_exists clk key s)"])
        (auto simp: tracks_shown [OF s(1) now] split: prod.split)
  next
    case o: (CallRestart a m seg_size)
    show thesis by (rule restart_tracks [OF s(1), of a m seg_size]) (rule that, simp_all add: o)
  next
    case CallClear
    with clear_tracks [OF s(1)] show thesis by (intro that [of "store_clear s"]) simp_all
  qed
qed

lemma calls_track:
  assumes "tracks now p n A s" "in_order now cs" "n + length cs \<le> 15000"
  shows "run_calls cs s = map_calls p cs A"
  using assms
proof (induction cs arbitrary: now n A s)
  case (Cons c cs)
  obtain v where v: "run_call c s = (fst (map_call p c A), v)"
      "tracks (call_time c now) p (Suc n) (snd (map_call p c A)) v"
    by (rule call_tracks [OF Cons.prems(1), where c = c]) (use Cons.prems in simp_all)
  have "run_calls cs v = map_calls p cs (snd (map_call p c A))"
    by (rule Cons.IH [OF v(2)]) (use Cons.prems in simp_all)
  with v(1) show ?case by (simp split: prod.split)
qed simp

lemma store_ok_ttl: "store_ok (set_ttl_secs ttl s) \<longleftrightarrow> store_ok s"
  by (simp add: set_ttl_secs_def store_ok_def)

text \<open>C1: a store on an empty disk is a map. Whatever the calls of \<open>put\<close>, \<open>remove\<close>, \<open>get\<close>, \<open>exists\<close> and \<open>clear\<close> and
  the restarts are, the answers are those of a map whose records expire: up to 15000 calls, with arguments
  in range and clocks that do not go back, through rotations and compactions. A removed or overwritten
  record does not come back with a restart, and no record is lost.\<close>

theorem sessions_answer_like_a_map:
  assumes "healthy K" "kernel_wf K" "prefix_ok p" "2 \<le> unat seg_count" "no_files K p (unat seg_count)"
    and cs: "in_order 0 cs" "length cs \<le> 15000"
  shows "run_calls cs (set_ttl_secs ttl (snd (store_init p False seg_size seg_count (new_store sz c K)))) =
    map_calls ttl cs Map.empty"
proof -
  let ?s = "set_ttl_secs ttl (snd (store_init p False seg_size seg_count (new_store sz c K)))"
  note f = init_empty_ok [OF assms(1-5), of seg_size sz c]
  have "stored ?s = Map.empty" "disk_stored ?s = Map.empty"
    using f empty_views [of ?s] by (simp_all add: set_ttl_secs_def)
  moreover have "store_ok ?s" using f by (simp only: store_ok_ttl)
  ultimately have "tracks 0 ttl 0 Map.empty ?s" using f by (simp add: tracks_def set_ttl_secs_def)
  from calls_track [OF this cs(1)] cs(2) show ?thesis by simp
qed

text \<open>A removed record stays removed over a restart, and a record expires.\<close>

definition demo_calls :: "call list" where
  "demo_calls = (let at = \<lambda>t. \<lparr>clk_time = t, clk_millis = 0\<rparr> in
     [CallUpdate (OpPut (at 100) [1] [10, 11] 0 100 0), CallUpdate (OpPut (at 100) [2] [20] 50 100 0),
      CallRestart 0 0 64, CallGet (at 110) [1] 8, CallUpdate (OpRemove (at 120) 7 7 [1]),
      CallRestart 0 0 64, CallExists (at 120) [1], CallExists (at 120) [2], CallGet (at 200) [2] 8,
      CallUpdate (OpPut (at 300) [1] [12] 0 300 0), CallClear, CallRestart 0 0 64, CallGet (at 300) [1] 8])"

theorem sessions_answer_like_a_map_witness:
  "run_calls demo_calls (set_ttl_secs 0 (snd (store_init ''store_'' False 64 8 (new_store 64 8 empty_kernel)))) =
   [AnswerDone True, AnswerDone True, AnswerDone True, AnswerValue (Some ([10, 11], 2)), AnswerDone True,
    AnswerDone True, AnswerBool False, AnswerBool True, AnswerValue None,
    AnswerDone True, AnswerDone True, AnswerDone True, AnswerValue None]"
proof -
  have "in_order 0 demo_calls" "length demo_calls \<le> 15000"
    by (simp_all add: demo_calls_def op_fits_def MAX_KEY_LEN_def MAX_VALUE_LEN_def)
  from sessions_answer_like_a_map [OF _ _ _ _ _ this, of empty_kernel "''store_''" 8 0 64 64 8]
  show ?thesis
    by (simp add: prefix_ok_def demo_calls_def op_update_def shown_def put_payload_def expired_def)
qed

end
