(* ===== verification/CompactionCrash.thy ===== *)
theory CompactionCrash
  imports WriteCrash
begin

text \<open>
  Power failures during a compaction, and what the recovery of \<open>init\<close> makes of the disk they leave. The
  journal is kept until the index has been written, and it is rewritten in place; the recovery removes
  every segment before it looks for the temporary file, and leaves the old index file. So there are
  moments at which a power failure loses every record, or lets a key read the value of another.
\<close>

text \<open>\<open>finalize_compaction\<close> after a successful rename: \<open>adopt_log\<close> reads the new segment 0.\<close>

definition adopt_log :: "store \<Rightarrow> store" where
  "adopt_log s = (case fs_open (segment_name (base_prefix s) 0) ModeRead (kern s) of
       (None, K) \<Rightarrow> s\<lparr>kern := K\<rparr>
     | (Some f, K) \<Rightarrow> foldl finalize_visit (s\<lparr>kern := K\<rparr>) (scan_records scan_ok K f 0))"

lemma remove_segments_prefix [simp]: "base_prefix (remove_segments is s) = base_prefix s"
  by (induction "is" arbitrary: s) (simp_all add: remove_segments_def fs_remove_in_def)

lemma finalize_renamed:
  assumes "fs_rename (tmp_name (base_prefix s)) (segment_name (base_prefix s) 0)
      (kern (remove_segments [0..<unat (segment_count s)] s)) = (True, K)"
  shows "finalize_compaction s =
    (let s = close_index (adopt_log ((remove_segments [0..<unat (segment_count s)] s)\<lparr>kern := K\<rparr>\<lparr>index := []\<rparr>));
         s = fs_remove_in (index_name (base_prefix s)) s
     in (open_index_for_append (snd (write_index_bulk s)))\<lparr>current_segment := 0\<rparr>)"
  using assms by (simp add: finalize_compaction_def adopt_log_def Let_def)

lemma adopt_log_kern: "kern (adopt_log s) = kern s"
proof -
  have "snd (fs_open (segment_name (base_prefix s) 0) ModeRead (kern s)) = kern s"
    by (simp add: fs_open_read split: option.split)
  then show ?thesis
    by (auto simp: adopt_log_def finalize_visits_kern split: prod.split option.split)
qed

lemma finalize_dead_after_rename:
  assumes "healthy (kern s)" "fs_rename (tmp_name (base_prefix s)) (segment_name (base_prefix s) 0)
      (kern (remove_segments [0..<unat (segment_count s)] s)) = (True, K)"
  shows "kern (finalize_compaction (armed (unat (segment_count s) + 1) s)) = arm 0 K"
proof -
  let ?n = "unat (segment_count s)"
  let ?s1 = "remove_segments [0..<?n] s"
  have r: "remove_segments [0..<?n] (armed (?n + 1) s) = armed 1 ?s1" "healthy (kern ?s1)"
    using remove_segments_arm(1) [OF assms(1), of "[0..<?n]" 1] remove_segments_arm(2) [OF assms(1)] by simp_all
  have "fs_rename (tmp_name (base_prefix s)) (segment_name (base_prefix s) 0) (arm (Suc 0) (kern ?s1)) =
      (True, arm 0 K)"
    using fs_rename_arm [OF r(2)] assms(2) by simp
  then have "fs_rename (tmp_name (base_prefix (armed (?n + 1) s))) (segment_name (base_prefix (armed (?n + 1) s)) 0)
      (kern (remove_segments [0..<unat (segment_count (armed (?n + 1) s))] (armed (?n + 1) s))) = (True, arm 0 K)"
    unfolding armed_fields r(1) by simp
  from finalize_renamed [OF this] show ?thesis
    by (simp only: Let_def)
      (simp add: adopt_log_kern open_index_dead write_index_dead fs_remove_in_dead)
qed

section \<open>A compaction up to its commit\<close>

lemma prune_armed:
  "snd (prune_index_to_max_recs (armed x s)) = armed x (snd (prune_index_to_max_recs s))"
  using prune_kern [where s = s] by (simp add: armed_def prune_frame)

text \<open>The files of a store that a compaction works on before it renames.\<close>

definition work_files :: "store \<Rightarrow> string set" where
  "work_files s = {tmp_name (base_prefix s), journal_name (base_prefix s)} \<union>
     segment_name (base_prefix s) ` {..<unat (segment_count s)}"

lemma index_not_work: "prefix_ok (base_prefix s) \<Longrightarrow> index_name (base_prefix s) \<notin> work_files s"
  using segment_count_less [of _ s] by (auto simp: work_files_def image_iff)

lemma compact_until_commit:
  assumes disk: "disk_ok (kern s) (base_prefix s) (unat (segment_count s)) (index s)"
  obtains c s3 bs where
    "\<And>x. compact clk (armed (c + x) s) =
       (let s = clear_journal (finalize_compaction (write_journal JOURNAL_COMMIT 0 0 (armed x s3)))
        in (True, s\<lparr>dead_since_compact := 0\<rparr>))"
    "base_prefix s3 = base_prefix s" "segment_count s3 = segment_count s"
    "touches (work_files s) (kern s) (kern s3)" "contents (kern s3) (tmp_name (base_prefix s)) = Some bs"
    "\<And>i. i < unat (segment_count s) \<Longrightarrow> contents (kern s3) (segment_name (base_prefix s) i) = None"
    "packed clk (snd (prune_index_to_max_recs s)) bs"
proof -
  let ?p = "base_prefix s" and ?n = "unat (segment_count s)"
  have wf: "healthy (kern s)" using disk by (simp add: disk_ok_def)
  define sp where "sp = snd (prune_index_to_max_recs s)"
  obtain K1 outf K2 K3 where K1: "write_journal JOURNAL_COMPACTING 0 0 s = s\<lparr>kern := K1\<rparr>"
    and K2: "fs_open (tmp_name ?p) ModeWrite K1 = (Some outf, K2)"
    and pr: "snd (prune_index_to_max_recs (s\<lparr>kern := K1\<rparr>\<lparr>kern := K2\<rparr>)) = sp\<lparr>kern := K2\<rparr>"
    and cs: "compact_segments clk [0..<?n] outf 0 (sp\<lparr>kern := K2\<rparr>) = (True, ?n, sp\<lparr>kern := K3\<rparr>)"
    and t: "touches (work_files s) (kern s) K3"
    and tmp: "contents K3 (tmp_name ?p) = Some (enc_log (all_live clk (sp\<lparr>kern := K2\<rparr>) ?n))"
    and gone: "\<forall>i < ?n. contents K3 (segment_name ?p i) = None"
    and ent: "\<forall>(k, iv) \<in> set (index sp). entry_ok K2 ?p ?n k iv"
    and same: "\<And>k iv. (k, iv) \<in> set (index sp) \<Longrightarrow> entry_record K2 ?p iv = entry_record (kern s) ?p iv"
    and ok: "\<And>k iv. (k, iv) \<in> set (index sp) \<Longrightarrow> entry_ok (kern s) ?p ?n k iv"
    unfolding work_files_def by (rule compact_copied [OF disk sp_def, of clk]) blast
  have spf: "base_prefix sp = ?p" "segment_count sp = segment_count s" "kern sp = kern s"
    by (simp_all add: sp_def prune_frame)
  have dist: "distinct_keys (index sp)" using disk by (simp add: sp_def prune_distinct disk_ok_def)
  have pack: "packed clk sp (enc_log (all_live clk (sp\<lparr>kern := K2\<rparr>) ?n))"
    by (rule all_live_packed) (use ent same ok dist spf in auto)
  obtain c1 where c1: "\<And>x. write_journal JOURNAL_COMPACTING 0 0 (armed (c1 + x) s) = armed x (s\<lparr>kern := K1\<rparr>)"
      "healthy (kern (s\<lparr>kern := K1\<rparr>))"
    by (rule write_journal_arm [OF wf, of JOURNAL_COMPACTING 0 0, unfolded K1]) blast
  have h1: "healthy K1" using c1(2) by simp
  obtain c2 where c2: "\<And>x. fs_open (tmp_name ?p) ModeWrite (arm (c2 + x) K1) = (Some outf, arm x K2)" "healthy K2"
    by (rule fs_open_arm [OF h1 K2]) blast
  have h2: "healthy (kern (sp\<lparr>kern := K2\<rparr>))" using c2(2) by simp
  obtain c3 where c3: "\<And>x. compact_segments clk [0..<?n] outf 0 (armed (c3 + x) (sp\<lparr>kern := K2\<rparr>)) =
      (True, ?n, armed x (sp\<lparr>kern := K3\<rparr>))"
    by (rule compact_segments_arm [OF h2 cs]) blast
  have upd: "(armed y u)\<lparr>kern := K\<rparr> = u\<lparr>kern := K\<rparr>" for y u K by (simp add: armed_def)
  have pr': "snd (prune_index_to_max_recs (s\<lparr>kern := arm y K2\<rparr>)) = armed y (sp\<lparr>kern := K2\<rparr>)" for y
    using prune_armed [of y "s\<lparr>kern := K2\<rparr>"] pr by (simp add: armed_def)
  have "compact clk (armed (c1 + (c2 + (c3 + x))) s) =
       (let s = clear_journal (finalize_compaction (write_journal JOURNAL_COMMIT 0 0 (armed x (sp\<lparr>kern := K3\<rparr>))))
        in (True, s\<lparr>dead_since_compact := 0\<rparr>))" for x
    using c2(1) [of "c3 + x"] c3 [of x] pr' [of "c3 + x"]
    by (simp add: compact_def Let_def c1(1) upd spf)
  then show thesis
    using spf t tmp gone pack
    by (intro that [of "c1 + (c2 + c3)" "sp\<lparr>kern := K3\<rparr>"]) (simp_all add: add.assoc sp_def)
qed

section \<open>Booting without the segments\<close>

lemma get_lost:
  assumes "write_buf s = []" "\<And>iv. map_of (index s) k = Some iv \<Longrightarrow>
    contents (kern s) (segment_name (base_prefix s) (unat (iv_segment iv))) \<in> {None, Some []}"
  shows "fst (store_get clk k has_out out_size s) = None"
proof (cases "map_of (index s) k")
  case None
  then show ?thesis using assms(1) by (simp add: store_get_def index_find_def)
next
  case (Some iv)
  let ?p = "segment_name (base_prefix s) (unat (iv_segment iv))"
  show ?thesis
  proof (cases "contents (kern s) ?p")
    case None
    then show ?thesis using assms(1) Some
      by (simp add: store_get_def index_find_def fs_open_read_missing)
  next
    case (Some bs)
    with assms(2) \<open>map_of (index s) k = Some iv\<close> have "contents (kern s) ?p = Some []" by fastforce
    then obtain f where f: "fs_open ?p ModeRead (kern s) = (Some f, kern s)" "file_readable f"
        "file_data (kern s) f = []" by (rule fs_open_read_contents)
    have "fst (file_read HEADER_SIZE (snd (file_seek m SeekModeSet f (kern s))) (kern s)) = []" for m
      using f by (simp add: fr.rd_skip)
    then show ?thesis using assms(1) \<open>map_of (index s) k = Some iv\<close> f(1)
      by (simp add: store_get_def index_find_def case_prod_unfold Let_def HEADER_SIZE_def)
  qed
qed

lemma boot_lost:
  assumes u: "healthy (kern u)" "kernel_wf (kern u)" "index u = []" "policy_max_recs u = 0" "write_buf u = []"
    "prefix_ok (base_prefix u)" "unat (segment_count u) \<noteq> 0"
    and ix: "contents (kern u) (index_name (base_prefix u)) = Some (enc_entries es @ torn)" "parse_entries torn = []"
    "\<forall>e \<in> set es. length (fst e) \<le> MAX_KEY_LEN"
    "\<forall>k iv. map_of (replay es) k = Some iv \<longrightarrow> unat (iv_segment iv) < unat (segment_count u)"
    and lost: "\<forall>i < unat (segment_count u). contents (kern u) (segment_name (base_prefix u) i) = None"
  defines "w \<equiv> (let s = open_index_for_append (prune_at_boot (load_or_rebuild u))
             in snd (open_segment (resume_segment s) s))"
  shows "fst (store_get clk k has_out out_size w) = None"
proof -
  let ?p = "base_prefix u"
  obtain g f where g: "open_index_for_append (prune_at_boot (load_or_rebuild u)) =
      u\<lparr>index := replay es, index_file := Some g\<rparr>"
    "snd (open_segment 0 (u\<lparr>index := replay es, index_file := Some g\<rparr>)) =
       u\<lparr>index := replay es, index_file := Some g, active_file := Some f,
         kern := create_ino (segment_name ?p 0) (kern u), current_segment := 0,
         current_offset := (case contents (kern u) (segment_name ?p 0) of None \<Rightarrow> 0 | Some bs \<Rightarrow> length bs)\<rparr>"
    by (rule boot_loaded [OF u(1-4) ix(1-3), of 0]) blast
  have "resume_segment (u\<lparr>index := replay es, index_file := Some g\<rparr>) = 0"
    using lost unfolding resume_segment_eq by (intro foldl_no_index) simp
  then have w: "w = u\<lparr>index := replay es, index_file := Some g, active_file := Some f,
         kern := create_ino (segment_name ?p 0) (kern u), current_segment := 0,
         current_offset := (case contents (kern u) (segment_name ?p 0) of None \<Rightarrow> 0 | Some bs \<Rightarrow> length bs)\<rparr>"
    unfolding w_def g(1) Let_def using g(2) by simp
  show ?thesis
  proof (rule get_lost)
    show "write_buf w = []" using u(5) by (simp add: w)
    fix iv assume "map_of (index w) k = Some iv"
    then have "unat (iv_segment iv) < unat (segment_count u)" using ix(4) by (simp add: w)
    then show "contents (kern w) (segment_name (base_prefix w) (unat (iv_segment iv))) \<in> {None, Some []}"
      using lost contents_create [OF u(2), of "segment_name ?p 0"] by (simp add: w)
  qed
qed

section \<open>Recovering a committed compaction that was already renamed\<close>

lemma recover_commit_without_tmp:
  assumes u: "healthy (kern u)" "kernel_wf (kern u)" "prefix_ok (base_prefix u)" "unat (segment_count u) \<noteq> 0"
    and jn: "contents (kern u) (journal_name (base_prefix u)) = Some (enc_journal \<lparr>j_magic = JOURNAL_MAGIC,
       j_state = journal_state_code JOURNAL_COMMIT, j_next_seg = n, j_tmp_valid_size = v\<rparr>)"
    and tmp: "contents (kern u) (tmp_name (base_prefix u)) = None"
  obtains K' where "recover_if_needed u = u\<lparr>kern := K'\<rparr>" "touches (work_files u) (kern u) K'"
    "\<forall>i < unat (segment_count u). contents K' (segment_name (base_prefix u) i) = None"
proof -
  let ?p = "base_prefix u" and ?n = "unat (segment_count u)"
  let ?jn = "journal_name ?p" and ?tmp = "tmp_name ?p"
  have small: "c < 256" if "c < ?n" for c using that by (rule segment_count_less)
  obtain K1 where K1: "remove_segments [0..<?n] u = u\<lparr>kern := K1\<rparr>"
      "touches (segment_name ?p ` set [0..<?n]) (kern u) K1"
      "\<forall>c \<in> set [0..<?n]. contents K1 (segment_name ?p c) = None"
    by (rule remove_segments_ok [OF u(1,2)])
  note wf1 = touches_wf [OF K1(2)]
  have "?tmp \<notin> segment_name ?p ` set [0..<?n]" using u(3) small by (auto simp: image_iff)
  then have "contents K1 ?tmp = None" using touches_contents [OF K1(2)] tmp by simp
  then have "fs_rename ?tmp (segment_name ?p 0) K1 = (False, K1)"
    using wf1 by (simp add: fs_rename_def posix_rename_def sys_rename_def contents_def)
  then have fin: "finalize_compaction u = u\<lparr>kern := fs_remove ?tmp K1\<rparr>"
    using K1(1) by (simp add: finalize_compaction_def Let_def fs_remove_in_def)
  note r1 = touches_remove [OF conjunct1 [OF wf1] conjunct2 [OF wf1], of ?tmp]
  note wf2 = touches_wf [OF r1(1)]
  note r2 = touches_remove [OF conjunct1 [OF wf2] conjunct2 [OF wf2], of ?jn]
  let ?K' = "fs_remove ?jn (fs_remove ?tmp K1)"
  obtain f where f: "fs_open ?jn ModeRead (kern u) = (Some f, kern u)" "file_readable f" "file_pos f = 0"
      "file_data (kern u) f = enc_journal \<lparr>j_magic = JOURNAL_MAGIC,
       j_state = journal_state_code JOURNAL_COMMIT, j_next_seg = n, j_tmp_valid_size = v\<rparr>"
    by (rule fs_open_read_contents [OF jn])
  have bs: "fst (file_read JOURNAL_SIZE f (kern u)) = enc_journal \<lparr>j_magic = JOURNAL_MAGIC,
       j_state = journal_state_code JOURNAL_COMMIT, j_next_seg = n, j_tmp_valid_size = v\<rparr>"
    using f jrn.take_enc [of _ "[]"] by (simp add: fr.rd_bytes)
  have "recover_if_needed u = u\<lparr>kern := ?K'\<rparr>"
    using f(1) bs fin jrn.dec_enc [of _ "[]"]
    by (simp add: recover_if_needed_def Let_def jrn.enc_length fs_remove_in_def)
  moreover have "touches (work_files u) (kern u) ?K'"
    using touches_trans [OF touches_trans [OF K1(2) r1(1)] r2(1)]
    by (rule touches_mono) (auto simp: work_files_def)
  moreover have "\<forall>i < ?n. contents ?K' (segment_name ?p i) = None"
    using K1(3) r1(3) r2(3) by simp
  ultimately show thesis by (rule that)
qed

text \<open>The disk when the power fails right after the rename.\<close>

lemma compact_crash_after_rename:
  assumes disk: "disk_ok (kern s) (base_prefix s) (unat (segment_count s)) (index s)"
    and n: "unat (segment_count s) \<noteq> 0"
  obtains c K bs where "kern (snd (compact clk (armed c s))) = arm 0 K"
    "touches (work_files s) (kern s) K" "contents K (tmp_name (base_prefix s)) = None"
    "contents K (journal_name (base_prefix s)) = Some (enc_journal \<lparr>j_magic = JOURNAL_MAGIC,
       j_state = journal_state_code JOURNAL_COMMIT, j_next_seg = 0, j_tmp_valid_size = 0\<rparr>)"
    "contents K (segment_name (base_prefix s) 0) = Some bs" "packed clk (snd (prune_index_to_max_recs s)) bs"
proof -
  let ?p = "base_prefix s" and ?n = "unat (segment_count s)"
  let ?jn = "journal_name ?p" and ?tmp = "tmp_name ?p" and ?seg0 = "segment_name ?p 0"
  have p: "prefix_ok ?p" using disk by (simp add: disk_ok_def)
  have small: "c < 256" if "c < ?n" for c using that by (rule segment_count_less)
  obtain c s3 bs where c: "\<And>x. compact clk (armed (c + x) s) =
       (let s = clear_journal (finalize_compaction (write_journal JOURNAL_COMMIT 0 0 (armed x s3)))
        in (True, s\<lparr>dead_since_compact := 0\<rparr>))"
    and s3: "base_prefix s3 = ?p" "segment_count s3 = segment_count s" "touches (work_files s) (kern s) (kern s3)"
    and tmp: "contents (kern s3) ?tmp = Some bs" and pack: "packed clk (snd (prune_index_to_max_recs s)) bs"
    by (rule compact_until_commit [OF disk, of clk]) blast
  note wf3 = touches_wf [OF s3(3)]
  obtain K4 where K4: "write_journal JOURNAL_COMMIT 0 0 s3 = s3\<lparr>kern := K4\<rparr>" "touches {?jn} (kern s3) K4"
      "contents K4 ?jn = Some (enc_journal \<lparr>j_magic = JOURNAL_MAGIC,
       j_state = journal_state_code JOURNAL_COMMIT, j_next_seg = of_nat 0, j_tmp_valid_size = of_nat 0\<rparr>)"
    using write_journal_ok [OF conjunct1 [OF wf3] conjunct2 [OF wf3], of JOURNAL_COMMIT 0 0] s3(1) by metis
  note wf4 = touches_wf [OF K4(2)]
  obtain c2 where c2: "\<And>x. write_journal JOURNAL_COMMIT 0 0 (armed (c2 + x) s3) = armed x (s3\<lparr>kern := K4\<rparr>)"
    by (rule write_journal_arm [OF conjunct1 [OF wf3], of JOURNAL_COMMIT 0 0, unfolded K4(1)]) blast
  let ?s4 = "s3\<lparr>kern := K4\<rparr>"
  have h4: "healthy (kern ?s4)" "kernel_wf (kern ?s4)" using wf4 by simp_all
  obtain K5 where K5: "remove_segments [0..<unat (segment_count ?s4)] ?s4 = ?s4\<lparr>kern := K5\<rparr>"
      "touches (segment_name ?p ` set [0..<?n]) K4 K5"
    by (rule remove_segments_ok [OF h4, of "[0..<unat (segment_count ?s4)]"]) (use s3 in auto)
  note wf5 = touches_wf [OF K5(2)]
  have out: "?tmp \<notin> segment_name ?p ` set [0..<?n]" "?jn \<notin> segment_name ?p ` set [0..<?n]"
    using p small by (auto simp: image_iff)
  have tmp5: "contents K5 ?tmp = Some bs"
    using touches_contents [OF K5(2) out(1)] touches_contents [OF K4(2), of ?tmp] tmp p by simp
  then obtain i where i: "dir K5 ?tmp = Some i" by (auto simp: contents_def)
  have ne: "?tmp \<noteq> ?seg0" using p by simp
  obtain K6 where K6: "fs_rename ?tmp ?seg0 K5 = (True, K6)" "touches {?tmp, ?seg0} K5 K6" "dir K6 ?tmp = None"
      "contents K6 ?seg0 = contents K5 ?tmp"
    by (rule fs_rename_healthy [OF conjunct1 [OF wf5] conjunct2 [OF wf5] i ne]) blast
  have rn: "fs_rename (tmp_name (base_prefix ?s4)) (segment_name (base_prefix ?s4) 0)
      (kern (remove_segments [0..<unat (segment_count ?s4)] ?s4)) = (True, K6)"
    using K5(1) K6(1) s3(1) by simp
  have "kern (finalize_compaction (armed (?n + 1) ?s4)) = arm 0 K6"
    using finalize_dead_after_rename [OF h4(1) rn] s3(2) by simp
  then have dead: "kern (clear_journal (finalize_compaction (armed (?n + 1) ?s4))) = arm 0 K6"
    by (simp add: clear_journal_def fs_remove_in_dead)
  have run: "kern (snd (compact clk (armed (c + (c2 + (?n + 1))) s))) = arm 0 K6"
    using c [of "c2 + (?n + 1)"] c2 [of "?n + 1"] dead by (simp add: Let_def)
  have "touches (work_files s \<union> {?jn} \<union> segment_name ?p ` set [0..<?n] \<union> {?tmp, ?seg0}) (kern s) K6"
    using touches_trans [OF touches_trans [OF touches_trans [OF s3(3) K4(2)] K5(2)] K6(2)] .
  then have t6: "touches (work_files s) (kern s) K6"
    by (rule touches_mono) (use n in \<open>auto simp: work_files_def\<close>)
  have jn6: "contents K6 ?jn = contents K4 ?jn"
    using touches_contents [OF K6(2), of ?jn] touches_contents [OF K5(2) out(2)] p by simp
  have "contents K6 ?tmp = None" using K6(3) by (simp add: contents_def)
  then show thesis
    using run t6 jn6 K4(3) K6(4) tmp5 pack by (intro that) simp_all
qed

section \<open>The journal is rewritten in place\<close>

text \<open>\<open>open\<close> has truncated the journal, and the power fails before the new contents are written.\<close>

lemma write_journal_torn:
  assumes "healthy (kern s)" "kernel_wf (kern s)"
  obtains c K where "kern (write_journal st n v (armed c s)) = arm 0 K" "touches {journal_name (base_prefix s)} (kern s) K"
    "contents K (journal_name (base_prefix s)) = Some []"
proof -
  obtain f i K where f: "fs_open (journal_name (base_prefix s)) ModeWrite (kern s) = (Some f, K)"
      "touches {journal_name (base_prefix s)} (kern s) K" "dir K (journal_name (base_prefix s)) = Some i"
      "inodes K i = []" by (rule fs_open_write [OF assms])
  obtain c where c: "\<And>x. fs_open (journal_name (base_prefix s)) ModeWrite (arm (c + x) (kern s)) = (Some f, arm x K)"
    by (rule fs_open_arm [OF assms(1) f(1)]) blast
  have "enc_journal j \<noteq> []" for j using jrn.enc_length [of j] by (auto simp: JOURNAL_SIZE_def)
  then have "kern (write_journal st n v (armed c s)) = arm 0 K"
    using c [of 0] by (simp add: write_journal_def Let_def dead_write)
  moreover have "contents K (journal_name (base_prefix s)) = Some []" using f(3,4) by (simp add: contents_def)
  ultimately show thesis using f(2) by (intro that)
qed

lemma recover_short_journal:
  assumes "healthy (kern u)" "kernel_wf (kern u)" "contents (kern u) (journal_name (base_prefix u)) = Some bs"
    "length bs < JOURNAL_SIZE"
  obtains K' where "recover_if_needed u = u\<lparr>kern := K'\<rparr>" "touches {journal_name (base_prefix u)} (kern u) K'"
    "contents K' (journal_name (base_prefix u)) = None"
proof -
  obtain f where f: "fs_open (journal_name (base_prefix u)) ModeRead (kern u) = (Some f, kern u)" "file_readable f"
      "file_pos f = 0" "file_data (kern u) f = bs" by (rule fs_open_read_contents [OF assms(3)])
  have "length (fst (file_read JOURNAL_SIZE f (kern u))) \<noteq> JOURNAL_SIZE"
    using f assms(4) by (simp add: fr.rd_bytes)
  then have "recover_if_needed u = u\<lparr>kern := fs_remove (journal_name (base_prefix u)) (kern u)\<rparr>"
    using f(1) by (simp add: recover_if_needed_def Let_def fs_remove_in_def)
  then show thesis using touches_remove(1) [OF assms(1,2), of "journal_name (base_prefix u)"]
    by (rule that) (simp add: touches_remove(3) [OF assms(1,2)])
qed

text \<open>The recovery of a disk whose segments are gone, once it has left the index file alone.\<close>

lemma init_without_segments:
  assumes disk: "disk_ok (kern s) (base_prefix s) (unat (segment_count s)) (index s)"
    and t: "healthy (kern t)" "kernel_wf (kern t)" "cold t" and n: "unat (segment_count s) \<noteq> 0"
    and ix: "contents (kern t) (index_name (base_prefix s)) = contents (kern s) (index_name (base_prefix s))"
    and rec: "\<And>u. base_prefix u = base_prefix s \<Longrightarrow> segment_count u = segment_count s \<Longrightarrow> healthy (kern u) \<Longrightarrow>
      kernel_wf (kern u) \<Longrightarrow> (\<And>q. contents (kern u) q = contents (kern t) q) \<Longrightarrow>
      \<exists>K'. recover_if_needed u = u\<lparr>kern := K'\<rparr> \<and> touches (work_files s) (kern u) K' \<and>
        (\<forall>i < unat (segment_count s). contents K' (segment_name (base_prefix s) i) = None)"
  shows "fst (store_init (base_prefix s) False seg_size (segment_count s) t)"
    "fst (store_get clk k has_out out_size
       (snd (store_init (base_prefix s) False seg_size (segment_count s) t))) = None"
proof -
  let ?p = "base_prefix s" and ?n = "unat (segment_count s)"
  have p: "prefix_ok ?p" using disk by (simp add: disk_ok_def)
  obtain u where u: "store_init ?p False seg_size (segment_count s) t =
      (True, let s = open_index_for_append (prune_at_boot (load_or_rebuild (recover_if_needed u)))
             in snd (open_segment (resume_segment s) s))"
    "base_prefix u = ?p" "segment_count u = segment_count s" "fs_valid u" "index u = []" "write_buf u = []"
    "policy_max_recs u = 0" "policy_ttl_secs u = policy_ttl_secs t" "active_file u = active_file t"
    "healthy (kern u)" "kernel_wf (kern u)" "\<And>q. contents (kern u) q = contents (kern t) q"
    by (rule init_boot [OF t(1,2) p t(3) n]) blast
  obtain K' where K': "recover_if_needed u = u\<lparr>kern := K'\<rparr>" "touches (work_files s) (kern u) K'"
    "\<forall>i < ?n. contents K' (segment_name ?p i) = None"
    using rec [OF u(2,3,10,11,12)] by blast
  note wf' = touches_wf [OF K'(2)]
  from disk obtain es where es: "contents (kern s) (index_name ?p) = Some (enc_entries es @ [])"
      "\<forall>e \<in> set es. length (fst e) \<le> MAX_KEY_LEN"
      "\<forall>k iv. map_of (replay es) k = Some iv \<longrightarrow> entry_ok (kern s) ?p ?n k iv"
    by (auto simp: disk_ok_def)
  have ix': "contents K' (index_name ?p) = Some (enc_entries es @ [])"
    using touches_contents [OF K'(2) index_not_work [OF p]] u(12) ix es(1) by simp
  let ?v = "u\<lparr>kern := K'\<rparr>"
  have "fst (store_get clk k has_out out_size (let s = open_index_for_append (prune_at_boot (load_or_rebuild ?v))
             in snd (open_segment (resume_segment s) s))) = None"
  proof (rule boot_lost [of _ es "[]"])
    show "\<forall>k iv. map_of (replay es) k = Some iv \<longrightarrow> unat (iv_segment iv) < unat (segment_count ?v)"
      using es(3) u(3) by (auto simp: entry_ok_def)
  qed (use u p n wf' ix' es(2) K'(3) in simp_all)
  then show "fst (store_init ?p False seg_size (segment_count s) t)"
    "fst (store_get clk k has_out out_size (snd (store_init ?p False seg_size (segment_count s) t))) = None"
    by (simp_all add: u(1) K'(1))
qed

section \<open>Everything is lost\<close>

text \<open>C7: A power failure between the rename and the removal of the journal, while the index is written, loses
  every record. At that point the temporary file is gone, and segment 0 holds one record for each visible key,
  and nothing else; the next \<open>init\<close> finds the journal committed, removes all segments, that one included, and
  has no temporary file to put in their place.\<close>

theorem crash_after_rename_loses_everything:
  assumes "store_ok s" "cold t"
  shows "\<exists>c. let K = revive (kern (snd (compact clk (armed c s))));
       r = store_init (base_prefix s) False seg_size (segment_count s) (t\<lparr>kern := K\<rparr>)
     in contents K (tmp_name (base_prefix s)) = None \<and>
        (\<exists>bs. contents K (segment_name (base_prefix s) 0) = Some bs \<and>
           packed clk (snd (prune_index_to_max_recs s)) bs) \<and>
        fst r \<and> (\<forall>clk k has_out out_size. fst (store_get clk k has_out out_size (snd r)) = None)"
proof -
  let ?p = "base_prefix s" and ?n = "unat (segment_count s)"
  have disk: "disk_ok (kern s) ?p ?n (index s)" and n: "?n \<noteq> 0"
    using assms(1) by (auto simp: store_ok_def)
  have p: "prefix_ok ?p" using disk by (simp add: disk_ok_def)
  obtain c K bs where K: "kern (snd (compact clk (armed c s))) = arm 0 K"
    "touches (work_files s) (kern s) K" "contents K (tmp_name ?p) = None"
    "contents K (journal_name ?p) = Some (enc_journal \<lparr>j_magic = JOURNAL_MAGIC,
       j_state = journal_state_code JOURNAL_COMMIT, j_next_seg = 0, j_tmp_valid_size = 0\<rparr>)"
    and bs: "contents K (segment_name ?p 0) = Some bs" "packed clk (snd (prune_index_to_max_recs s)) bs"
    by (rule compact_crash_after_rename [OF disk n, of clk]) blast
  note wf = touches_wf [OF K(2)]
  let ?t = "t\<lparr>kern := K\<rparr>"
  have t: "healthy (kern ?t)" "kernel_wf (kern ?t)" "cold ?t" using wf assms(2) by (simp_all add: cold_def)
  have ix: "contents (kern ?t) (index_name ?p) = contents (kern s) (index_name ?p)"
    using touches_contents [OF K(2) index_not_work [OF p]] by simp
  have rec: "\<exists>K'. recover_if_needed u = u\<lparr>kern := K'\<rparr> \<and> touches (work_files s) (kern u) K' \<and>
        (\<forall>i < ?n. contents K' (segment_name ?p i) = None)"
    if u: "base_prefix u = ?p" "segment_count u = segment_count s" "healthy (kern u)" "kernel_wf (kern u)"
      "\<And>q. contents (kern u) q = contents (kern ?t) q" for u
  proof -
    obtain K' where "recover_if_needed u = u\<lparr>kern := K'\<rparr>" "touches (work_files u) (kern u) K'"
        "\<forall>i < unat (segment_count u). contents K' (segment_name (base_prefix u) i) = None"
      by (rule recover_commit_without_tmp [of u 0 0]) (use u p n K(3,4) in simp_all)
    then show ?thesis using u(1,2) by (auto simp: work_files_def)
  qed
  note lost = init_without_segments [OF disk t n ix rec]
  have rev: "revive (kern (snd (compact clk (armed c s)))) = K" using K(1) wf by simp
  show ?thesis
    by (intro exI [of _ c], unfold Let_def rev) (intro conjI allI exI [of _ bs] K(3) bs lost)
qed

theorem crash_after_rename_loses_everything_witness:
  "visible demo_clock one_record [1] = Some ([2, 3], 90, 0, 0) \<and>
   (\<exists>c. let K = revive (kern (snd (compact demo_clock (armed c one_record))))
     in (\<exists>bs. contents K (segment_name ''store_'' 0) = Some bs \<and>
          packed demo_clock (snd (prune_index_to_max_recs one_record)) bs) \<and>
        fst (store_get demo_clock [1] True 10 (snd (store_init ''store_'' False 65536 8 (new_store 0 0 K)))) = None)"
proof -
  note lost = crash_after_rename_loses_everything [OF one_record(1) cold_new [of 0 0 empty_kernel], of demo_clock 65536,
    unfolded Let_def one_record(6,7) new_store_kern]
  show ?thesis using lost one_record(2) by (simp add: Let_def) blast
qed

lemma compact_crash_in_commit:
  assumes disk: "disk_ok (kern s) (base_prefix s) (unat (segment_count s)) (index s)"
  obtains c K where "kern (snd (compact clk (armed c s))) = arm 0 K" "touches (work_files s) (kern s) K"
    "contents K (journal_name (base_prefix s)) = Some []" "contents K (tmp_name (base_prefix s)) \<noteq> None"
    "\<And>i. i < unat (segment_count s) \<Longrightarrow> contents K (segment_name (base_prefix s) i) = None"
proof -
  let ?p = "base_prefix s" and ?n = "unat (segment_count s)"
  have p: "prefix_ok ?p" using disk by (simp add: disk_ok_def)
  have small: "c < 256" if "c < ?n" for c using that by (rule segment_count_less)
  obtain c s3 bs where c: "\<And>x. compact clk (armed (c + x) s) =
       (let s = clear_journal (finalize_compaction (write_journal JOURNAL_COMMIT 0 0 (armed x s3)))
        in (True, s\<lparr>dead_since_compact := 0\<rparr>))"
    and s3: "base_prefix s3 = ?p" "segment_count s3 = segment_count s" "touches (work_files s) (kern s) (kern s3)"
    and tmp: "contents (kern s3) (tmp_name ?p) = Some bs"
    and gone: "\<And>i. i < ?n \<Longrightarrow> contents (kern s3) (segment_name ?p i) = None"
    by (rule compact_until_commit [OF disk, of clk]) blast
  note wf3 = touches_wf [OF s3(3)]
  obtain c2 K where K: "kern (write_journal JOURNAL_COMMIT 0 0 (armed c2 s3)) = arm 0 K"
      "touches {journal_name ?p} (kern s3) K" "contents K (journal_name ?p) = Some []"
    using write_journal_torn [OF conjunct1 [OF wf3] conjunct2 [OF wf3], of JOURNAL_COMMIT 0 0] s3(1) by metis
  note wf = touches_wf [OF K(2)]
  have run: "kern (snd (compact clk (armed (c + c2) s))) = arm 0 K"
    using c [of c2] K(1) by (simp add: Let_def clear_journal_def fs_remove_in_dead finalize_dead)
  have tK: "touches (work_files s) (kern s) K"
    using touches_trans [OF s3(3) K(2)] by (rule touches_mono) (auto simp: work_files_def)
  have segs: "contents K (segment_name ?p i) = None" if "i < ?n" for i
    using touches_contents [OF K(2), of "segment_name ?p i"] gone [OF that] p small [OF that] by simp
  have "contents K (tmp_name ?p) \<noteq> None" using touches_contents [OF K(2), of "tmp_name ?p"] tmp p by simp
  then show thesis using run tK K(3) segs by (intro that [of "c + c2" K])
qed

text \<open>C8: A power failure while the commit is written into the journal loses every record: all segments are
  gone by then, the truncated journal makes \<open>init\<close> forget the temporary file.\<close>

theorem crash_in_commit_loses_everything:
  assumes "store_ok s" "cold t"
  shows "\<exists>c. let K = revive (kern (snd (compact clk (armed c s))));
       r = store_init (base_prefix s) False seg_size (segment_count s) (t\<lparr>kern := K\<rparr>)
     in contents K (tmp_name (base_prefix s)) \<noteq> None \<and> fst r \<and>
        (\<forall>clk k has_out out_size. fst (store_get clk k has_out out_size (snd r)) = None)"
proof -
  let ?p = "base_prefix s" and ?n = "unat (segment_count s)"
  have disk: "disk_ok (kern s) ?p ?n (index s)" and n: "?n \<noteq> 0"
    using assms(1) by (auto simp: store_ok_def)
  have p: "prefix_ok ?p" using disk by (simp add: disk_ok_def)
  have small: "c < 256" if "c < ?n" for c using that by (rule segment_count_less)
  obtain c K where K: "kern (snd (compact clk (armed c s))) = arm 0 K" "touches (work_files s) (kern s) K"
    "contents K (journal_name ?p) = Some []" "contents K (tmp_name ?p) \<noteq> None"
    and segs: "\<And>i. i < ?n \<Longrightarrow> contents K (segment_name ?p i) = None"
    by (rule compact_crash_in_commit [OF disk, of clk]) blast
  note wf = touches_wf [OF K(2)]
  let ?t = "t\<lparr>kern := K\<rparr>"
  have t: "healthy (kern ?t)" "kernel_wf (kern ?t)" "cold ?t" using wf assms(2) by (simp_all add: cold_def)
  have ix: "contents (kern ?t) (index_name ?p) = contents (kern s) (index_name ?p)"
    using touches_contents [OF K(2) index_not_work [OF p]] by simp
  have rec: "\<exists>K'. recover_if_needed u = u\<lparr>kern := K'\<rparr> \<and> touches (work_files s) (kern u) K' \<and>
        (\<forall>i < ?n. contents K' (segment_name ?p i) = None)"
    if u: "base_prefix u = ?p" "segment_count u = segment_count s" "healthy (kern u)" "kernel_wf (kern u)"
      "\<And>q. contents (kern u) q = contents (kern ?t) q" for u
  proof -
    obtain K' where K': "recover_if_needed u = u\<lparr>kern := K'\<rparr>" "touches {journal_name ?p} (kern u) K'"
      using recover_short_journal [of u "[]"] u K(3) by (auto simp: JOURNAL_SIZE_def)
    have "contents K' (segment_name ?p i) = None" if "i < ?n" for i
      using touches_contents [OF K'(2), of "segment_name ?p i"] segs [OF that] u(5) p small [OF that] by simp
    moreover have "touches (work_files s) (kern u) K'"
      using K'(2) by (rule touches_mono) (simp add: work_files_def)
    ultimately show ?thesis using K'(1) by blast
  qed
  note lost = init_without_segments [OF disk t n ix rec]
  have rev: "revive (kern (snd (compact clk (armed c s)))) = K" using K(1) wf by simp
  show ?thesis
    by (intro exI [of _ c], unfold Let_def rev) (intro conjI allI K(4) lost)
qed

theorem crash_in_commit_loses_everything_witness:
  "visible demo_clock one_record [1] = Some ([2, 3], 90, 0, 0) \<and>
   (\<exists>c. fst (store_get demo_clock [1] True 10 (snd (store_init ''store_'' False 65536 8
     (new_store 0 0 (revive (kern (snd (compact demo_clock (armed c one_record))))))))) = None)"
proof -
  note lost = crash_in_commit_loses_everything [OF one_record(1) cold_new [of 0 0 empty_kernel], of demo_clock 65536,
    unfolded Let_def one_record(6,7) new_store_kern]
  show ?thesis using lost one_record(2) by simp blast
qed

end
