(* ===== verification/StaleIndex.thy ===== *)
theory StaleIndex
  imports CompactionCrash
begin

text \<open>
  A power failure in the middle of a compaction. The recovery renames the partial temporary file to
  segment 0 and keeps the index file, whose entries for segment 0 still hold the old offsets. \<open>init\<close>
  loads that index, and \<open>get\<close> does not compare the key of the record it finds.
\<close>

section \<open>The rest of the compaction does nothing\<close>

text \<open>The power fails when the first segment has just been removed.\<close>

lemma compact_segments_head_dead:
  assumes "compact_segments clk [n] outf cs s = (True, cs', s')" "kern s' = arm 0 K"
  shows "kern (snd (snd (compact_segments clk (n # ns) outf cs s))) = arm 0 K"
proof -
  let ?offs = "live_offsets clk n s" and ?src = "segment_name (base_prefix s) n"
  let ?copy = "if ?offs = [] then (True, outf, s)
      else case fs_open ?src ModeRead (kern s) of
          (None, K) \<Rightarrow> (True, outf, s\<lparr>kern := K\<rparr>)
        | (Some src, K) \<Rightarrow> (case copy_live ?offs src outf K of (ok, outf, K) \<Rightarrow> (ok, outf, s\<lparr>kern := K\<rparr>))"
  obtain ok f1 s1 where cp: "?copy = (ok, f1, s1)" by (rule prod_cases3)
  have ok: "ok" "s' = fs_remove_in ?src (write_journal JOURNAL_COMPACTING (n + 1) (file_tell f1) s1)"
    using assms(1) cp unfolding compact_segments.simps Let_def by (auto split: if_splits)
  show ?thesis
    using ok(1) compact_segments_dead [of s' K clk ns f1 "cs + 1"] assms(2) cp
    unfolding compact_segments.simps Let_def by (simp add: ok(2))
qed

lemma compact_crash_after_first:
  assumes disk: "disk_ok (kern s) (base_prefix s) (unat (segment_count s)) (index s)"
    and n: "unat (segment_count s) \<noteq> 0" and nomax: "policy_max_recs s = 0"
  obtains c K v where "kern (snd (compact clk (armed c s))) = arm 0 K"
    "touches {tmp_name (base_prefix s), journal_name (base_prefix s), segment_name (base_prefix s) 0} (kern s) K"
    "contents K (tmp_name (base_prefix s)) = Some (enc_log (live_records clk s 0))"
    "contents K (journal_name (base_prefix s)) = Some (enc_journal \<lparr>j_magic = JOURNAL_MAGIC,
       j_state = journal_state_code JOURNAL_COMPACTING, j_next_seg = 1, j_tmp_valid_size = v\<rparr>)"
proof -
  let ?p = "base_prefix s" and ?n = "unat (segment_count s)"
  let ?tmp = "tmp_name ?p" and ?jn = "journal_name ?p"
  have p: "prefix_ok ?p" and wf: "healthy (kern s)" "kernel_wf (kern s)"
    using disk by (simp_all add: disk_ok_def)
  obtain K1 where K1: "write_journal JOURNAL_COMPACTING 0 0 s = s\<lparr>kern := K1\<rparr>" "touches {?jn} (kern s) K1"
    by (rule write_journal_ok [OF wf])
  note wf1 = touches_wf [OF K1(2)]
  obtain outf t K2 where K2: "fs_open ?tmp ModeWrite K1 = (Some outf, K2)" "touches {?tmp} K1 K2"
      "dir K2 ?tmp = Some t" "inodes K2 t = []" "tail_handle outf t K2"
    by (rule fs_open_write [OF conjunct1 [OF wf1] conjunct2 [OF wf1]])
  note wf2 = touches_wf [OF K2(2)]
  have t12: "touches {?jn, ?tmp} (kern s) K2" using touches_trans [OF K1(2) K2(2)] by (rule touches_mono) auto
  have segs: "contents K2 (segment_name ?p c) = contents (kern s) (segment_name ?p c)" if "c < ?n" for c
    using touches_contents [OF t12] p segment_count_less [OF that] by simp
  let ?s2 = "s\<lparr>kern := K2\<rparr>"
  have entries: "\<forall>(k, iv) \<in> set (index ?s2). entry_ok (kern ?s2) (base_prefix ?s2) ?n k iv"
  proof safe
    fix k iv assume "(k, iv) \<in> set (index ?s2)"
    then have "entry_ok (kern s) ?p ?n k iv"
      using disk by (intro disk_ok_entry [OF disk]) (simp add: disk_ok_def)
    then show "entry_ok (kern ?s2) (base_prefix ?s2) ?n k iv"
      using segs by (simp add: entry_ok_def)
  qed
  have live: "live_records clk ?s2 0 = live_records clk s 0"
    using segs [of 0] n live_offsets_cong [of ?s2 s clk 0] by (simp add: live_records_def)
  obtain K3 v where K3: "compact_segments clk [0] outf 0 ?s2 = (True, 1, ?s2\<lparr>kern := K3\<rparr>)"
      "touches {?tmp, ?jn, segment_name ?p 0} K2 K3" "contents K3 ?tmp = Some (enc_log (live_records clk s 0))"
      "contents K3 ?jn = Some (enc_journal \<lparr>j_magic = JOURNAL_MAGIC,
         j_state = journal_state_code JOURNAL_COMPACTING, j_next_seg = 1, j_tmp_valid_size = v\<rparr>)"
    using compact_segments_ok [OF entries, of ?s2 K2 t "[]" outf "[0]" clk 0] p wf2 K2(3-5) live
    by (auto simp: insert_commute)
  obtain c1 where c1: "\<And>x. write_journal JOURNAL_COMPACTING 0 0 (armed (c1 + x) s) = armed x (s\<lparr>kern := K1\<rparr>)"
    by (rule write_journal_arm [OF wf(1), of JOURNAL_COMPACTING 0 0, unfolded K1(1)]) blast
  obtain c2 where c2: "\<And>x. fs_open ?tmp ModeWrite (arm (c2 + x) K1) = (Some outf, arm x K2)"
    by (rule fs_open_arm [OF conjunct1 [OF wf1] K2(1)]) blast
  have h2: "healthy (kern ?s2)" using wf2 by simp
  obtain c3 where c3: "\<And>x. compact_segments clk [0] outf 0 (armed (c3 + x) ?s2) = (True, 1, armed x (?s2\<lparr>kern := K3\<rparr>))"
    by (rule compact_segments_arm [OF h2 K3(1)]) blast
  have all: "[0..<?n] = 0 # [1..<?n]" using n by (simp add: upt_conv_Cons)
  obtain ok cs s4 where s4: "compact_segments clk [0..<?n] outf 0 (armed c3 ?s2) = (ok, cs, s4)" by (rule prod_cases3)
  have k4: "kern s4 = arm 0 K3"
    using compact_segments_head_dead [OF c3 [of 0], of K3 "[1..<?n]"] s4 all by simp
  have upd: "(armed y u)\<lparr>kern := K\<rparr> = u\<lparr>kern := K\<rparr>" for y u K by (simp add: armed_def)
  have "s\<lparr>kern := arm c3 K2\<rparr> = armed c3 ?s2" by (simp add: armed_def)
  moreover have "prune_index_to_max_recs (armed c3 ?s2) = (0, armed c3 ?s2)" using nomax by (intro prune_off) (simp add: armed_def)
  ultimately have "compact clk (armed (c1 + (c2 + c3)) s) =
     (if \<not> ok then (False, if cs = 0 then clear_journal (fs_remove_in ?tmp s4) else s4)
      else let s = clear_journal (finalize_compaction (write_journal JOURNAL_COMMIT 0 0 s4))
           in (True, s\<lparr>dead_since_compact := 0\<rparr>))"
    using c1 [of "c2 + c3"] c2 [of c3] s4 by (simp add: compact_def Let_def upd)
  then have "kern (snd (compact clk (armed (c1 + (c2 + c3)) s))) = arm 0 K3"
    using k4 by (simp add: Let_def write_journal_dead [OF k4] clear_journal_def fs_remove_in_dead finalize_dead)
  moreover have "touches {?tmp, ?jn, segment_name ?p 0} (kern s) K3"
    using touches_trans [OF t12 K3(2)] by (rule touches_mono) auto
  ultimately show thesis using K3(3,4) by (intro that) auto
qed

section \<open>The recovery\<close>

lemma recover_compacting:
  assumes u: "healthy (kern u)" "kernel_wf (kern u)" "prefix_ok (base_prefix u)"
    and jn: "contents (kern u) (journal_name (base_prefix u)) = Some (enc_journal \<lparr>j_magic = JOURNAL_MAGIC,
       j_state = journal_state_code JOURNAL_COMPACTING, j_next_seg = n, j_tmp_valid_size = v\<rparr>)" "n \<noteq> 0"
    and tmp: "contents (kern u) (tmp_name (base_prefix u)) = Some bs"
  obtains K' where "recover_if_needed u = u\<lparr>kern := K'\<rparr>"
    "touches {tmp_name (base_prefix u), segment_name (base_prefix u) 0, journal_name (base_prefix u)} (kern u) K'"
    "contents K' (segment_name (base_prefix u) 0) = Some bs"
proof -
  let ?jn = "journal_name (base_prefix u)" and ?tmp = "tmp_name (base_prefix u)" and ?seg = "segment_name (base_prefix u) 0"
  let ?j = "\<lparr>j_magic = JOURNAL_MAGIC, j_state = journal_state_code JOURNAL_COMPACTING, j_next_seg = n, j_tmp_valid_size = v\<rparr>"
  obtain f where f: "fs_open ?jn ModeRead (kern u) = (Some f, kern u)" "file_readable f" "file_pos f = 0"
      "file_data (kern u) f = enc_journal ?j"
    by (rule fs_open_read_contents [OF jn(1)])
  have bs: "fst (file_read JOURNAL_SIZE f (kern u)) = enc_journal ?j"
    using f jrn.take_enc [of _ "[]"] by (simp add: fr.rd_bytes)
  obtain i where i: "dir (kern u) ?tmp = Some i" using tmp by (auto simp: contents_def)
  obtain K1 where K1: "fs_rename ?tmp ?seg (kern u) = (True, K1)" "touches {?tmp, ?seg} (kern u) K1"
      "contents K1 ?seg = contents (kern u) ?tmp"
    by (rule fs_rename_healthy [OF u(1,2) i, of ?seg]) (use u(3) in auto)
  note wf1 = touches_wf [OF K1(2)]
  note rm = touches_remove [OF conjunct1 [OF wf1] conjunct2 [OF wf1], of ?jn]
  have "journal_state_code JOURNAL_COMPACTING \<noteq> journal_state_code JOURNAL_COMMIT" by simp
  then have "recover_if_needed u = u\<lparr>kern := fs_remove ?jn K1\<rparr>"
    using f(1) bs K1(1) jn(2) jrn.dec_enc [of _ "[]"]
    by (simp add: recover_if_needed_def Let_def jrn.enc_length fs_remove_in_def)
  moreover have "touches {?tmp, ?seg, ?jn} (kern u) (fs_remove ?jn K1)"
    using touches_trans [OF K1(2) rm(1)] by (rule touches_mono) auto
  moreover have "contents (fs_remove ?jn K1) ?seg = Some bs"
    using K1(3) tmp u(3) by (simp add: rm(3))
  ultimately show thesis by (rule that)
qed

text \<open>The next boot finishes the copy that it finds, and keeps the index of before.\<close>

lemma boot_compacting:
  assumes disk: "disk_ok (kern s) (base_prefix s) (unat (segment_count s)) (index s)"
    and t: "healthy (kern t)" "kernel_wf (kern t)" "cold t" and n: "unat (segment_count s) \<noteq> 0"
    and same: "contents (kern t) (index_name (base_prefix s)) = contents (kern s) (index_name (base_prefix s))"
    and tmp: "contents (kern t) (tmp_name (base_prefix s)) = Some log"
      "contents (kern t) (journal_name (base_prefix s)) = Some (enc_journal \<lparr>j_magic = JOURNAL_MAGIC,
         j_state = journal_state_code JOURNAL_COMPACTING, j_next_seg = 1, j_tmp_valid_size = x\<rparr>)"
  obtains w where "store_init (base_prefix s) False seg_size (segment_count s) t = (True, w)"
    "map_of (index s) \<subseteq>\<^sub>m map_of (index w)" "base_prefix w = base_prefix s" "fs_valid w" "write_buf w = []"
    "policy_ttl_secs w = policy_ttl_secs t" "contents (kern w) (segment_name (base_prefix s) 0) = Some log"
proof -
  let ?p = "base_prefix s" and ?n = "unat (segment_count s)"
  let ?seg = "segment_name ?p 0" and ?tmp = "tmp_name ?p" and ?jn = "journal_name ?p"
  have p: "prefix_ok ?p" using disk by (simp add: disk_ok_def)
  obtain u where u: "store_init ?p False seg_size (segment_count s) t =
      (True, let s = open_index_for_append (prune_at_boot (load_or_rebuild (recover_if_needed u)))
             in snd (open_segment (resume_segment s) s))"
    "base_prefix u = ?p" "segment_count u = segment_count s" "fs_valid u" "index u = []" "write_buf u = []"
    "policy_max_recs u = 0" "policy_ttl_secs u = policy_ttl_secs t" "active_file u = active_file t"
    "healthy (kern u)" "kernel_wf (kern u)" "\<And>q. contents (kern u) q = contents (kern t) q"
    by (rule init_boot [OF t(1,2) p t(3) n]) blast
  obtain K' where K': "recover_if_needed u = u\<lparr>kern := K'\<rparr>" "touches {?tmp, ?seg, ?jn} (kern u) K'"
      "contents K' ?seg = Some log"
    using recover_compacting [of u 1 x, OF u(10,11)] u(2,12) p tmp by auto
  note wf' = touches_wf [OF K'(2)]
  obtain es where es: "contents (kern s) (index_name ?p) = Some (enc_entries es)"
      "\<forall>e \<in> set es. length (fst e) \<le> MAX_KEY_LEN" "map_of (index s) \<subseteq>\<^sub>m map_of (replay es)"
    using disk by (auto simp: disk_ok_def)
  let ?u = "u\<lparr>kern := K'\<rparr>"
  have ix: "contents (kern ?u) (index_name (base_prefix ?u)) = Some (enc_entries es @ [])"
    using touches_contents [OF K'(2), of "index_name ?p"] u(2,12) same es(1) p by simp
  have uu: "healthy (kern ?u)" "kernel_wf (kern ?u)" "index ?u = []" "policy_max_recs ?u = 0"
    using wf' u(5,7) by simp_all
  obtain w where w: "(let s = open_index_for_append (prune_at_boot (load_or_rebuild ?u))
      in snd (open_segment (resume_segment s) s)) = w"
    "index w = replay es" "base_prefix w = base_prefix ?u" "fs_valid w = fs_valid ?u" "write_buf w = write_buf ?u"
    "policy_ttl_secs w = policy_ttl_secs ?u"
    "\<And>q bs. contents (kern ?u) q = Some bs \<Longrightarrow> contents (kern w) q = Some bs"
    by (rule boot_index [OF uu ix parse_entries_Nil es(2)]) blast
  show thesis
  proof (rule that)
    show "store_init ?p False seg_size (segment_count s) t = (True, w)" unfolding u(1) K'(1) w(1) ..
  qed (use w(2-7) es(3) u K'(3) in simp_all)
qed

text \<open>C9: A power failure in a compaction, right after the first segment was removed, makes \<open>get\<close> return what now
  lies at the old offset: the next \<open>init\<close> adopts the copied records as segment 0 with the offsets of the
  old index, and a key whose old offset happens to be the offset of another record gets that record's
  value.\<close>

theorem crash_in_compaction_misplaces_records:
  assumes ok: "store_ok s" and t: "cold t" "policy_ttl_secs t = policy_ttl_secs s" and nomax: "policy_max_recs s = 0"
    and iv: "map_of (index s) k = Some iv" "iv_segment iv = 0"
      "\<not> is_ttl_expired clk' (iv_timestamp iv) (u24_get (iv_ttl iv)) s"
    and other: "wf_record (h, k', v)"
      "record_at (enc_log (live_records clk s 0)) (unat (u24_get (iv_offset iv))) (h, k', v)"
  shows "\<exists>c. let K = revive (kern (snd (compact clk (armed c s))));
       r = store_init (base_prefix s) False seg_size (segment_count s) (t\<lparr>kern := K\<rparr>)
     in fst r \<and> fst (store_get clk' k True out_size (snd r)) = Some (take (unat out_size) v, of_nat (length v))"
proof -
  let ?p = "base_prefix s" and ?n = "unat (segment_count s)"
  let ?seg = "segment_name ?p 0" and ?tmp = "tmp_name ?p" and ?jn = "journal_name ?p"
  have disk: "disk_ok (kern s) ?p ?n (index s)" and n: "?n \<noteq> 0" using ok by (auto simp: store_ok_def)
  have p: "prefix_ok ?p" using disk by (simp add: disk_ok_def)
  obtain c K x where K: "kern (snd (compact clk (armed c s))) = arm 0 K" "touches {?tmp, ?jn, ?seg} (kern s) K"
    "contents K ?tmp = Some (enc_log (live_records clk s 0))"
    "contents K ?jn = Some (enc_journal \<lparr>j_magic = JOURNAL_MAGIC,
       j_state = journal_state_code JOURNAL_COMPACTING, j_next_seg = 1, j_tmp_valid_size = x\<rparr>)"
    by (rule compact_crash_after_first [OF disk n nomax, of clk]) blast
  note wf = touches_wf [OF K(2)]
  let ?t = "t\<lparr>kern := K\<rparr>"
  have tt: "healthy (kern ?t)" "kernel_wf (kern ?t)" "cold ?t" using wf t(1) by (simp_all add: cold_def)
  have same: "contents (kern ?t) (index_name ?p) = contents (kern s) (index_name ?p)"
    using touches_contents [OF K(2), of "index_name ?p"] p by simp
  have tmp: "contents (kern ?t) ?tmp = Some (enc_log (live_records clk s 0))"
    "contents (kern ?t) ?jn = Some (enc_journal \<lparr>j_magic = JOURNAL_MAGIC,
       j_state = journal_state_code JOURNAL_COMPACTING, j_next_seg = 1, j_tmp_valid_size = x\<rparr>)"
    using K(3,4) by simp_all
  obtain w where w: "store_init ?p False seg_size (segment_count s) ?t = (True, w)"
    "map_of (index s) \<subseteq>\<^sub>m map_of (index w)" "base_prefix w = ?p" "fs_valid w" "write_buf w = []"
    "policy_ttl_secs w = policy_ttl_secs ?t" "contents (kern w) ?seg = Some (enc_log (live_records clk s 0))"
    by (rule boot_compacting [OF disk tt n same tmp]) blast
  have kw: "map_of (index w) k = Some iv" using iv(1) w(2) unfolding map_le_def by (metis domI)
  have len: "length k \<le> MAX_KEY_LEN" by (rule disk_ok_key_len [OF disk iv(1)])
  have c: "contents (kern w) (segment_name (base_prefix w) (unat (iv_segment iv))) = Some (enc_log (live_records clk s 0))"
    using w(3,7) iv(2) by simp
  have "\<not> is_ttl_expired clk' (iv_timestamp iv) (u24_get (iv_ttl iv)) w"
    using iv(3) w(6) t(2) by (simp add: is_ttl_expired_payload [of _ _ _ _ "[]" 0])
  with get_record [OF kw len w(5) w(4) _ c other(2,1), of clk' True out_size]
  have get: "fst (store_get clk' k True out_size w) = Some (take (unat out_size) v, of_nat (length v))" by simp
  have rev: "revive (kern (snd (compact clk (armed c s)))) = K" using K(1) wf by simp
  show ?thesis
    by (intro exI [of _ c], unfold Let_def rev w(1) fst_conv snd_conv) (intro conjI get TrueI)
qed

section \<open>A store where this happens\<close>

text \<open>Three records of the same size in segment 0, the first of them dead: the copied log has the third record
  where the second one was.\<close>

definition stale_rec :: "u8 \<Rightarrow> log_record" where
  "stale_rec i = (put_header [i] [i + 10] 0 90 0, [i], [i + 10])"

definition stale_index :: index_map where
  "stale_index = log_index (length (enc_log [stale_rec 0])) [stale_rec 1, stale_rec 2]"

definition stale_kernel :: kernel where
  "stale_kernel = \<lparr>dir = [segment_name ''s'' 0 \<mapsto> 0, index_name ''s'' \<mapsto> 1],
     inodes = (\<lambda>i. if i = 0 then enc_log [stale_rec 0, stale_rec 1, stale_rec 2]
                 else enc_entries (map entry_of stale_index)),
     next_ino = 2, subdirs = {}, faults = [], halted = False\<rparr>"

definition stale_store :: store where
  "stale_store = snd (open_segment 0 (open_index_for_append
     ((new_store 65536 2 stale_kernel)\<lparr>fs_valid := True, base_prefix := ''s'', index := stale_index\<rparr>)))"

lemma stale_rec_wf: "wf_record (stale_rec i)" "length (enc_rec (stale_rec i)) = 27" "rec_key (stale_rec i) = [i]"
  using wf_put_record [of "[i]" "[i + 10]"]
  by (simp_all add: stale_rec_def MAX_KEY_LEN_def MAX_VALUE_LEN_def enc_rec_def HEADER_SIZE_def COMMIT_SIZE_def)

lemma stale_rec_put: "is_put (stale_rec i)"
  using stale_rec_wf(1) [of i] by (simp add: is_put_def stale_rec_def)

lemma stale_index_eq:
  "stale_index = [([1], make_index_value 0 27 90 0 0), ([2], make_index_value 0 54 90 0 0)]"
  using stale_rec_wf(2) [of 0] stale_rec_wf(2) [of 1] by (simp add: stale_index_def stale_rec_def rec_size_def)

lemma stale_contents:
  "contents stale_kernel (segment_name ''s'' 0) = Some (enc_log [stale_rec 0, stale_rec 1, stale_rec 2])"
  "contents stale_kernel (index_name ''s'') = Some (enc_entries (map entry_of stale_index))"
  "contents stale_kernel (journal_name ''s'') = None" "contents stale_kernel (segment_name ''s'' 1) = None"
proof -
  have p: "prefix_ok ''s''" by (simp add: prefix_ok_def)
  have "segment_name ''s'' 1 \<noteq> segment_name ''s'' 0" using segment_name_inj [OF p, of 1 0] by simp
  with p show
    "contents stale_kernel (segment_name ''s'' 0) = Some (enc_log [stale_rec 0, stale_rec 1, stale_rec 2])"
    "contents stale_kernel (index_name ''s'') = Some (enc_entries (map entry_of stale_index))"
    "contents stale_kernel (journal_name ''s'') = None" "contents stale_kernel (segment_name ''s'' 1) = None"
    by (simp_all add: contents_def stale_kernel_def)
qed

lemma stale_entries:
  assumes "map_of stale_index k = Some iv"
  shows "entry_ok stale_kernel ''s'' 2 k iv" "\<exists>r \<in> {stale_rec 1, stale_rec 2}. rec_key r = k \<and> entry_record stale_kernel ''s'' iv = Some r"
proof -
  have "map_of (log_index (length (enc_log [stale_rec 0])) [stale_rec 1, stale_rec 2]) k = Some iv"
    using assms by (simp add: stale_index_def)
  from log_index_entry [OF this, of stale_kernel "''s''" 2]
  show "entry_ok stale_kernel ''s'' 2 k iv" "\<exists>r \<in> {stale_rec 1, stale_rec 2}. rec_key r = k \<and> entry_record stale_kernel ''s'' iv = Some r"
    by (simp_all add: stale_contents stale_rec_put stale_rec_wf)
qed

lemma stale_disk: "disk_ok stale_kernel ''s'' 2 stale_index"
proof -
  have p: "prefix_ok ''s''" by (simp add: prefix_ok_def)
  have d: "distinct_keys stale_index" by (simp add: stale_index_eq)
  have "kernel_wf stale_kernel" unfolding kernel_wf_alt using p by (auto simp: stale_kernel_def split: if_splits)
  moreover have "healthy stale_kernel" by (simp add: healthy_def stale_kernel_def)
  moreover have "\<forall>e \<in> set (map entry_of stale_index). length (fst e) \<le> MAX_KEY_LEN"
    by (simp add: stale_index_eq entry_of_def MAX_KEY_LEN_def)
  moreover have "\<forall>k iv. map_of (replay (map entry_of stale_index)) k = Some iv \<longrightarrow> entry_ok stale_kernel ''s'' 2 k iv"
    using stale_entries(1) unfolding replay_entry_of [OF d] by blast
  moreover have "map_of stale_index \<subseteq>\<^sub>m map_of (replay (map entry_of stale_index))"
    unfolding replay_entry_of [OF d] by simp
  ultimately show ?thesis
    unfolding disk_ok_def using p d stale_contents(2,3) by blast
qed

lemma stale_store:
  "store_ok stale_store" "base_prefix stale_store = ''s''" "segment_count stale_store = 2"
  "index stale_store = stale_index" "policy_max_recs stale_store = 0" "policy_ttl_secs stale_store = 0"
  "contents (kern stale_store) (segment_name ''s'' 0) = Some (enc_log [stale_rec 0, stale_rec 1, stale_rec 2])"
  "visible demo_clock stale_store [1] = Some ([11], 90, 0, 0)"
proof -
  let ?v = "(new_store 65536 2 stale_kernel)\<lparr>fs_valid := True, base_prefix := ''s'', index := stale_index\<rparr>"
  have p: "prefix_ok ''s''" and wf: "healthy stale_kernel" "kernel_wf stale_kernel"
    using stale_disk by (simp_all add: disk_ok_def)
  have v: "kern ?v = stale_kernel" "base_prefix ?v = ''s''" "segment_count ?v = 2" "index ?v = stale_index"
      "fs_valid ?v" "write_buf ?v = []" "policy_max_recs ?v = 0" "policy_ttl_secs ?v = 0"
    by (simp_all add: new_store_def)
  obtain g where g: "open_index_for_append ?v = ?v\<lparr>index_file := Some g,
      kern := create_ino (index_name (base_prefix ?v)) (kern ?v)\<rparr>"
    "handle_on (Some g) (index_name (base_prefix ?v)) (create_ino (index_name (base_prefix ?v)) (kern ?v))"
    by (rule open_index_ok [of ?v]) (use wf(1) v(1) in auto)
  obtain j where "dir stale_kernel (index_name ''s'') = Some j" using stale_contents(2) by (auto simp: contents_def)
  from create_existing [OF this] have cr: "create_ino (index_name (base_prefix ?v)) (kern ?v) = stale_kernel"
    using v(1,2) by simp
  define w where "w = ?v\<lparr>index_file := Some g, kern := stale_kernel\<rparr>"
  have ow: "open_index_for_append ?v = w" using g(1) cr by (simp add: w_def)
  have w: "kern w = stale_kernel" "base_prefix w = ''s''" "segment_count w = 2" "index w = stale_index"
      "fs_valid w" "write_buf w = []" "policy_max_recs w = 0" "policy_ttl_secs w = 0" "index_file w = Some g"
    using v by (simp_all add: w_def)
  have c: "(0 :: nat) < unat (segment_count w)" "2 \<le> unat (segment_count w)" by (simp_all add: w(3))
  have dw: "disk_ok (kern w) (base_prefix w) (unat (segment_count w)) (index w)" using stale_disk by (simp add: w)
  have hh: "\<forall>i. 0 < i \<longrightarrow> i < unat (segment_count w) \<longrightarrow> contents (kern w) (segment_name (base_prefix w) i) = None"
    using stale_contents(4) by (auto simp: w less_2_cases_iff)
  have hw: "handle_on (index_file w) (index_name (base_prefix w)) (kern w)" using g(2) cr v(2) by (simp add: w)
  note op = store_ok_opened [OF w(5) c(2) w(6) dw c(1) hh hw]
  have st: "stale_store = snd (open_segment 0 w)" unfolding stale_store_def ow ..
  show "store_ok stale_store" using op(1) by (simp add: st)
  show "base_prefix stale_store = ''s''" "segment_count stale_store = 2" "index stale_store = stale_index"
    "policy_max_recs stale_store = 0" "policy_ttl_secs stale_store = 0"
    using op(3,4) by (simp_all add: st same_config_def w)
  obtain i where "dir stale_kernel (segment_name ''s'' 0) = Some i" using stale_contents(1) by (auto simp: contents_def)
  then have seg: "create_ino (segment_name (base_prefix w) 0) (kern w) = stale_kernel"
    by (simp add: create_existing w(1,2))
  have "kern (snd (open_segment 0 w)) = create_ino (segment_name (base_prefix w) 0) (kern w)"
    by (rule open_segment_shape [of w 0]) (use wf w(1) in auto)
  then have "kern stale_store = stale_kernel" by (simp add: st seg)
  then show "contents (kern stale_store) (segment_name ''s'' 0) = Some (enc_log [stale_rec 0, stale_rec 1, stale_rec 2])"
    by (simp add: stale_contents)
  have "map_of stale_index [1] \<noteq> None" by (simp add: stale_index_eq)
  then obtain iv where iv: "map_of stale_index [1] = Some iv" by blast
  have "stored w [1] = Some (payload_of (stale_rec 1))"
    using stale_entries(2) [OF iv] iv by (auto simp: stored_def w stale_rec_wf)
  then have "stored stale_store [1] = Some ([11], 90, 0, 0)"
    using op(2) by (simp add: st stale_rec_def payload_of_def)
  then show "visible demo_clock stale_store [1] = Some ([11], 90, 0, 0)"
    using op(3) by (simp add: visible_def expired_def st same_config_def w)
qed

lemma stale_live: "live_records demo_clock stale_store 0 = [stale_rec 1, stale_rec 2]"
proof -
  let ?bs = "enc_log [stale_rec 0, stale_rec 1, stale_rec 2]"
  have "live_offsets demo_clock 0 stale_store = [27, 54]"
    by (simp add: live_offsets_def stale_store stale_index_eq make_index_value_def is_ttl_expired_def)
  moreover have "fetch_record ?bs 27 = stale_rec 1"
    using record_at_here [of "enc_rec (stale_rec 0)" "stale_rec 1" "enc_rec (stale_rec 2)"]
    by (intro fetch_record_eq) (simp_all add: stale_rec_wf)
  moreover have "fetch_record ?bs 54 = stale_rec 2"
    using record_at_here [of "enc_rec (stale_rec 0) @ enc_rec (stale_rec 1)" "stale_rec 2" "[]"]
    by (intro fetch_record_eq) (simp_all add: stale_rec_wf)
  ultimately show ?thesis by (simp add: live_records_def stale_store)
qed

theorem crash_in_compaction_misplaces_records_witness:
  "visible demo_clock stale_store [1] = Some ([11], 90, 0, 0) \<and>
   (\<exists>c. fst (store_get demo_clock [1] True 10 (snd (store_init ''s'' False 65536 2
     (new_store 0 0 (revive (kern (snd (compact demo_clock (armed c stale_store))))))))) = Some ([12], 1))"
proof -
  let ?iv = "make_index_value 0 27 90 0 0"
  have k: "map_of (index stale_store) [1] = Some ?iv" by (simp add: stale_store stale_index_eq)
  have seg: "iv_segment ?iv = 0" and off: "unat (u24_get (iv_offset ?iv)) = 27"
    by (simp_all add: make_index_value_def)
  have live: "\<not> is_ttl_expired demo_clock (iv_timestamp ?iv) (u24_get (iv_ttl ?iv)) stale_store"
    by (simp add: make_index_value_def is_ttl_expired_def stale_store)
  have wf: "wf_record (put_header [2] [12] 0 90 0, [2], [12])" using stale_rec_wf(1) [of 2] by (simp add: stale_rec_def)
  have at: "record_at (enc_log (live_records demo_clock stale_store 0)) (unat (u24_get (iv_offset ?iv)))
      (put_header [2] [12] 0 90 0, [2], [12])"
    using record_at_here [of "enc_rec (stale_rec 1)" "stale_rec 2" "[]"]
    unfolding off stale_live by (simp add: stale_rec_wf) (simp add: stale_rec_def)
  have ttl: "policy_ttl_secs (new_store 0 0 empty_kernel) = policy_ttl_secs stale_store"
    by (simp add: new_store_def stale_store)
  note r = crash_in_compaction_misplaces_records [OF stale_store(1) cold_new ttl stale_store(5) k seg live wf at,
      of 65536 10, unfolded Let_def stale_store(2,3) new_store_kern]
  from r obtain c where "fst (store_get demo_clock [1] True 10 (snd (store_init ''s'' False 65536 2
     (new_store 0 0 (revive (kern (snd (compact demo_clock (armed c stale_store))))))))) =
     Some (take (unat (10 :: u16)) [12], of_nat (length [12 :: u8]))" by blast
  then show ?thesis using stale_store(8) by (intro conjI exI [of _ c]) simp_all
qed

end
