(* ===== verification/StdioFileSystem.thy ===== *)
theory StdioFileSystem
  imports FileIO
begin

text \<open>
  \<open>Adapters/StdioFileSystem.h\<close>, over the streams of the C library, and \<open>Adapters/NoopFileSystem.h\<close>. A stream
  keeps what was written in a buffer, until the buffer is full (its size is the argument \<open>cap\<close>) or the
  stream is flushed, repositioned or closed; it repeats \<open>write\<close> calls that store a part of the bytes, and
  the bytes left at an error are discarded. Its read buffer is not modelled: a read sees the contents of
  the file, so that the model is right as long as nobody else writes the file between two reads.
\<close>

section \<open>Streams\<close>

record stream =
  st_fd :: ofd
  st_buf :: bytes

text \<open>The bytes that could not be stored are returned.\<close>

function drain :: "bytes \<Rightarrow> ofd \<Rightarrow> kernel \<Rightarrow> bytes \<times> ofd \<times> kernel" where
  "drain bs d K =
     (if bs = [] then ([], d, K)
      else case sys_write bs d K of
          (None, d, K) \<Rightarrow> (bs, d, K)
        | (Some n, d, K) \<Rightarrow> if n = 0 then (bs, d, K) else drain (drop n bs) d K)"
  by pat_completeness auto
termination
  by (relation "measure (\<lambda>(bs, d, K). length bs)") auto

declare drain.simps [simp del]

definition c_fflush :: "stream \<Rightarrow> kernel \<Rightarrow> bool \<times> stream \<times> kernel" where
  "c_fflush f K = (case drain (st_buf f) (st_fd f) K of
     (rest, d, K) \<Rightarrow> (rest = [], f\<lparr>st_fd := d, st_buf := []\<rparr>, K))"

definition c_fwrite :: "nat \<Rightarrow> bytes \<Rightarrow> stream \<Rightarrow> kernel \<Rightarrow> nat \<times> stream \<times> kernel" where
  "c_fwrite cap bs f K =
     (if \<not> o_wr (st_fd f) then (0, f, K)
      else let buf = st_buf f @ bs in
        if length buf < cap then (length bs, f\<lparr>st_buf := buf\<rparr>, K)
        else case drain buf (st_fd f) K of
          (rest, d, K) \<Rightarrow> (length bs - min (length rest) (length bs), f\<lparr>st_fd := d, st_buf := []\<rparr>, K))"

definition c_fread :: "nat \<Rightarrow> stream \<Rightarrow> kernel \<Rightarrow> bytes \<times> stream \<times> kernel" where
  "c_fread n f K = (case c_fflush f K of
     (_, f, K) \<Rightarrow> (case sys_read n (st_fd f) K of
         (None, d) \<Rightarrow> ([], f\<lparr>st_fd := d\<rparr>, K)
       | (Some bs, d) \<Rightarrow> (bs, f\<lparr>st_fd := d\<rparr>, K)))"

definition c_ftell :: "stream \<Rightarrow> kernel \<Rightarrow> nat" where
  "c_ftell f K =
     (let d = st_fd f in
      if st_buf f = [] then o_pos d
      else (if o_append d then sys_size d K else o_pos d) + length (st_buf f))"

text \<open>Seeking flushes first; an offset given as \<open>uint32_t\<close> is never negative, so it succeeds.\<close>

definition c_fseek :: "nat \<Rightarrow> whence \<Rightarrow> stream \<Rightarrow> kernel \<Rightarrow> stream \<times> kernel" where
  "c_fseek pos w f K = (case c_fflush f K of
     (_, f, K) \<Rightarrow> (f\<lparr>st_fd := snd (sys_lseek pos w (st_fd f) K)\<rparr>, K))"

text \<open>Where a stream opened for appending starts is left to the C library: glibc puts \<open>"a"\<close> at the end of the
  file and \<open>"a+"\<close> at its beginning, newlib puts both at the end. The argument \<open>at_end\<close> tells, for each mode.\<close>

definition appending :: "file_mode \<Rightarrow> bool" where
  "appending m \<longleftrightarrow> m = ModeAppend \<or> m = ModeReadAppend"

definition c_fopen :: "(file_mode \<Rightarrow> bool) \<Rightarrow> string \<Rightarrow> file_mode \<Rightarrow> kernel \<Rightarrow> stream option \<times> kernel" where
  "c_fopen at_end path m K = (case sys_open path (posix_flags m) K of
      (None, K) \<Rightarrow> (None, K)
    | (Some d, K) \<Rightarrow>
        (Some \<lparr>st_fd = (if appending m \<and> at_end m then d\<lparr>o_pos := sys_size d K\<rparr> else d), st_buf = []\<rparr>, K))"

text \<open>\<open>remove\<close> of the C library unlinks a file and removes a directory.\<close>

definition c_remove :: "string \<Rightarrow> kernel \<Rightarrow> bool \<times> kernel" where
  "c_remove path K = (if path \<in> subdirs K then sys_rmdir path K else sys_unlink path K)"

section \<open>FileImpl\<close>

record stdio_file =
  sf_file :: "stream option"
  sf_closed :: bool
  sf_avail :: u64

definition sf_size :: "stdio_file \<Rightarrow> kernel \<Rightarrow> nat" where
  "sf_size f K = (case sf_file f of None \<Rightarrow> 0 | Some s \<Rightarrow> sys_size (st_fd s) K)"

definition sf_new :: "stream \<Rightarrow> kernel \<Rightarrow> stdio_file" where
  "sf_new s K = \<lparr>sf_file = Some s, sf_closed = False, sf_avail = of_nat (sys_size (st_fd s) K)\<rparr>"

definition sf_close :: "stdio_file \<Rightarrow> kernel \<Rightarrow> stdio_file \<times> kernel" where
  "sf_close f K = (case sf_file f of
      None \<Rightarrow> (f\<lparr>sf_closed := True\<rparr>, K)
    | Some s \<Rightarrow> (f\<lparr>sf_file := None, sf_closed := True\<rparr>, snd (snd (c_fflush s K))))"

definition sf_read1 :: "stdio_file \<Rightarrow> kernel \<Rightarrow> u8 option \<times> stdio_file \<times> kernel" where
  "sf_read1 f K =
     (if sf_avail f = 0 then (None, f, K)
      else case sf_file f of
        None \<Rightarrow> (None, f, K)
      | Some s \<Rightarrow> (case c_fread 1 s K of
          ([ch], s, K) \<Rightarrow> (Some ch, f\<lparr>sf_file := Some s, sf_avail := sf_avail f - 1\<rparr>, K)
        | (_, s, K) \<Rightarrow> (None, f\<lparr>sf_file := Some s\<rparr>, K)))"

definition sf_write1 :: "nat \<Rightarrow> u8 \<Rightarrow> stdio_file \<Rightarrow> kernel \<Rightarrow> nat \<times> stdio_file \<times> kernel" where
  "sf_write1 cap ch f K = (case sf_file f of
      None \<Rightarrow> (0, f, K)
    | Some s \<Rightarrow> (case c_fwrite cap [ch] s K of
        (n, s, K) \<Rightarrow>
          if n = 0 then (0, f\<lparr>sf_file := Some s\<rparr>, K)
          else (1, f\<lparr>sf_file := Some s,
                     sf_avail := (if sf_avail f > 0 then sf_avail f - 1 else 0)\<rparr>, K)))"

definition sf_read_bytes :: "nat \<Rightarrow> stdio_file \<Rightarrow> kernel \<Rightarrow> bytes \<times> stdio_file \<times> kernel" where
  "sf_read_bytes n f K = (case sf_file f of
      None \<Rightarrow> ([], f, K)
    | Some s \<Rightarrow> (case c_fread n s K of
        (bs, s, K) \<Rightarrow> (bs, f\<lparr>sf_file := Some s, sf_avail := sf_avail f - of_nat (length bs)\<rparr>, K)))"

definition sf_write_bytes :: "nat \<Rightarrow> bytes \<Rightarrow> stdio_file \<Rightarrow> kernel \<Rightarrow> nat \<times> stdio_file \<times> kernel" where
  "sf_write_bytes cap bs f K = (case sf_file f of
      None \<Rightarrow> (0, f, K)
    | Some s \<Rightarrow> (case c_fwrite cap bs s K of
        (n, s, K) \<Rightarrow>
          (n, f\<lparr>sf_file := Some s,
                sf_avail := (if of_nat n \<le> sf_avail f then sf_avail f - of_nat n else 0)\<rparr>, K)))"

definition sf_available :: "stdio_file \<Rightarrow> int" where
  "sf_available f = sint (ucast (sf_avail f) :: u32)"

text \<open>A byte read by \<open>fgetc\<close> and put back by \<open>ungetc\<close> is read again.\<close>

definition sf_peek :: "stdio_file \<Rightarrow> kernel \<Rightarrow> u8 option \<times> stdio_file \<times> kernel" where
  "sf_peek f K =
     (if sf_avail f = 0 then (None, f, K)
      else case sf_file f of
        None \<Rightarrow> (None, f, K)
      | Some s \<Rightarrow> (case c_fflush s K of
          (_, s, K) \<Rightarrow> (case sys_read 1 (st_fd s) K of
              (Some [ch], _) \<Rightarrow> (Some ch, f\<lparr>sf_file := Some s\<rparr>, K)
            | _ \<Rightarrow> (None, f\<lparr>sf_file := Some s\<rparr>, K))))"

definition sf_tell :: "stdio_file \<Rightarrow> kernel \<Rightarrow> nat" where
  "sf_tell f K = (case sf_file f of None \<Rightarrow> 0 | Some s \<Rightarrow> c_ftell s K)"

text \<open>The result of \<open>seek\<close> is that of \<open>fseek\<close>: 0, where the POSIX adapter returns the new position.\<close>

definition sf_seek :: "nat \<Rightarrow> seek_mode \<Rightarrow> stdio_file \<Rightarrow> kernel \<Rightarrow> nat \<times> stdio_file \<times> kernel" where
  "sf_seek pos mode f K = (case sf_file f of
      None \<Rightarrow> (0, f, K)
    | Some s \<Rightarrow>
      (let w = (case mode of SeekModeCur \<Rightarrow> SEEK_CUR | SeekModeEnd \<Rightarrow> SEEK_END | SeekModeSet \<Rightarrow> SEEK_SET);
           (s, K) = c_fseek pos w s K;
           new_pos = c_ftell s K;
           file_size = sys_size (st_fd s) K
       in (0, f\<lparr>sf_file := Some s,
               sf_avail := (if new_pos \<le> file_size then of_nat (file_size - new_pos) else 0)\<rparr>, K)))"

definition sf_flush :: "stdio_file \<Rightarrow> kernel \<Rightarrow> stdio_file \<times> kernel" where
  "sf_flush f K = (case sf_file f of
      None \<Rightarrow> (f, K)
    | Some s \<Rightarrow> (case c_fflush s K of (_, s, K) \<Rightarrow> (f\<lparr>sf_file := Some s\<rparr>, K)))"

definition sf_is_valid :: "stdio_file \<Rightarrow> bool" where
  "sf_is_valid f \<longleftrightarrow> sf_file f \<noteq> None \<and> \<not> sf_closed f"

section \<open>FileSystemImpl\<close>

definition stdio_format :: "kernel \<Rightarrow> bool \<times> kernel" where
  "stdio_format K = (False, K)"

definition stdio_open :: "(file_mode \<Rightarrow> bool) \<Rightarrow> string \<Rightarrow> file_mode \<Rightarrow> kernel \<Rightarrow> stdio_file option \<times> kernel" where
  "stdio_open at_end path m K = (case c_fopen at_end path m K of
      (None, K) \<Rightarrow> (None, K)
    | (Some s, K) \<Rightarrow> (Some (sf_new s K), K))"

definition stdio_exists :: "(file_mode \<Rightarrow> bool) \<Rightarrow> string \<Rightarrow> kernel \<Rightarrow> bool" where
  "stdio_exists at_end path K \<longleftrightarrow> fst (c_fopen at_end path ModeRead K) \<noteq> None"

definition stdio_remove :: "string \<Rightarrow> kernel \<Rightarrow> bool \<times> kernel" where
  "stdio_remove path K = c_remove path K"

definition stdio_rename :: "string \<Rightarrow> string \<Rightarrow> kernel \<Rightarrow> bool \<times> kernel" where
  "stdio_rename a b K = sys_rename a b K"

definition stdio_is_directory :: "string \<Rightarrow> kernel \<Rightarrow> bool" where
  "stdio_is_directory path K \<longleftrightarrow> path \<in> subdirs K"

definition stdio_mkdir :: "string \<Rightarrow> kernel \<Rightarrow> bool \<times> kernel" where
  "stdio_mkdir path K =
     (if path \<in> subdirs K then (True, K)
      else if dir K path \<noteq> None then (False, K)
      else sys_mkdir path K)"

definition stdio_rmdir :: "string \<Rightarrow> kernel \<Rightarrow> bool \<times> kernel" where
  "stdio_rmdir path K = (case sys_rmdir path K of (ok, K) \<Rightarrow> (if ok then (False, K) else (True, K)))"

definition stdio_init :: "(file_mode \<Rightarrow> bool) \<Rightarrow> nat \<Rightarrow> bool \<Rightarrow> kernel \<Rightarrow> bool \<times> kernel" where
  "stdio_init at_end cap reformatOnFail K =
     (if \<not> reformatOnFail then (True, K)
      else
        let (init_test, K) = stdio_open at_end ''./__init_test__'' ModeWrite K;
            (verified, K) = (case init_test of
                None \<Rightarrow> (False, K)
              | Some f \<Rightarrow> (case sf_write_bytes cap (map (\<lambda>c. of_char c) ''test'') f K of
                    (n, f, K) \<Rightarrow> (n = 4, snd (sf_close f K))))
        in if \<not> verified then (True, snd (stdio_format K))
           else (True, snd (stdio_remove ''./__init_test__'' K)))"

definition stdio_list :: "(string \<Rightarrow> kernel \<Rightarrow> string list option) \<Rightarrow> string \<Rightarrow> bool \<Rightarrow> kernel \<Rightarrow> string list \<times> string list" where
  "stdio_list readdir path callback K = (case readdir path K of
      None \<Rightarrow> ([], [])
    | Some entries \<Rightarrow>
        (let names = filter (\<lambda>n. n \<noteq> ''.'' \<and> n \<noteq> ''..'') entries
         in if callback then ([], names) else (names, [])))"

definition sf_name :: "stdio_file \<Rightarrow> string option" where
  "sf_name f = None"

definition stdio_storage_size :: nat where
  "stdio_storage_size = 0"

definition stdio_storage_available :: nat where
  "stdio_storage_available = 0"

section \<open>NoopFileSystem\<close>

text \<open>Every operation of \<open>NoopFileSystem\<close> fails, and its files are never valid and hold nothing.\<close>

definition noop_open :: "string \<Rightarrow> file_mode \<Rightarrow> kernel \<Rightarrow> fhandle option \<times> kernel" where
  "noop_open path m K = (None, K)"

definition noop_exists :: "string \<Rightarrow> kernel \<Rightarrow> bool" where
  "noop_exists path K = False"

definition noop_remove :: "string \<Rightarrow> kernel \<Rightarrow> bool \<times> kernel" where
  "noop_remove path K = (False, K)"

definition noop_rename :: "string \<Rightarrow> string \<Rightarrow> kernel \<Rightarrow> bool \<times> kernel" where
  "noop_rename a b K = (False, K)"

definition noop_mkdir :: "string \<Rightarrow> kernel \<Rightarrow> bool \<times> kernel" where
  "noop_mkdir path K = (False, K)"

definition noop_rmdir :: "string \<Rightarrow> kernel \<Rightarrow> bool \<times> kernel" where
  "noop_rmdir path K = (False, K)"

definition noop_init :: "bool \<Rightarrow> kernel \<Rightarrow> bool \<times> kernel" where
  "noop_init reformatOnFail K = (False, K)"

definition noop_format :: "kernel \<Rightarrow> bool \<times> kernel" where
  "noop_format K = (False, K)"

definition noop_is_directory :: "string \<Rightarrow> kernel \<Rightarrow> bool" where
  "noop_is_directory path K = False"

definition noop_storage_size :: nat where
  "noop_storage_size = 0"

definition noop_storage_available :: nat where
  "noop_storage_available = 0"

section \<open>The two adapters agree\<close>

lemma drain_tail:
  assumes "healthy K" "o_ino d = i" "o_wr d" "o_append d \<or> o_pos d = length (inodes K i)"
  shows "drain bs d K = ([], if bs = [] then d else d\<lparr>o_pos := length (inodes K i) + length bs\<rparr>, append_ino i bs K)"
  using sys_write_tail [OF assms, of bs] by (simp add: drain.simps [of bs] drain.simps [of "[]"])

text \<open>A stream and a descriptor after the same writes: what the stream still holds is at the end of the file
  of the descriptor. The positions agree, unless the stream was opened at the end for appending and nothing
  has been written yet.\<close>

definition in_step :: "bool \<Rightarrow> nat \<Rightarrow> stdio_file \<Rightarrow> kernel \<Rightarrow> pfile \<Rightarrow> kernel \<Rightarrow> bool" where
  "in_step moved i f K g Kp \<longleftrightarrow> sf_avail f = pf_avail g \<and> sf_closed f = pf_closed g \<and> healthy K \<and>
     (\<exists>s d. sf_file f = Some s \<and> pf_fd g = Some d \<and> o_ino (st_fd s) = i \<and> o_wr (st_fd s) \<and>
        (o_append (st_fd s) \<or> o_pos (st_fd s) = length (inodes K i) \<and> o_pos d = length (inodes Kp i)) \<and>
        Kp = append_ino i (st_buf s) K \<and> d = (st_fd s)\<lparr>o_pos := o_pos d\<rparr> \<and>
        (if moved then o_pos d = c_ftell s K
         else st_buf s = [] \<and> o_pos d = 0 \<and> o_pos (st_fd s) = length (inodes K i)))"

lemma in_step_write:
  assumes "in_step moved i f K g Kp"
  obtains f' K' g' Kp' where "sf_write_bytes cap bs f K = (length bs, f', K')"
    "pf_write_bytes bs g Kp = (length bs, g', Kp')" "in_step (moved \<or> bs \<noteq> []) i f' K' g' Kp'"
proof -
  obtain s d where s: "sf_file f = Some s" "o_ino (st_fd s) = i" "o_wr (st_fd s)"
      "o_append (st_fd s) \<or> o_pos (st_fd s) = length (inodes K i) \<and> o_pos d = length (inodes Kp i)"
      "Kp = append_ino i (st_buf s) K" "pf_fd g = Some d" "d = (st_fd s)\<lparr>o_pos := o_pos d\<rparr>" "healthy K"
      "if moved then o_pos d = c_ftell s K
       else st_buf s = [] \<and> o_pos d = 0 \<and> o_pos (st_fd s) = length (inodes K i)"
    using assms unfolding in_step_def by blast
  have same: "o_ino d = i" "o_wr d" "o_append d = o_append (st_fd s)"
    using s(2,3) by (subst s(7), simp)+
  have d: "healthy Kp" "o_append d \<or> o_pos d = length (inodes Kp i)" using s(4,5,8) same by auto
  let ?d = "if bs = [] then d else d\<lparr>o_pos := length (inodes Kp i) + length bs\<rparr>"
  let ?g = "g\<lparr>pf_fd := Some ?d, pf_avail := (if of_nat (length bs) \<le> pf_avail g then pf_avail g - of_nat (length bs) else 0)\<rparr>"
  have pw: "pf_write_bytes bs g Kp = (length bs, ?g, append_ino i bs Kp)"
    using s(6) sys_write_tail [OF d(1) same(1,2) d(2), of bs] by (simp add: pf_write_bytes_def)
  have "d\<lparr>o_pos := x\<rparr> = (st_fd s)\<lparr>o_pos := x\<rparr>" for x by (subst s(7)) simp
  then have d': "?d = (st_fd s)\<lparr>o_pos := o_pos ?d\<rparr>" using s(7) by simp
  have tail: "o_append (st_fd s) \<or> o_pos (st_fd s) = length (inodes K i)" using s(4) by auto
  let ?buf = "st_buf s @ bs"
  let ?av = "if of_nat (length bs) \<le> sf_avail f then sf_avail f - of_nat (length bs) else (0 :: u64)"
  show thesis
  proof (cases "length ?buf < cap")
    case True
    let ?f = "f\<lparr>sf_file := Some (s\<lparr>st_buf := ?buf\<rparr>), sf_avail := ?av\<rparr>"
    have "sf_write_bytes cap bs f K = (length bs, ?f, K)"
      using s(1,3) True by (simp add: sf_write_bytes_def c_fwrite_def Let_def)
    moreover have "in_step (moved \<or> bs \<noteq> []) i ?f K ?g (append_ino i bs Kp)"
      using assms s same d' by (auto simp: in_step_def c_ftell_def sys_size_def Let_def)
    ultimately show thesis using pw by (intro that)
  next
    case False
    let ?s = "s\<lparr>st_fd := if ?buf = [] then st_fd s else (st_fd s)\<lparr>o_pos := length (inodes K i) + length ?buf\<rparr>, st_buf := []\<rparr>"
    let ?f = "f\<lparr>sf_file := Some ?s, sf_avail := ?av\<rparr>"
    have "sf_write_bytes cap bs f K = (length bs, ?f, append_ino i ?buf K)"
      using s(1,3) False drain_tail [OF s(8,2,3) tail, of ?buf]
      by (simp add: sf_write_bytes_def c_fwrite_def Let_def)
    moreover have "in_step (moved \<or> bs \<noteq> []) i ?f (append_ino i ?buf K) ?g (append_ino i bs Kp)"
      using assms s same d' by (auto simp: in_step_def c_ftell_def sys_size_def Let_def)
    ultimately show thesis using pw by (intro that)
  qed
qed

text \<open>Writes in sequence, with their results.\<close>

fun sf_write_seq :: "nat \<Rightarrow> bytes list \<Rightarrow> stdio_file \<Rightarrow> kernel \<Rightarrow> nat list \<times> stdio_file \<times> kernel" where
  "sf_write_seq cap [] f K = ([], f, K)"
| "sf_write_seq cap (b # bs) f K = (case sf_write_bytes cap b f K of
     (n, f, K) \<Rightarrow> (case sf_write_seq cap bs f K of (ns, f, K) \<Rightarrow> (n # ns, f, K)))"

fun pf_write_seq :: "bytes list \<Rightarrow> pfile \<Rightarrow> kernel \<Rightarrow> nat list \<times> pfile \<times> kernel" where
  "pf_write_seq [] f K = ([], f, K)"
| "pf_write_seq (b # bs) f K = (case pf_write_bytes b f K of
     (n, f, K) \<Rightarrow> (case pf_write_seq bs f K of (ns, f, K) \<Rightarrow> (n # ns, f, K)))"

lemma in_step_writes:
  assumes "in_step moved i f K g Kp"
  obtains f' K' g' Kp' where "sf_write_seq cap bss f K = (map length bss, f', K')"
    "pf_write_seq bss g Kp = (map length bss, g', Kp')" "in_step (moved \<or> concat bss \<noteq> []) i f' K' g' Kp'"
  using assms
proof (induction bss arbitrary: moved f K g Kp thesis)
  case Nil
  then show ?case by simp
next
  case (Cons b bss)
  obtain f1 K1 g1 Kp1 where 1: "sf_write_bytes cap b f K = (length b, f1, K1)"
    "pf_write_bytes b g Kp = (length b, g1, Kp1)" "in_step (moved \<or> b \<noteq> []) i f1 K1 g1 Kp1"
    by (rule in_step_write [OF Cons.prems(2)]) blast
  obtain f' K' g' Kp' where "sf_write_seq cap bss f1 K1 = (map length bss, f', K')"
    "pf_write_seq bss g1 Kp1 = (map length bss, g', Kp')"
    "in_step ((moved \<or> b \<noteq> []) \<or> concat bss \<noteq> []) i f' K' g' Kp'"
    using Cons.IH [OF _ 1(3)] by blast
  moreover have "((moved \<or> b \<noteq> []) \<or> concat bss \<noteq> []) = (moved \<or> concat (b # bss) \<noteq> [])" by auto
  ultimately show ?case
    using 1 by (intro Cons.prems(1) [where f' = f' and K' = K' and g' = g' and Kp' = Kp']) simp_all
qed

text \<open>The flush brings the disks together.\<close>

lemma in_step_flush:
  assumes "in_step moved i f K g Kp"
  shows "snd (sf_flush f K) = Kp" "sf_available (fst (sf_flush f K)) = pf_available g"
    "sf_tell (fst (sf_flush f K)) Kp = (if moved then pf_tell g else pf_size g Kp)"
proof -
  obtain s d where s: "sf_file f = Some s" "o_ino (st_fd s) = i" "o_wr (st_fd s)"
      "o_append (st_fd s) \<or> o_pos (st_fd s) = length (inodes K i)" "healthy K"
      "Kp = append_ino i (st_buf s) K" "pf_fd g = Some d" "d = (st_fd s)\<lparr>o_pos := o_pos d\<rparr>"
      "if moved then o_pos d = c_ftell s K
       else st_buf s = [] \<and> o_pos d = 0 \<and> o_pos (st_fd s) = length (inodes K i)"
    using assms unfolding in_step_def by blast
  note dr = drain_tail [OF s(5,2,3,4), of "st_buf s"]
  show "snd (sf_flush f K) = Kp" using s(1,6) dr by (simp add: sf_flush_def c_fflush_def)
  show "sf_available (fst (sf_flush f K)) = pf_available g"
    using assms s(1) dr by (simp add: sf_flush_def c_fflush_def sf_available_def pf_available_def in_step_def)
  have "o_ino d = i" by (subst s(8)) (simp add: s(2))
  then show "sf_tell (fst (sf_flush f K)) Kp = (if moved then pf_tell g else pf_size g Kp)"
    using s dr by (auto simp: sf_flush_def c_fflush_def sf_tell_def c_ftell_def pf_tell_def pf_size_def sys_size_def Let_def
        split: if_splits)
qed

lemma open_in_step:
  assumes "healthy K" "kernel_wf K" "m \<noteq> ModeRead"
  obtains f g i K' where "stdio_open at_end p m K = (Some f, K')" "posix_open p m K = (Some g, K')"
    "in_step (\<not> (appending m \<and> at_end m)) i f K' g K'"
proof -
  obtain d K' where o: "sys_open p (posix_flags m) K = (Some d, K')" "healthy K'" "o_wr d" "o_pos d = 0"
      "o_append d \<longleftrightarrow> appending m" "appending m \<or> inodes K' (o_ino d) = []"
    using assms(1,3) by (cases m; cases "dir K p")
      (auto simp: sys_open_def posix_flags_def open_desc_def appending_def Let_def)
  let ?d = "if appending m \<and> at_end m then d\<lparr>o_pos := sys_size d K'\<rparr> else d"
  show thesis
    by (rule that [of "sf_new \<lparr>st_fd = ?d, st_buf = []\<rparr> K'" K' "pf_new d K'" "o_ino d"])
      (use o in \<open>auto simp: stdio_open_def c_fopen_def posix_open_def in_step_def sf_new_def pf_new_def
          c_ftell_def sys_size_def\<close>)
qed

text \<open>C32: On a disk without faults the stdio adapter is the POSIX adapter, whatever the size of the stream
  buffer: a file opened for writing in any mode, written in any pieces and flushed leaves the same disk,
  with the same results and count of available bytes. The positions are the same too, but for a file opened
  for appending and not written yet: \<open>PosixFileSystem\<close> then says 0, and the stream is at the end of the file
  where the C library puts it there.\<close>

theorem stdio_matches_posix:
  assumes "healthy K" "kernel_wf K" "m \<noteq> ModeRead"
  shows "\<exists>f g K1 ns f' K2 g' K3. stdio_open at_end p m K = (Some f, K1) \<and> posix_open p m K = (Some g, K1) \<and>
    sf_write_seq cap bss f K1 = (ns, f', K2) \<and> pf_write_seq bss g K1 = (ns, g', K3) \<and> ns = map length bss \<and>
    snd (sf_flush f' K2) = K3 \<and> sf_available (fst (sf_flush f' K2)) = pf_available g' \<and>
    sf_tell (fst (sf_flush f' K2)) K3 =
      (if appending m \<and> at_end m \<and> concat bss = [] then pf_size g' K3 else pf_tell g')"
proof -
  obtain f g i K1 where o: "stdio_open at_end p m K = (Some f, K1)" "posix_open p m K = (Some g, K1)"
    "in_step (\<not> (appending m \<and> at_end m)) i f K1 g K1"
    by (rule open_in_step [OF assms, of at_end p])
  obtain f' K2 g' K3 where w: "sf_write_seq cap bss f K1 = (map length bss, f', K2)"
    "pf_write_seq bss g K1 = (map length bss, g', K3)"
    "in_step (\<not> (appending m \<and> at_end m) \<or> concat bss \<noteq> []) i f' K2 g' K3"
    by (rule in_step_writes [OF o(3), of cap bss]) blast
  note fl = in_step_flush [OF w(3)]
  have "sf_tell (fst (sf_flush f' K2)) K3 =
      (if appending m \<and> at_end m \<and> concat bss = [] then pf_size g' K3 else pf_tell g')"
    using fl(3) by auto
  then show ?thesis using o(1,2) w(1,2) fl(1,2) by blast
qed

theorem stdio_matches_posix_witness:
  "\<exists>f g K1 ns f' K2 g' K3. stdio_open (\<lambda>m. m = ModeAppend) ''a'' ModeAppend (one_file ''a'' [1, 2]) = (Some f, K1) \<and>
    posix_open ''a'' ModeAppend (one_file ''a'' [1, 2]) = (Some g, K1) \<and>
    sf_write_seq 4 [[3], [4, 5, 6], [7]] f K1 = (ns, f', K2) \<and> pf_write_seq [[3], [4, 5, 6], [7]] g K1 = (ns, g', K3) \<and>
    ns = map length [[3], [4, 5, 6], [7 :: u8]] \<and>
    snd (sf_flush f' K2) = K3 \<and> sf_available (fst (sf_flush f' K2)) = pf_available g' \<and>
    sf_tell (fst (sf_flush f' K2)) K3 = pf_tell g'"
  using stdio_matches_posix [of "one_file ''a'' [1, 2]" ModeAppend "\<lambda>m. m = ModeAppend" "''a''" 4
      "[[3], [4, 5, 6], [7]]"] by simp

text \<open>After a \<open>write\<close> that stores only a part of the bytes the two adapters differ: the stream stores the rest
  with a second call, the POSIX adapter returns the short count and leaves the rest to its caller.\<close>

theorem short_write_adapters_differ:
  assumes "healthy K" "dir K p = Some i" "0 < n" "n < length bs"
  shows "\<exists>f g. stdio_open at_end p ModeAppend K = (Some f, K) \<and> posix_open p ModeAppend K = (Some g, K) \<and>
    (let (m, f', K') = sf_write_bytes cap bs f (K\<lparr>faults := [Some n]\<rparr>)
     in m = length bs \<and> contents (snd (sf_flush f' K')) p = Some (inodes K i @ bs)) \<and>
    (let (m, g', K') = pf_write_bytes bs g (K\<lparr>faults := [Some n]\<rparr>)
     in m = n \<and> contents K' p = Some (inodes K i @ take n bs))"
proof -
  let ?d = "open_desc i (posix_flags ModeAppend)" and ?K = "K\<lparr>faults := [Some n]\<rparr>"
  let ?K1 = "append_ino i (take n bs) K" and ?d1 = "?d\<lparr>o_pos := length (inodes K i) + n\<rparr>"
  have ne: "bs \<noteq> []" using assms(4) by auto
  have halt: "\<not> halted K" "faults K = []" using assms(1) by (simp_all add: healthy_def)
  have d: "o_ino ?d = i" "o_wr ?d" "o_append ?d" by (simp_all add: open_desc_def posix_flags_def)
  have K1: "?K\<lparr>faults := [], inodes := (inodes K)(i := inodes K i @ take n bs)\<rparr> = ?K1"
    using halt by (intro kernel.equality) (simp_all add: append_ino_def)
  define e where "e = (if at_end ModeAppend then ?d\<lparr>o_pos := sys_size ?d K\<rparr> else ?d)"
  have w: "sys_write bs ?d ?K = (Some n, ?d1, ?K1)" "sys_write bs e ?K = (Some n, ?d1, ?K1)"
    using assms(3,4) d K1 by (auto simp: sys_write_def next_fault_def Let_def e_def)
  have o: "sys_open p (posix_flags ModeAppend) K = (Some ?d, K)"
    using assms(1,2) by (simp add: sys_open_def posix_flags_def)
  have h1: "healthy ?K1" using assms(1) by simp
  have d1: "o_ino ?d1 = i" "o_wr ?d1" "o_append ?d1 \<or> o_pos ?d1 = length (inodes ?K1 i)" using d by simp_all
  have dr: "drain bs e ?K = ([], ?d1\<lparr>o_pos := length (inodes ?K1 i) + length (drop n bs)\<rparr>, append_ino i bs K)"
    using assms(3,4) ne drain_tail [OF h1 d1, of "drop n bs"] by (simp add: drain.simps [of bs] w)
  have we: "o_wr e" using d(2) by (simp add: e_def)
  let ?f = "sf_new \<lparr>st_fd = e, st_buf = []\<rparr> K" and ?g = "pf_new ?d K"
  have c: "contents (append_ino i xs K) p = Some (inodes K i @ xs)" for xs using assms(2) by (simp add: contents_def)
  have "let (m, f', K') = sf_write_bytes cap bs ?f ?K
     in m = length bs \<and> contents (snd (sf_flush f' K')) p = Some (inodes K i @ bs)"
    using we dr c [of bs] drain.simps [of "[]"]
    by (auto simp: sf_write_bytes_def sf_new_def c_fwrite_def Let_def sf_flush_def c_fflush_def split: if_splits)
  moreover have "let (m, g', K') = pf_write_bytes bs ?g ?K in m = n \<and> contents K' p = Some (inodes K i @ take n bs)"
    using w(1) c [of "take n bs"] by (simp add: pf_write_bytes_def pf_new_def)
  moreover have "stdio_open at_end p ModeAppend K = (Some ?f, K)" "posix_open p ModeAppend K = (Some ?g, K)"
    using o by (simp_all add: stdio_open_def c_fopen_def posix_open_def appending_def e_def)
  ultimately show ?thesis by blast
qed

theorem short_write_adapters_differ_witness:
  "\<exists>f g. stdio_open (\<lambda>m. True) ''a'' ModeAppend (one_file ''a'' [1]) = (Some f, one_file ''a'' [1]) \<and>
    posix_open ''a'' ModeAppend (one_file ''a'' [1]) = (Some g, one_file ''a'' [1]) \<and>
    (let (m, f', K') = sf_write_bytes 8 [2, 3, 4] f ((one_file ''a'' [1])\<lparr>faults := [Some 2]\<rparr>)
     in m = 3 \<and> contents (snd (sf_flush f' K')) ''a'' = Some [1, 2, 3, 4]) \<and>
    (let (m, g', K') = pf_write_bytes [2, 3, 4] g ((one_file ''a'' [1])\<lparr>faults := [Some 2]\<rparr>)
     in m = 2 \<and> contents K' ''a'' = Some [1, 2, 3])"
  using short_write_adapters_differ [of "one_file ''a'' [1]" "''a''" 0 2 "[2, 3, 4]" "\<lambda>m. True" 8] by (simp add: numeral_3_eq_3)

end
