(* ===== verification/DeviceFileSystem.thy ===== *)
theory DeviceFileSystem
  imports FileIO
begin

text \<open>
  The adapters for boards: \<open>LittleFSFileSystem.h\<close>, \<open>SPIFFSFileSystem.h\<close>, \<open>SDFileSystem.h\<close> over the Arduino
  file interface (\<open>fs::File\<close>, \<open>fs::FS\<close>) and \<open>InternalFSFileSystem.h\<close>, \<open>FlashFSFileSystem.h\<close> over the one of
  Adafruit. The libraries are not part of the repository: they are records of operations on a file object
  \<open>'f\<close> and a device \<open>'d\<close>, arguments of every definition. \<open>size_t\<close>, \<open>long\<close> and \<open>int\<close> have 32 bits here.
\<close>

section \<open>The file object of a library\<close>

text \<open>\<open>v_true\<close> is \<open>operator bool\<close>; \<open>v_read\<close> gives the result and the bytes put into the buffer, \<open>v_next\<close>
  (\<open>openNextFile\<close>) the next file and the directory object.\<close>

record ('f, 'd) file_lib =
  v_true :: "'f \<Rightarrow> bool"
  v_name :: "'f \<Rightarrow> string"
  v_size :: "'f \<Rightarrow> 'd \<Rightarrow> u32"
  v_close :: "'f \<Rightarrow> 'd \<Rightarrow> 'f \<times> 'd"
  v_read1 :: "'f \<Rightarrow> 'd \<Rightarrow> int \<times> 'f \<times> 'd"
  v_write1 :: "u8 \<Rightarrow> 'f \<Rightarrow> 'd \<Rightarrow> u32 \<times> 'f \<times> 'd"
  v_read :: "u32 \<Rightarrow> 'f \<Rightarrow> 'd \<Rightarrow> (u32 \<times> bytes) \<times> 'f \<times> 'd"
  v_write :: "bytes \<Rightarrow> 'f \<Rightarrow> 'd \<Rightarrow> u32 \<times> 'f \<times> 'd"
  v_available :: "'f \<Rightarrow> 'd \<Rightarrow> int"
  v_peek :: "'f \<Rightarrow> 'd \<Rightarrow> int"
  v_position :: "'f \<Rightarrow> 'd \<Rightarrow> u32"
  v_flush :: "'f \<Rightarrow> 'd \<Rightarrow> 'f \<times> 'd"
  v_is_directory :: "'f \<Rightarrow> 'd \<Rightarrow> bool"
  v_next :: "'f \<Rightarrow> 'd \<Rightarrow> 'f \<times> 'f \<times> 'd"

section \<open>FileImpl\<close>

text \<open>The pointer is never null: only \<open>open\<close> constructs the object, from \<open>new\<close>.\<close>

record 'f dev_file =
  df_file :: 'f
  df_closed :: bool

definition df_new :: "'f \<Rightarrow> 'f dev_file" where
  "df_new x = \<lparr>df_file = x, df_closed = False\<rparr>"

definition df_name :: "('f, 'd, 'x) file_lib_scheme \<Rightarrow> 'f dev_file \<Rightarrow> string" where
  "df_name V f = v_name V (df_file f)"

definition df_size :: "('f, 'd, 'x) file_lib_scheme \<Rightarrow> 'f dev_file \<Rightarrow> 'd \<Rightarrow> u32" where
  "df_size V f d = v_size V (df_file f) d"

definition df_close :: "('f, 'd, 'x) file_lib_scheme \<Rightarrow> 'f dev_file \<Rightarrow> 'd \<Rightarrow> 'f dev_file \<times> 'd" where
  "df_close V f d = (case v_close V (df_file f) d of (x, d) \<Rightarrow> (f\<lparr>df_file := x, df_closed := True\<rparr>, d))"

text \<open>The destructor closes a file that is still open.\<close>

definition df_destroy :: "('f, 'd, 'x) file_lib_scheme \<Rightarrow> 'f dev_file \<Rightarrow> 'd \<Rightarrow> 'd" where
  "df_destroy V f d = (if \<not> df_closed f then snd (df_close V f d) else d)"

definition df_read1 :: "('f, 'd, 'x) file_lib_scheme \<Rightarrow> 'f dev_file \<Rightarrow> 'd \<Rightarrow> int \<times> 'f dev_file \<times> 'd" where
  "df_read1 V f d = (case v_read1 V (df_file f) d of (ch, x, d) \<Rightarrow> (ch, f\<lparr>df_file := x\<rparr>, d))"

definition df_write1 :: "('f, 'd, 'x) file_lib_scheme \<Rightarrow> u8 \<Rightarrow> 'f dev_file \<Rightarrow> 'd \<Rightarrow> u32 \<times> 'f dev_file \<times> 'd" where
  "df_write1 V ch f d = (case v_write1 V ch (df_file f) d of (n, x, d) \<Rightarrow> (n, f\<lparr>df_file := x\<rparr>, d))"

definition df_read :: "('f, 'd, 'x) file_lib_scheme \<Rightarrow> u32 \<Rightarrow> 'f dev_file \<Rightarrow> 'd \<Rightarrow> (u32 \<times> bytes) \<times> 'f dev_file \<times> 'd" where
  "df_read V n f d = (case v_read V n (df_file f) d of (r, x, d) \<Rightarrow> (r, f\<lparr>df_file := x\<rparr>, d))"

definition df_write :: "('f, 'd, 'x) file_lib_scheme \<Rightarrow> bytes \<Rightarrow> 'f dev_file \<Rightarrow> 'd \<Rightarrow> u32 \<times> 'f dev_file \<times> 'd" where
  "df_write V bs f d = (case v_write V bs (df_file f) d of (n, x, d) \<Rightarrow> (n, f\<lparr>df_file := x\<rparr>, d))"

definition df_available :: "('f, 'd, 'x) file_lib_scheme \<Rightarrow> 'f dev_file \<Rightarrow> 'd \<Rightarrow> int" where
  "df_available V f d = v_available V (df_file f) d"

definition df_peek :: "('f, 'd, 'x) file_lib_scheme \<Rightarrow> 'f dev_file \<Rightarrow> 'd \<Rightarrow> int" where
  "df_peek V f d = v_peek V (df_file f) d"

definition df_tell :: "('f, 'd, 'x) file_lib_scheme \<Rightarrow> 'f dev_file \<Rightarrow> 'd \<Rightarrow> u32" where
  "df_tell V f d = v_position V (df_file f) d"

definition df_flush :: "('f, 'd, 'x) file_lib_scheme \<Rightarrow> 'f dev_file \<Rightarrow> 'd \<Rightarrow> 'f dev_file \<times> 'd" where
  "df_flush V f d = (case v_flush V (df_file f) d of (x, d) \<Rightarrow> (f\<lparr>df_file := x\<rparr>, d))"

definition df_is_valid :: "'f dev_file \<Rightarrow> bool" where
  "df_is_valid f \<longleftrightarrow> \<not> df_closed f"

text \<open>The loop of \<open>listDirectory\<close> ends when the library hands out a file that is not valid.\<close>

partial_function (option) next_files ::
  "('f, 'd, 'x) file_lib_scheme \<Rightarrow> 'f \<Rightarrow> 'f \<Rightarrow> 'd \<Rightarrow> (string list \<times> 'f \<times> 'd) option" where
  "next_files V root file d =
     (if \<not> v_true V file then Some ([], root, d)
      else let name = v_name V file;
               d = snd (v_close V file d);
               (file, root, d) = v_next V root d
           in Option.bind (next_files V root file d) (\<lambda>(names, root, d). Some (name # names, root, d)))"

text \<open>With a callback the names go there and the list stays empty.\<close>

definition list_files :: "('f, 'd, 'x) file_lib_scheme \<Rightarrow> bool \<Rightarrow> 'f \<Rightarrow> 'd \<Rightarrow> ((string list \<times> string list) \<times> 'd) option" where
  "list_files V callback root d =
     (if \<not> v_true V root then Some (([], []), d)
      else let (file, root, d) = v_next V root d
           in Option.bind (next_files V root file d) (\<lambda>(names, root, d).
                Some (if callback then ([], names) else (names, []), snd (v_close V root d))))"

section \<open>Adapters over the Arduino interface\<close>

text \<open>The library takes the mode of \<open>fopen\<close> as a string (\<open>FILE_READ\<close> is \<open>"r"\<close>, \<open>FILE_WRITE\<close> \<open>"w"\<close>, \<open>FILE_APPEND\<close> \<open>"a"\<close>).\<close>

datatype fs_seek_mode = SeekSet | SeekCur | SeekEnd

record ('f, 'd) arduino_lib = "('f, 'd) file_lib" +
  v_seek :: "u32 \<Rightarrow> fs_seek_mode \<Rightarrow> 'f \<Rightarrow> 'd \<Rightarrow> bool \<times> 'f \<times> 'd"
  v_begin :: "bool \<Rightarrow> string \<Rightarrow> 'd \<Rightarrow> bool \<times> 'd"
  v_format :: "'d \<Rightarrow> bool \<times> 'd"
  v_open :: "string \<Rightarrow> string \<Rightarrow> 'd \<Rightarrow> 'f \<times> 'd"
  v_exists :: "string \<Rightarrow> 'd \<Rightarrow> bool"
  v_remove :: "string \<Rightarrow> 'd \<Rightarrow> bool \<times> 'd"
  v_rename :: "string \<Rightarrow> string \<Rightarrow> 'd \<Rightarrow> bool \<times> 'd"
  v_mkdir :: "string \<Rightarrow> 'd \<Rightarrow> bool \<times> 'd"
  v_rmdir :: "string \<Rightarrow> 'd \<Rightarrow> bool \<times> 'd"
  v_total :: "'d \<Rightarrow> u32"
  v_used :: "'d \<Rightarrow> u32"

text \<open>\<open>seek\<close> returns the \<open>bool\<close> of the library as a \<open>long\<close>.\<close>

definition df_seek :: "('f, 'd, 'x) arduino_lib_scheme \<Rightarrow> u32 \<Rightarrow> seek_mode \<Rightarrow> 'f dev_file \<Rightarrow> 'd \<Rightarrow> int \<times> 'f dev_file \<times> 'd" where
  "df_seek V pos mode f d =
     (let smode = (case mode of SeekModeCur \<Rightarrow> SeekCur | SeekModeEnd \<Rightarrow> SeekEnd | SeekModeSet \<Rightarrow> SeekSet)
      in case v_seek V pos smode (df_file f) d of (ok, x, d) \<Rightarrow> (of_bool ok, f\<lparr>df_file := x\<rparr>, d))"

definition lfs_format :: "('f, 'd, 'x) arduino_lib_scheme \<Rightarrow> 'd \<Rightarrow> bool \<times> 'd" where
  "lfs_format V d = (case v_format V d of (ok, d) \<Rightarrow> if \<not> ok then (False, d) else (True, d))"

definition lfs_mode :: "file_mode \<Rightarrow> string" where
  "lfs_mode mode = (case mode of ModeRead \<Rightarrow> ''r'' | ModeWrite \<Rightarrow> ''w'' | ModeAppend \<Rightarrow> ''a''
     | ModeReadWrite \<Rightarrow> ''w+'' | ModeReadAppend \<Rightarrow> ''a+'')"

definition lfs_open :: "('f, 'd, 'x) arduino_lib_scheme \<Rightarrow> string \<Rightarrow> file_mode \<Rightarrow> 'd \<Rightarrow> 'f dev_file option \<times> 'd" where
  "lfs_open V path mode d = (case v_open V path (lfs_mode mode) d of
     (x, d) \<Rightarrow> if \<not> v_true V x then (None, d) else (Some (df_new x), d))"

definition lfs_exists :: "('f, 'd, 'x) arduino_lib_scheme \<Rightarrow> string \<Rightarrow> 'd \<Rightarrow> bool" where
  "lfs_exists V path d = v_exists V path d"

definition lfs_remove :: "('f, 'd, 'x) arduino_lib_scheme \<Rightarrow> string \<Rightarrow> 'd \<Rightarrow> bool \<times> 'd" where
  "lfs_remove V path d = v_remove V path d"

definition lfs_rename :: "('f, 'd, 'x) arduino_lib_scheme \<Rightarrow> string \<Rightarrow> string \<Rightarrow> 'd \<Rightarrow> bool \<times> 'd" where
  "lfs_rename V a b d = v_rename V a b d"

definition lfs_mkdir :: "('f, 'd, 'x) arduino_lib_scheme \<Rightarrow> string \<Rightarrow> 'd \<Rightarrow> bool \<times> 'd" where
  "lfs_mkdir V path d = (case v_mkdir V path d of (ok, d) \<Rightarrow> if \<not> ok then (False, d) else (True, d))"

definition lfs_rmdir :: "('f, 'd, 'x) arduino_lib_scheme \<Rightarrow> string \<Rightarrow> 'd \<Rightarrow> bool \<times> 'd" where
  "lfs_rmdir V path d = (case v_rmdir V path d of (ok, d) \<Rightarrow> if \<not> ok then (False, d) else (True, d))"

definition lfs_is_directory :: "('f, 'd, 'x) arduino_lib_scheme \<Rightarrow> string \<Rightarrow> 'd \<Rightarrow> bool \<times> 'd" where
  "lfs_is_directory V path d = (case v_open V path ''r'' d of (x, d) \<Rightarrow>
     if v_true V x then let b = v_is_directory V x d in (b, snd (v_close V x d)) else (False, d))"

definition lfs_list :: "('f, 'd, 'x) arduino_lib_scheme \<Rightarrow> string \<Rightarrow> bool \<Rightarrow> 'd \<Rightarrow> ((string list \<times> string list) \<times> 'd) option" where
  "lfs_list V path callback d = (case v_open V path ''r'' d of (root, d) \<Rightarrow> list_files V callback root d)"

definition lfs_storage_size :: "('f, 'd, 'x) arduino_lib_scheme \<Rightarrow> 'd \<Rightarrow> u32" where
  "lfs_storage_size V d = v_total V d"

definition lfs_storage_available :: "('f, 'd, 'x) arduino_lib_scheme \<Rightarrow> 'd \<Rightarrow> u32" where
  "lfs_storage_available V d = v_total V d - v_used V d"

text \<open>The test that follows \<open>begin\<close>: a scratch file is written and removed; when that fails the file system
  is formatted. Leaving the block destroys the file object, which by then is closed or was never there.\<close>

definition check_device :: "('f, 'd, 'x) file_lib_scheme \<Rightarrow> (string \<Rightarrow> file_mode \<Rightarrow> 'd \<Rightarrow> 'f dev_file option \<times> 'd) \<Rightarrow>
    (string \<Rightarrow> 'd \<Rightarrow> bool \<times> 'd) \<Rightarrow> ('d \<Rightarrow> bool \<times> 'd) \<Rightarrow> 'd \<Rightarrow> 'd" where
  "check_device V op rm fmt d =
     (let (init_test, d) = op ''./__init_test__'' ModeWrite d;
          (verified, d) = (case init_test of
              None \<Rightarrow> (False, d)
            | Some f \<Rightarrow> (case df_write V (map (\<lambda>c. of_char c) ''test'') f d of (n, f, d) \<Rightarrow>
                (n = 4, snd (df_close V f d))))
      in if \<not> verified then snd (fmt d) else snd (rm ''./__init_test__'' d))"

definition lfs_init :: "('f, 'd, 'x) arduino_lib_scheme \<Rightarrow> string \<Rightarrow> bool \<Rightarrow> 'd \<Rightarrow> bool \<times> 'd" where
  "lfs_init V basepath reformatOnFail d = (case v_begin V True basepath d of (ok, d) \<Rightarrow>
     if \<not> ok then (False, d)
     else (True, if reformatOnFail then check_device V (lfs_open V) (lfs_remove V) (lfs_format V) d else d))"

text \<open>The virtual functions of an adapter. \<open>LittleFSFileSystem\<close> has the functions above; \<open>SPIFFSFileSystem\<close>
  has the same code, mounts at the empty path, and is a table of them.\<close>

record ('f, 'd) file_vtable =
  vt_name :: "'f dev_file \<Rightarrow> string"
  vt_size :: "'f dev_file \<Rightarrow> 'd \<Rightarrow> u32"
  vt_close :: "'f dev_file \<Rightarrow> 'd \<Rightarrow> 'f dev_file \<times> 'd"
  vt_read1 :: "'f dev_file \<Rightarrow> 'd \<Rightarrow> int \<times> 'f dev_file \<times> 'd"
  vt_write1 :: "u8 \<Rightarrow> 'f dev_file \<Rightarrow> 'd \<Rightarrow> u32 \<times> 'f dev_file \<times> 'd"
  vt_read :: "u32 \<Rightarrow> 'f dev_file \<Rightarrow> 'd \<Rightarrow> (u32 \<times> bytes) \<times> 'f dev_file \<times> 'd"
  vt_write :: "bytes \<Rightarrow> 'f dev_file \<Rightarrow> 'd \<Rightarrow> u32 \<times> 'f dev_file \<times> 'd"
  vt_available :: "'f dev_file \<Rightarrow> 'd \<Rightarrow> int"
  vt_peek :: "'f dev_file \<Rightarrow> 'd \<Rightarrow> int"
  vt_tell :: "'f dev_file \<Rightarrow> 'd \<Rightarrow> u32"
  vt_seek :: "u32 \<Rightarrow> seek_mode \<Rightarrow> 'f dev_file \<Rightarrow> 'd \<Rightarrow> int \<times> 'f dev_file \<times> 'd"
  vt_flush :: "'f dev_file \<Rightarrow> 'd \<Rightarrow> 'f dev_file \<times> 'd"
  vt_is_valid :: "'f dev_file \<Rightarrow> bool"

record ('f, 'd) fs_vtable =
  vt_format :: "'d \<Rightarrow> bool \<times> 'd"
  vt_init :: "bool \<Rightarrow> 'd \<Rightarrow> bool \<times> 'd"
  vt_open :: "string \<Rightarrow> file_mode \<Rightarrow> 'd \<Rightarrow> 'f dev_file option \<times> 'd"
  vt_exists :: "string \<Rightarrow> 'd \<Rightarrow> bool"
  vt_remove :: "string \<Rightarrow> 'd \<Rightarrow> bool \<times> 'd"
  vt_rename :: "string \<Rightarrow> string \<Rightarrow> 'd \<Rightarrow> bool \<times> 'd"
  vt_mkdir :: "string \<Rightarrow> 'd \<Rightarrow> bool \<times> 'd"
  vt_rmdir :: "string \<Rightarrow> 'd \<Rightarrow> bool \<times> 'd"
  vt_is_directory :: "string \<Rightarrow> 'd \<Rightarrow> bool \<times> 'd"
  vt_list :: "string \<Rightarrow> bool \<Rightarrow> 'd \<Rightarrow> ((string list \<times> string list) \<times> 'd) option"
  vt_storage_size :: "'d \<Rightarrow> u32"
  vt_storage_available :: "'d \<Rightarrow> u32"

definition arduino_file :: "('f, 'd, 'x) arduino_lib_scheme \<Rightarrow> ('f, 'd) file_vtable" where
  "arduino_file V = \<lparr>vt_name = df_name V, vt_size = df_size V, vt_close = df_close V, vt_read1 = df_read1 V,
     vt_write1 = df_write1 V, vt_read = df_read V, vt_write = df_write V, vt_available = df_available V,
     vt_peek = df_peek V, vt_tell = df_tell V, vt_seek = df_seek V, vt_flush = df_flush V, vt_is_valid = df_is_valid\<rparr>"

definition littlefs :: "('f, 'd, 'x) arduino_lib_scheme \<Rightarrow> string \<Rightarrow> ('f, 'd) fs_vtable" where
  "littlefs V basepath = \<lparr>vt_format = lfs_format V, vt_init = lfs_init V basepath, vt_open = lfs_open V,
     vt_exists = lfs_exists V, vt_remove = lfs_remove V, vt_rename = lfs_rename V, vt_mkdir = lfs_mkdir V,
     vt_rmdir = lfs_rmdir V, vt_is_directory = lfs_is_directory V, vt_list = lfs_list V,
     vt_storage_size = lfs_storage_size V, vt_storage_available = lfs_storage_available V\<rparr>"

definition spiffs_file :: "('f, 'd, 'x) arduino_lib_scheme \<Rightarrow> ('f, 'd) file_vtable" where
  "spiffs_file V = arduino_file V"

definition spiffs :: "('f, 'd, 'x) arduino_lib_scheme \<Rightarrow> ('f, 'd) fs_vtable" where
  "spiffs V = \<lparr>vt_format = lfs_format V, vt_init = lfs_init V [], vt_open = lfs_open V,
     vt_exists = lfs_exists V, vt_remove = lfs_remove V, vt_rename = lfs_rename V, vt_mkdir = lfs_mkdir V,
     vt_rmdir = lfs_rmdir V, vt_is_directory = lfs_is_directory V, vt_list = lfs_list V,
     vt_storage_size = lfs_storage_size V, vt_storage_available = lfs_storage_available V\<rparr>"

section \<open>The SD card\<close>

text \<open>The pins and the bus are set up by \<open>sd_bus\<close> before \<open>SD.begin\<close>.\<close>

record ('f, 'd) sd_lib = "('f, 'd) arduino_lib" +
  sd_pin_mode :: "int \<Rightarrow> 'd \<Rightarrow> 'd"
  sd_bus :: "int \<Rightarrow> int \<Rightarrow> int \<Rightarrow> int \<Rightarrow> 'd \<Rightarrow> 'd"
  sd_begin :: "int \<Rightarrow> 'd \<Rightarrow> bool \<times> 'd"

record sd_pins =
  pin_sck :: int
  pin_miso :: int
  pin_mosi :: int
  pin_ss :: int

definition sd_format :: "'d \<Rightarrow> bool \<times> 'd" where
  "sd_format d = (True, d)"

definition sd_open :: "('f, 'd, 'x) sd_lib_scheme \<Rightarrow> string \<Rightarrow> file_mode \<Rightarrow> 'd \<Rightarrow> 'f dev_file option \<times> 'd" where
  "sd_open V path mode d =
     (if mode = ModeRead \<and> \<not> v_exists V path d then (None, d)
      else case v_open V path (lfs_mode mode) d of
        (x, d) \<Rightarrow> if \<not> v_true V x then (None, d) else (Some (df_new x), d))"

definition sd_remove :: "('f, 'd, 'x) sd_lib_scheme \<Rightarrow> string \<Rightarrow> 'd \<Rightarrow> bool \<times> 'd" where
  "sd_remove V path d = (if \<not> v_exists V path d then (False, d) else v_remove V path d)"

definition sd_init :: "('f, 'd, 'x) sd_lib_scheme \<Rightarrow> sd_pins \<Rightarrow> bool \<Rightarrow> 'd \<Rightarrow> bool \<times> 'd" where
  "sd_init V pins reformatOnFail d =
     (let d = sd_pin_mode V (pin_miso pins) d;
          d = sd_bus V (pin_sck pins) (pin_miso pins) (pin_mosi pins) (pin_ss pins) d
      in case sd_begin V (pin_ss pins) d of (ok, d) \<Rightarrow>
        if \<not> ok then (False, d)
        else (True, if reformatOnFail then check_device V (sd_open V) (sd_remove V) sd_format d else d))"

definition sd_file :: "('f, 'd, 'x) sd_lib_scheme \<Rightarrow> ('f, 'd) file_vtable" where
  "sd_file V = arduino_file V"

definition sdfs :: "('f, 'd, 'x) sd_lib_scheme \<Rightarrow> sd_pins \<Rightarrow> ('f, 'd) fs_vtable" where
  "sdfs V pins = \<lparr>vt_format = sd_format, vt_init = sd_init V pins, vt_open = sd_open V,
     vt_exists = lfs_exists V, vt_remove = sd_remove V, vt_rename = lfs_rename V, vt_mkdir = lfs_mkdir V,
     vt_rmdir = lfs_rmdir V, vt_is_directory = lfs_is_directory V, vt_list = lfs_list V,
     vt_storage_size = lfs_storage_size V, vt_storage_available = lfs_storage_available V\<rparr>"

section \<open>Adapters over the interface of Adafruit\<close>

text \<open>A file is an object that opens a path, with the flags of the library; \<open>seek\<close> is absolute.\<close>

record ('f, 'd) adafruit_lib = "('f, 'd) file_lib" +
  FILE_O_READ :: u32
  FILE_O_WRITE :: u32
  a_seek :: "u32 \<Rightarrow> 'f \<Rightarrow> 'd \<Rightarrow> bool \<times> 'f \<times> 'd"
  a_begin :: "'d \<Rightarrow> bool \<times> 'd"
  a_format :: "'d \<Rightarrow> bool \<times> 'd"
  a_new :: "'d \<Rightarrow> 'f"
  a_open :: "string \<Rightarrow> u32 \<Rightarrow> 'f \<Rightarrow> 'd \<Rightarrow> bool \<times> 'f \<times> 'd"
  a_exists :: "string \<Rightarrow> 'd \<Rightarrow> bool"
  a_remove :: "string \<Rightarrow> 'd \<Rightarrow> bool \<times> 'd"
  a_rename :: "string \<Rightarrow> string \<Rightarrow> 'd \<Rightarrow> bool \<times> 'd"
  a_mkdir :: "string \<Rightarrow> 'd \<Rightarrow> bool \<times> 'd"
  a_rmdir_r :: "string \<Rightarrow> 'd \<Rightarrow> bool \<times> 'd"
  a_open_dir :: "string \<Rightarrow> 'd \<Rightarrow> 'f \<times> 'd"

text \<open>\<open>seek\<close> of the internal flash computes the target; the addition is that of \<open>uint32_t\<close>, and the target is
  converted to \<open>long\<close>.\<close>

definition ifs_seek :: "('f, 'd, 'x) adafruit_lib_scheme \<Rightarrow> u32 \<Rightarrow> seek_mode \<Rightarrow> 'f dev_file \<Rightarrow> 'd \<Rightarrow> int \<times> 'f dev_file \<times> 'd" where
  "ifs_seek V pos mode f d =
     (let target = (case mode of SeekModeCur \<Rightarrow> v_position V (df_file f) d + pos
                      | SeekModeEnd \<Rightarrow> v_size V (df_file f) d + pos
                      | SeekModeSet \<Rightarrow> pos)
      in case a_seek V target (df_file f) d of
        (ok, x, d) \<Rightarrow> (if ok then sint target else - 1, f\<lparr>df_file := x\<rparr>, d))"

definition ifs_format :: "('f, 'd, 'x) adafruit_lib_scheme \<Rightarrow> 'd \<Rightarrow> bool \<times> 'd" where
  "ifs_format V d = (case a_format V d of (ok, d) \<Rightarrow> if \<not> ok then (False, d) else (True, d))"

text \<open>The modes that truncate remove the file first.\<close>

definition ifs_mode :: "('f, 'd, 'x) adafruit_lib_scheme \<Rightarrow> file_mode \<Rightarrow> u32 \<times> bool" where
  "ifs_mode V mode = (case mode of
      ModeRead \<Rightarrow> (FILE_O_READ V, False)
    | ModeWrite \<Rightarrow> (FILE_O_WRITE V, True)
    | ModeAppend \<Rightarrow> (FILE_O_WRITE V, False)
    | ModeReadWrite \<Rightarrow> (FILE_O_READ V OR FILE_O_WRITE V, True)
    | ModeReadAppend \<Rightarrow> (FILE_O_READ V OR FILE_O_WRITE V, False))"

definition ifs_open :: "('f, 'd, 'x) adafruit_lib_scheme \<Rightarrow> string \<Rightarrow> file_mode \<Rightarrow> 'd \<Rightarrow> 'f dev_file option \<times> 'd" where
  "ifs_open V path mode d =
     (let (pmode, fresh) = ifs_mode V mode;
          d = (if fresh \<and> a_exists V path d then snd (a_remove V path d) else d)
      in case a_open V path pmode (a_new V d) d of
        (ok, x, d) \<Rightarrow> if \<not> ok then (None, d) else (Some (df_new x), d))"

definition ifs_exists :: "('f, 'd, 'x) adafruit_lib_scheme \<Rightarrow> string \<Rightarrow> 'd \<Rightarrow> bool" where
  "ifs_exists V path d = a_exists V path d"

definition ifs_remove :: "('f, 'd, 'x) adafruit_lib_scheme \<Rightarrow> string \<Rightarrow> 'd \<Rightarrow> bool \<times> 'd" where
  "ifs_remove V path d = a_remove V path d"

definition ifs_rename :: "('f, 'd, 'x) adafruit_lib_scheme \<Rightarrow> string \<Rightarrow> string \<Rightarrow> 'd \<Rightarrow> bool \<times> 'd" where
  "ifs_rename V a b d = a_rename V a b d"

definition ifs_mkdir :: "('f, 'd, 'x) adafruit_lib_scheme \<Rightarrow> string \<Rightarrow> 'd \<Rightarrow> bool \<times> 'd" where
  "ifs_mkdir V path d = (case a_mkdir V path d of (ok, d) \<Rightarrow> if \<not> ok then (False, d) else (True, d))"

definition ifs_rmdir :: "('f, 'd, 'x) adafruit_lib_scheme \<Rightarrow> string \<Rightarrow> 'd \<Rightarrow> bool \<times> 'd" where
  "ifs_rmdir V path d = (case a_rmdir_r V path d of (ok, d) \<Rightarrow> if \<not> ok then (False, d) else (True, d))"

definition ifs_is_directory :: "('f, 'd, 'x) adafruit_lib_scheme \<Rightarrow> string \<Rightarrow> 'd \<Rightarrow> bool \<times> 'd" where
  "ifs_is_directory V path d = (case a_open V path (FILE_O_READ V) (a_new V d) d of (ok, x, d) \<Rightarrow>
     if ok then let b = v_is_directory V x d in (b, snd (v_close V x d)) else (False, d))"

definition ifs_list :: "('f, 'd, 'x) adafruit_lib_scheme \<Rightarrow> string \<Rightarrow> bool \<Rightarrow> 'd \<Rightarrow> ((string list \<times> string list) \<times> 'd) option" where
  "ifs_list V path callback d = (case a_open_dir V path d of (root, d) \<Rightarrow> list_files V callback root d)"

definition ifs_init :: "('f, 'd, 'x) adafruit_lib_scheme \<Rightarrow> bool \<Rightarrow> 'd \<Rightarrow> bool \<times> 'd" where
  "ifs_init V reformatOnFail d = (case a_begin V d of (ok, d) \<Rightarrow>
     if \<not> ok then (False, d)
     else (True, if reformatOnFail then check_device V (ifs_open V) (ifs_remove V) (ifs_format V) d else d))"

text \<open>The sizes of the internal flash come from its configuration and from a walk over the blocks in use
  (\<open>lfs_traverse\<close>), which calls \<open>_countLfsBlock\<close> on each.\<close>

record ('f, 'd) internal_lib = "('f, 'd) adafruit_lib" +
  a_block_size :: "'d \<Rightarrow> u32"
  a_block_count :: "'d \<Rightarrow> u32"
  a_traverse :: "'d \<Rightarrow> u32 list"

definition count_block :: "u32 \<Rightarrow> u32 \<Rightarrow> u32" where
  "count_block n block = n + 1"

definition used_block_count :: "('f, 'd, 'x) internal_lib_scheme \<Rightarrow> 'd \<Rightarrow> u32" where
  "used_block_count V d = foldl count_block 0 (a_traverse V d)"

definition total_bytes :: "('f, 'd, 'x) internal_lib_scheme \<Rightarrow> 'd \<Rightarrow> u32" where
  "total_bytes V d = a_block_size V d * a_block_count V d"

definition used_bytes :: "('f, 'd, 'x) internal_lib_scheme \<Rightarrow> 'd \<Rightarrow> u32" where
  "used_bytes V d = a_block_size V d * used_block_count V d"

definition ifs_storage_size :: "('f, 'd, 'x) internal_lib_scheme \<Rightarrow> 'd \<Rightarrow> u32" where
  "ifs_storage_size V d = total_bytes V d"

definition ifs_storage_available :: "('f, 'd, 'x) internal_lib_scheme \<Rightarrow> 'd \<Rightarrow> u32" where
  "ifs_storage_available V d = total_bytes V d - used_bytes V d"

definition internalfs :: "('f, 'd, 'x) internal_lib_scheme \<Rightarrow> ('f, 'd) fs_vtable" where
  "internalfs V = \<lparr>vt_format = ifs_format V, vt_init = ifs_init V, vt_open = ifs_open V,
     vt_exists = ifs_exists V, vt_remove = ifs_remove V, vt_rename = ifs_rename V, vt_mkdir = ifs_mkdir V,
     vt_rmdir = ifs_rmdir V, vt_is_directory = ifs_is_directory V, vt_list = ifs_list V,
     vt_storage_size = ifs_storage_size V, vt_storage_available = ifs_storage_available V\<rparr>"

definition internal_file :: "('f, 'd, 'x) adafruit_lib_scheme \<Rightarrow> ('f, 'd) file_vtable" where
  "internal_file V = \<lparr>vt_name = df_name V, vt_size = df_size V, vt_close = df_close V, vt_read1 = df_read1 V,
     vt_write1 = df_write1 V, vt_read = df_read V, vt_write = df_write V, vt_available = df_available V,
     vt_peek = df_peek V, vt_tell = df_tell V, vt_seek = ifs_seek V, vt_flush = df_flush V, vt_is_valid = df_is_valid\<rparr>"

section \<open>The external flash\<close>

record spi_flash_device =
  total_size :: u32
  start_up_time_us :: nat
  manufacturer_id :: u8
  memory_type :: u8
  capacity :: u8
  max_clock_speed_mhz :: nat
  quad_enable_bit_mask :: u8
  has_sector_protection :: bool
  supports_fast_read :: bool
  supports_qspi :: bool
  supports_qspi_writes :: bool
  write_status_register_split :: bool
  single_status_byte :: bool
  is_fram :: bool

definition RAK15001 :: spi_flash_device where
  "RAK15001 = \<lparr>total_size = push_bit 21 1, start_up_time_us = 5000, manufacturer_id = 0xc8, memory_type = 0x40,
     capacity = 0x15, max_clock_speed_mhz = 15, quad_enable_bit_mask = 0x00, has_sector_protection = False,
     supports_fast_read = True, supports_qspi = False, supports_qspi_writes = False,
     write_status_register_split = False, single_status_byte = True, is_fram = False\<rparr>"

definition RAK15007 :: spi_flash_device where
  "RAK15007 = \<lparr>total_size = 1024 * 1024, start_up_time_us = 5000, manufacturer_id = 0x7F, memory_type = 0x2e,
     capacity = 0x05, max_clock_speed_mhz = 40, quad_enable_bit_mask = 0x00, has_sector_protection = False,
     supports_fast_read = True, supports_qspi = False, supports_qspi_writes = True,
     write_status_register_split = False, single_status_byte = True, is_fram = True\<rparr>"

text \<open>This library can seek from each origin; the flash chip is started before the file system.\<close>

record ('f, 'd) flash_lib = "('f, 'd) adafruit_lib" +
  x_seek :: "u32 \<Rightarrow> fs_seek_mode \<Rightarrow> 'f \<Rightarrow> 'd \<Rightarrow> bool \<times> 'f \<times> 'd"
  x_flash_begin :: "spi_flash_device \<Rightarrow> 'd \<Rightarrow> bool \<times> 'd"
  x_total :: "'d \<Rightarrow> u32"
  x_used :: "'d \<Rightarrow> u32"

definition ffs_seek :: "('f, 'd, 'x) flash_lib_scheme \<Rightarrow> u32 \<Rightarrow> seek_mode \<Rightarrow> 'f dev_file \<Rightarrow> 'd \<Rightarrow> int \<times> 'f dev_file \<times> 'd" where
  "ffs_seek V pos mode f d =
     (let smode = (case mode of SeekModeCur \<Rightarrow> SeekCur | SeekModeEnd \<Rightarrow> SeekEnd | SeekModeSet \<Rightarrow> SeekSet)
      in case x_seek V pos smode (df_file f) d of (ok, x, d) \<Rightarrow> (of_bool ok, f\<lparr>df_file := x\<rparr>, d))"

definition ffs_init :: "('f, 'd, 'x) flash_lib_scheme \<Rightarrow> spi_flash_device \<Rightarrow> bool \<Rightarrow> 'd \<Rightarrow> bool \<times> 'd" where
  "ffs_init V device reformatOnFail d = (case x_flash_begin V device d of (ok, d) \<Rightarrow>
     if \<not> ok then (False, d)
     else case a_begin V d of (ok, d) \<Rightarrow>
       if \<not> ok then (False, d)
       else (True, if reformatOnFail then check_device V (ifs_open V) (ifs_remove V) (ifs_format V) d else d))"

definition flashfs :: "('f, 'd, 'x) flash_lib_scheme \<Rightarrow> spi_flash_device \<Rightarrow> ('f, 'd) fs_vtable" where
  "flashfs V device = \<lparr>vt_format = ifs_format V, vt_init = ffs_init V device, vt_open = ifs_open V,
     vt_exists = ifs_exists V, vt_remove = ifs_remove V, vt_rename = ifs_rename V, vt_mkdir = ifs_mkdir V,
     vt_rmdir = ifs_rmdir V, vt_is_directory = ifs_is_directory V, vt_list = ifs_list V,
     vt_storage_size = x_total V, vt_storage_available = (\<lambda>d. x_total V d - x_used V d)\<rparr>"

definition flash_file :: "('f, 'd, 'x) flash_lib_scheme \<Rightarrow> ('f, 'd) file_vtable" where
  "flash_file V = \<lparr>vt_name = df_name V, vt_size = df_size V, vt_close = df_close V, vt_read1 = df_read1 V,
     vt_write1 = df_write1 V, vt_read = df_read V, vt_write = df_write V, vt_available = df_available V,
     vt_peek = df_peek V, vt_tell = df_tell V, vt_seek = ffs_seek V, vt_flush = df_flush V, vt_is_valid = df_is_valid\<rparr>"

end
