(* ===== verification/DeviceLaws.thy ===== *)
theory DeviceLaws
  imports DeviceFileSystem
begin

text \<open>
  The adapters over a library that follows the POSIX calls on a disk without faults (locale
  \<open>arduino_disk\<close>: the file interface of Arduino is documented in terms of \<open>fopen\<close>): a program sees what it
  sees through \<open>PosixFileSystem\<close>, except for the result of \<open>seek\<close> and for the position of a file that was
  opened for appending and not written yet. The emulated \<open>seek\<close> of the internal flash is a seek with a
  signed offset.
\<close>

section \<open>Libraries that follow POSIX\<close>

text \<open>The flags of an \<open>fopen\<close> mode.\<close>

definition fopen_flags :: "string \<Rightarrow> oflags" where
  "fopen_flags m = \<lparr>fl_rd = (hd m = CHR ''r'' \<or> CHR ''+'' \<in> set m), fl_wr = (hd m \<noteq> CHR ''r'' \<or> CHR ''+'' \<in> set m),
     fl_creat = (hd m \<noteq> CHR ''r''), fl_trunc = (hd m = CHR ''w''), fl_append = (hd m = CHR ''a'')\<rparr>"

lemma fopen_flags_mode: "fopen_flags (lfs_mode m) = posix_flags m"
  by (cases m) (simp_all add: fopen_flags_def lfs_mode_def posix_flags_def)

definition fs_whence :: "fs_seek_mode \<Rightarrow> whence" where
  "fs_whence m = (case m of SeekSet \<Rightarrow> SEEK_SET | SeekCur \<Rightarrow> SEEK_CUR | SeekEnd \<Rightarrow> SEEK_END)"

text \<open>The system call behind each call of the library, where the disk has no faults. \<open>disk\<close> is what the
  library's state stands for, its buffers included. A file that was opened for appending may be at any
  position; an \<open>open\<close> may fail for reasons of its own; a seek has to succeed only inside the file; nothing is
  said of a name that is a directory, nor of a \<open>rename\<close> to a name in use.\<close>

locale arduino_disk =
  fixes V :: "('f, 'd, 'x) arduino_lib_scheme" and fd :: "'f \<Rightarrow> ofd" and disk :: "'d \<Rightarrow> kernel"
  assumes open_law: "healthy (disk d) \<Longrightarrow> p \<notin> subdirs (disk d) \<Longrightarrow> v_open V p m d = (f, d') \<Longrightarrow> v_true V f \<Longrightarrow>
      \<exists>x. sys_open p (fopen_flags m) (disk d) = (Some x, disk d') \<and>
        fd f = (if fl_append (fopen_flags m) then x\<lparr>o_pos := o_pos (fd f)\<rparr> else x)"
    and read_law: "v_true V f \<Longrightarrow> sys_read (unat n) (fd f) (disk d) = (got, x) \<Longrightarrow> v_read V n f d = (k2, f', d') \<Longrightarrow>
      v_true V f' \<and> fd f' = x \<and> disk d' = disk d \<and> k2 = (case got of None \<Rightarrow> (0, []) | Some bs \<Rightarrow> (of_nat (length bs), bs))"
    and write_law: "healthy (disk d) \<Longrightarrow> v_true V f \<Longrightarrow> sys_write bs (fd f) (disk d) = (n', x, K) \<Longrightarrow>
      v_write V bs f d = (k, f', d') \<Longrightarrow>
      v_true V f' \<and> fd f' = x \<and> disk d' = K \<and> k = (case n' of None \<Rightarrow> 0 | Some n \<Rightarrow> of_nat n)"
    and seek_law: "v_true V f \<Longrightarrow> sys_lseek (unat pos) (fs_whence wh) (fd f) (disk d) = (t, x) \<Longrightarrow>
      t \<le> sys_size (fd f) (disk d) \<Longrightarrow> v_seek V pos wh f d = (ok, f', d') \<Longrightarrow>
      ok \<and> v_true V f' \<and> fd f' = x \<and> disk d' = disk d"
    and position_law: "v_true V f \<Longrightarrow> v_position V f d = of_nat (o_pos (fd f))"
    and size_law: "v_true V f \<Longrightarrow> v_size V f d = of_nat (sys_size (fd f) (disk d))"
    and exists_law: "p \<notin> subdirs (disk d) \<Longrightarrow> v_exists V p d \<longleftrightarrow> dir (disk d) p \<noteq> None"
    and remove_law: "healthy (disk d) \<Longrightarrow> p \<notin> subdirs (disk d) \<Longrightarrow> sys_unlink p (disk d) = (ok, K) \<Longrightarrow>
      v_remove V p d = (ok', d') \<Longrightarrow> ok' = ok \<and> disk d' = K"
    and rename_law: "healthy (disk d) \<Longrightarrow> a \<notin> subdirs (disk d) \<Longrightarrow> b \<notin> subdirs (disk d) \<Longrightarrow> dir (disk d) b = None \<Longrightarrow>
      sys_rename a b (disk d) = (ok, K) \<Longrightarrow> v_rename V a b d = (ok', d') \<Longrightarrow> ok' = ok \<and> disk d' = K"

lemma sys_write_healthy: "healthy K \<Longrightarrow> sys_write bs d K = (r, x, K') \<Longrightarrow> healthy K'"
  by (auto simp: sys_write_def Let_def split: if_splits)

lemma sys_open_healthy: "healthy K \<Longrightarrow> sys_open p fl K = (r, K') \<Longrightarrow> healthy K'"
  by (auto simp: sys_open_def Let_def split: if_splits option.splits)

lemma sys_write_end:
  assumes "healthy K" "o_append d" "o_wr d" "bs \<noteq> []"
  shows "sys_write bs (d\<lparr>o_pos := q\<rparr>) K = sys_write bs d K"
  using assms by (simp add: sys_write_def Let_def)

section \<open>Programs on a file\<close>

datatype file_call = FRead u32 | FWrite bytes | FSeek u32 seek_mode | FTell | FSize

text \<open>The observation is a number and the bytes read. The result of a \<open>seek\<close> is not observed.\<close>

fun vt_call :: "('f, 'd) file_vtable \<Rightarrow> file_call \<Rightarrow> 'f dev_file \<Rightarrow> 'd \<Rightarrow> (u32 \<times> bytes) \<times> 'f dev_file \<times> 'd" where
  "vt_call T (FRead n) f d = vt_read T n f d"
| "vt_call T (FWrite bs) f d = (case vt_write T bs f d of (n, f, d) \<Rightarrow> ((n, []), f, d))"
| "vt_call T (FSeek pos m) f d = (case vt_seek T pos m f d of (_, f, d) \<Rightarrow> ((0, []), f, d))"
| "vt_call T FTell f d = ((vt_tell T f d, []), f, d)"
| "vt_call T FSize f d = ((vt_size T f d, []), f, d)"

fun posix_call :: "file_call \<Rightarrow> pfile \<Rightarrow> kernel \<Rightarrow> (u32 \<times> bytes) \<times> pfile \<times> kernel" where
  "posix_call (FRead n) p K = (case pf_read_bytes (unat n) p K of (bs, p) \<Rightarrow> ((of_nat (length bs), bs), p, K))"
| "posix_call (FWrite bs) p K = (case pf_write_bytes bs p K of (n, p, K) \<Rightarrow> ((of_nat n, []), p, K))"
| "posix_call (FSeek pos m) p K = (case pf_seek (unat pos) m p K of (_, p) \<Rightarrow> ((0, []), p, K))"
| "posix_call FTell p K = ((of_nat (pf_tell p), []), p, K)"
| "posix_call FSize p K = ((of_nat (pf_size p K), []), p, K)"

fun vt_calls :: "('f, 'd) file_vtable \<Rightarrow> file_call list \<Rightarrow> 'f dev_file \<Rightarrow> 'd \<Rightarrow> (u32 \<times> bytes) list \<times> 'f dev_file \<times> 'd" where
  "vt_calls T [] f d = ([], f, d)"
| "vt_calls T (c # cs) f d = (case vt_call T c f d of (a, f, d) \<Rightarrow>
     case vt_calls T cs f d of (as, f, d) \<Rightarrow> (a # as, f, d))"

fun posix_calls :: "file_call list \<Rightarrow> pfile \<Rightarrow> kernel \<Rightarrow> (u32 \<times> bytes) list \<times> pfile \<times> kernel" where
  "posix_calls [] p K = ([], p, K)"
| "posix_calls (c # cs) p K = (case posix_call c p K of (a, p, K) \<Rightarrow>
     case posix_calls cs p K of (as, p, K) \<Rightarrow> (a # as, p, K))"

fun seeks_inside :: "file_call list \<Rightarrow> pfile \<Rightarrow> kernel \<Rightarrow> bool" where
  "seeks_inside [] p K \<longleftrightarrow> True"
| "seeks_inside (c # cs) p K \<longleftrightarrow>
     (case c of FSeek pos m \<Rightarrow> fst (pf_seek (unat pos) m p K) \<le> pf_size p K | _ \<Rightarrow> True) \<and>
     (case posix_call c p K of (a, p, K) \<Rightarrow> seeks_inside cs p K)"

text \<open>A program that asks for the position of a file, or depends on it, only after a write or a \<open>seek\<close> from the
  start or the end.\<close>

fun settled :: "file_call list \<Rightarrow> bool" where
  "settled [] \<longleftrightarrow> True"
| "settled (FWrite bs # cs) \<longleftrightarrow> bs \<noteq> [] \<or> settled cs"
| "settled (FSeek pos m # cs) \<longleftrightarrow> m \<noteq> SeekModeCur"
| "settled (FSize # cs) \<longleftrightarrow> settled cs"
| "settled (FRead n # cs) \<longleftrightarrow> False"
| "settled (FTell # cs) \<longleftrightarrow> False"

context arduino_disk
begin

text \<open>The two objects stand for the same descriptor, or for two that write at the end and differ in the
  position only.\<close>

definition same_file :: "'f dev_file \<Rightarrow> pfile \<Rightarrow> bool" where
  "same_file f p \<longleftrightarrow> v_true V (df_file f) \<and> \<not> df_closed f \<and> pf_fd p = Some (fd (df_file f))"

definition same_but_pos :: "'f dev_file \<Rightarrow> pfile \<Rightarrow> bool" where
  "same_but_pos f p \<longleftrightarrow> v_true V (df_file f) \<and> \<not> df_closed f \<and> (\<exists>x. pf_fd p = Some x \<and> o_append x \<and> o_wr x \<and>
     fd (df_file f) = x\<lparr>o_pos := o_pos (fd (df_file f))\<rparr>)"

lemma write_matches:
  assumes f: "v_true V (df_file f)" "\<not> df_closed f" and p: "pf_fd p = Some y" and h: "healthy (disk d)"
    and eq: "sys_write bs (fd (df_file f)) (disk d) = sys_write bs y (disk d)"
  obtains a f' d' p' where "vt_call (arduino_file V) (FWrite bs) f d = (a, f', d')"
    "posix_call (FWrite bs) p (disk d) = (a, p', disk d')" "same_file f' p'" "healthy (disk d')"
proof -
  let ?x = "df_file f"
  obtain r x K where r: "sys_write bs (fd ?x) (disk d) = (r, x, K)" using prod_cases3 by blast
  obtain k z d' where v: "v_write V bs ?x d = (k, z, d')" using prod_cases3 by blast
  note law = write_law [OF h f(1) r v] and h' = sys_write_healthy [OF h r]
  from law h' f p show thesis
    by (intro that [of "(k, [])" "f\<lparr>df_file := z\<rparr>" d' "fst (snd (pf_write_bytes bs p (disk d)))"])
      (auto simp: arduino_file_def df_write_def v pf_write_bytes_def eq [symmetric] r same_file_def split: option.splits)
qed

lemma seek_matches:
  assumes f: "v_true V (df_file f)" "\<not> df_closed f" and p: "pf_fd p = Some y"
    and eq: "\<And>w. w = (case m of SeekModeCur \<Rightarrow> SEEK_CUR | SeekModeEnd \<Rightarrow> SEEK_END | SeekModeSet \<Rightarrow> SEEK_SET) \<Longrightarrow>
      sys_lseek (unat pos) w (fd (df_file f)) (disk d) = sys_lseek (unat pos) w y (disk d)"
    and sz: "sys_size (fd (df_file f)) (disk d) = sys_size y (disk d)"
    and inside: "seeks_inside [FSeek pos m] p (disk d)"
  obtains a f' d' p' where "vt_call (arduino_file V) (FSeek pos m) f d = (a, f', d')"
    "posix_call (FSeek pos m) p (disk d) = (a, p', disk d')" "same_file f' p'" "disk d' = disk d"
proof -
  let ?x = "df_file f"
  let ?m = "case m of SeekModeCur \<Rightarrow> SeekCur | SeekModeEnd \<Rightarrow> SeekEnd | SeekModeSet \<Rightarrow> SeekSet"
  let ?w = "case m of SeekModeCur \<Rightarrow> SEEK_CUR | SeekModeEnd \<Rightarrow> SEEK_END | SeekModeSet \<Rightarrow> SEEK_SET"
  have w: "fs_whence ?m = ?w" by (cases m) (simp_all add: fs_whence_def)
  obtain t x where r: "sys_lseek (unat pos) ?w (fd ?x) (disk d) = (t, x)" by fastforce
  have r2: "sys_lseek (unat pos) ?w y (disk d) = (t, x)" using r eq by simp
  obtain ok z d' where v: "v_seek V pos ?m ?x d = (ok, z, d')" using prod_cases3 by blast
  have "t \<le> sys_size (fd ?x) (disk d)" using inside p r2 sz by (simp add: pf_seek_def Let_def pf_size_def)
  from seek_law [OF f(1) r [folded w] this v] f p show thesis
    by (intro that [of "(0, [])" "f\<lparr>df_file := z\<rparr>" d' "snd (pf_seek (unat pos) m p (disk d))"])
      (simp_all add: arduino_file_def df_seek_def Let_def v pf_seek_def r2 same_file_def)
qed

lemma call_matches:
  assumes "same_file f p" "seeks_inside [c] p (disk d)" "healthy (disk d)"
  obtains a f' d' p' where "vt_call (arduino_file V) c f d = (a, f', d')"
    "posix_call c p (disk d) = (a, p', disk d')" "same_file f' p'" "healthy (disk d')"
proof -
  let ?x = "df_file f"
  have s: "v_true V ?x" "\<not> df_closed f" "pf_fd p = Some (fd ?x)" using assms(1) by (simp_all add: same_file_def)
  show thesis
  proof (cases c)
    case (FRead n)
    obtain r x where r: "sys_read (unat n) (fd ?x) (disk d) = (r, x)" by fastforce
    obtain k y d' where v: "v_read V n ?x d = (k, y, d')" using prod_cases3 by blast
    from read_law [OF s(1) r v] s assms(3) show thesis
      by (intro that [of k "f\<lparr>df_file := y\<rparr>" d' "snd (pf_read_bytes (unat n) p (disk d))"])
        (auto simp: FRead arduino_file_def df_read_def v pf_read_bytes_def r same_file_def split: option.splits)
  next
    case (FWrite bs)
    show thesis by (rule write_matches [OF s assms(3) refl, of bs]) (rule that, simp_all add: FWrite)
  next
    case (FSeek pos m)
    from seek_matches [OF s refl refl assms(2) [unfolded FSeek]] show thesis
      using that assms(3) by (metis FSeek)
  next
    case FTell
    with s assms(3) show thesis
      by (intro that [of "(of_nat (pf_tell p), [])" f d p])
        (simp_all add: arduino_file_def df_tell_def position_law pf_tell_def same_file_def)
  next
    case FSize
    with s assms(3) show thesis
      by (intro that [of "(of_nat (pf_size p (disk d)), [])" f d p])
        (simp_all add: arduino_file_def df_size_def size_law pf_size_def same_file_def)
  qed
qed

lemma settling_call_matches:
  assumes "same_but_pos f p" "settled (c # cs)" "seeks_inside [c] p (disk d)" "healthy (disk d)"
  obtains a f' d' p' where "vt_call (arduino_file V) c f d = (a, f', d')"
    "posix_call c p (disk d) = (a, p', disk d')" "same_file f' p' \<or> same_but_pos f' p' \<and> settled cs" "healthy (disk d')"
proof -
  let ?x = "df_file f"
  obtain y where s: "v_true V ?x" "\<not> df_closed f" "pf_fd p = Some y" and y: "o_append y" "o_wr y"
      "fd ?x = y\<lparr>o_pos := o_pos (fd ?x)\<rparr>" using assms(1) by (auto simp: same_but_pos_def)
  have sz: "sys_size (fd ?x) (disk d) = sys_size y (disk d)" by (subst y(3)) (simp add: sys_size_def)
  show thesis
  proof (cases c)
    case (FWrite bs)
    show thesis
    proof (cases "bs = []")
      case True
      have "o_wr (fd ?x)" by (subst y(3)) (simp add: y(2))
      then have none: "sys_write [] (fd ?x) (disk d) = (Some 0, fd ?x, disk d)" by (simp add: sys_write_def)
      obtain k z d' where v: "v_write V [] ?x d = (k, z, d')" using prod_cases3 by blast
      from write_law [OF assms(4) s(1) none v] s y assms(2,4) True show thesis
        by (intro that [of "(0, [])" "f\<lparr>df_file := z\<rparr>" d' "fst (snd (pf_write_bytes [] p (disk d)))"])
          (auto simp: FWrite arduino_file_def df_write_def v pf_write_bytes_def sys_write_def same_but_pos_def)
    next
      case False
      have "sys_write bs (fd ?x) (disk d) = sys_write bs y (disk d)"
        using sys_write_end [OF assms(4) y(1,2) False, of "o_pos (fd ?x)"] y(3) by simp
      then show thesis using write_matches [OF s assms(4)] that by (metis FWrite)
    qed
  next
    case (FSeek pos m)
    have "sys_lseek (unat pos) w (fd ?x) (disk d) = sys_lseek (unat pos) w y (disk d)"
      if "w = (case m of SeekModeCur \<Rightarrow> SEEK_CUR | SeekModeEnd \<Rightarrow> SEEK_END | SeekModeSet \<Rightarrow> SEEK_SET)" for w
      using assms(2) sz that by (subst y(3)) (auto simp: FSeek sys_lseek_def Let_def sys_size_def split: seek_mode.splits)
    from seek_matches [OF s this sz assms(3) [unfolded FSeek]] show thesis
      using that assms(4) by (metis FSeek)
  next
    case FSize
    with s sz assms show thesis
      by (intro that [of "(of_nat (pf_size p (disk d)), [])" f d p])
        (simp_all add: arduino_file_def df_size_def size_law pf_size_def)
  qed (use assms(2) in simp_all)
qed

lemma calls_match:
  assumes "same_file f p \<or> same_but_pos f p \<and> settled cs" "seeks_inside cs p (disk d)" "healthy (disk d)"
  obtains as f' d' p' where "vt_calls (arduino_file V) cs f d = (as, f', d')"
    "posix_calls cs p (disk d) = (as, p', disk d')"
  using assms
proof (induction cs arbitrary: f d p thesis)
  case Nil
  show ?case by (rule Nil.prems(1) [of "[]" f d p]) simp_all
next
  case (Cons c cs)
  have c: "seeks_inside [c] p (disk d)" using Cons.prems(3) by (simp split: prod.splits)
  obtain a f1 d1 p1 where one: "vt_call (arduino_file V) c f d = (a, f1, d1)"
    "posix_call c p (disk d) = (a, p1, disk d1)" "same_file f1 p1 \<or> same_but_pos f1 p1 \<and> settled cs" "healthy (disk d1)"
    using Cons.prems(2) call_matches [OF _ c Cons.prems(4)] settling_call_matches [OF _ _ c Cons.prems(4)] by metis
  have inside: "seeks_inside cs p1 (disk d1)" using Cons.prems(3) one(2) by simp
  obtain as f' d' p' where rest: "vt_calls (arduino_file V) cs f1 d1 = (as, f', d')"
    "posix_calls cs p1 (disk d1) = (as, p', disk d')"
    by (rule Cons.IH [OF _ one(3) inside one(4)])
  show ?case by (rule Cons.prems(1) [of "a # as" f' d' p']) (simp_all add: one rest)
qed

lemma open_matches:
  assumes "healthy (disk d)" "path \<notin> subdirs (disk d)" "lfs_open V path m d = (Some f, d')"
  obtains q where "posix_open path m (disk d) = (Some q, disk d')" "healthy (disk d')"
    "same_file f q \<or> same_but_pos f q \<and> fl_append (posix_flags m)"
proof -
  obtain x where v: "v_open V path (lfs_mode m) d = (x, d')" "v_true V x" "f = df_new x"
    using assms(3) by (auto simp: lfs_open_def split: prod.splits if_splits)
  obtain y where y: "sys_open path (posix_flags m) (disk d) = (Some y, disk d')"
      "fd x = (if fl_append (posix_flags m) then y\<lparr>o_pos := o_pos (fd x)\<rparr> else y)"
    using open_law [OF assms(1,2) v(1,2)] by (auto simp: fopen_flags_mode)
  note h = sys_open_healthy [OF assms(1) y(1)]
  have w: "o_append y \<longleftrightarrow> fl_append (posix_flags m)" "fl_append (posix_flags m) \<Longrightarrow> o_wr y"
    using y(1) assms(1) by (cases m; auto simp: sys_open_def posix_flags_def open_desc_def Let_def split: option.splits; fail)+
  show thesis
    by (rule that [of "pf_new y (disk d')"])
      (use y v w h in \<open>auto simp: posix_open_def same_file_def same_but_pos_def df_new_def pf_new_def\<close>)
qed

end

section \<open>A library over system calls\<close>

text \<open>The smallest library of this kind: its files are descriptors, at the end of the file after opening it with
  \<open>"a"\<close>.\<close>

definition descriptor_lib :: "(ofd option, kernel) arduino_lib" where
  "descriptor_lib = \<lparr>v_true = (\<lambda>f. f \<noteq> None), v_name = (\<lambda>f. []),
     v_size = (\<lambda>f K. of_nat (sys_size (the f) K)), v_close = (\<lambda>f K. (None, K)),
     v_read1 = (\<lambda>f K. case sys_read 1 (the f) K of (Some [c], x) \<Rightarrow> (uint c, Some x, K) | (_, x) \<Rightarrow> (- 1, Some x, K)),
     v_write1 = (\<lambda>c f K. case sys_write [c] (the f) K of (r, x, K) \<Rightarrow> (if r = Some 1 then 1 else 0, Some x, K)),
     v_read = (\<lambda>n f K. case sys_read (unat n) (the f) K of
        (None, x) \<Rightarrow> ((0, []), Some x, K) | (Some bs, x) \<Rightarrow> ((of_nat (length bs), bs), Some x, K)),
     v_write = (\<lambda>bs f K. case sys_write bs (the f) K of
        (None, x, K) \<Rightarrow> (0, Some x, K) | (Some n, x, K) \<Rightarrow> (of_nat n, Some x, K)),
     v_available = (\<lambda>f K. int (sys_size (the f) K) - int (o_pos (the f))),
     v_peek = (\<lambda>f K. case sys_read 1 (the f) K of (Some [c], x) \<Rightarrow> uint c | _ \<Rightarrow> - 1),
     v_position = (\<lambda>f K. of_nat (o_pos (the f))), v_flush = (\<lambda>f K. (f, K)), v_is_directory = (\<lambda>f K. False),
     v_next = (\<lambda>f K. (None, f, K)),
     v_seek = (\<lambda>pos m f K. (True, Some (snd (sys_lseek (unat pos) (fs_whence m) (the f) K)), K)),
     v_begin = (\<lambda>fmt p K. (True, K)), v_format = (\<lambda>K. (True, empty_kernel)),
     v_open = (\<lambda>p m K. case sys_open p (fopen_flags m) K of (None, K) \<Rightarrow> (None, K)
        | (Some x, K) \<Rightarrow> (Some (if m = ''a'' then x\<lparr>o_pos := sys_size x K\<rparr> else x), K)), v_exists = (\<lambda>p K. dir K p \<noteq> None),
     v_remove = sys_unlink, v_rename = sys_rename, v_mkdir = sys_mkdir, v_rmdir = sys_rmdir,
     v_total = (\<lambda>K. 0), v_used = (\<lambda>K. 0)\<rparr>"

interpretation descriptors: arduino_disk descriptor_lib the id
  by unfold_locales (auto simp: descriptor_lib_def fopen_flags_def split: option.splits prod.splits if_splits)



text \<open>The SD adapter looks before it opens a file for reading, which changes nothing here.\<close>

lemma sd_open_matches:
  assumes "arduino_disk V fd disk" "healthy (disk d)" "path \<notin> subdirs (disk d)" "sd_open V path m d = (Some f, d')"
  obtains q where "posix_open path m (disk d) = (Some q, disk d')"
    "arduino_disk.same_file V fd f q \<or> arduino_disk.same_but_pos V fd f q \<and> fl_append (posix_flags m)"
proof -
  have "lfs_open V path m d = (Some f, d')"
    using assms(4) by (auto simp: sd_open_def lfs_open_def split: if_splits)
  then show thesis by (rule arduino_disk.open_matches [OF assms(1-3)]) (rule that)
qed

section \<open>The emulated seek\<close>

definition seek_base :: "('f, 'd, 'x) adafruit_lib_scheme \<Rightarrow> seek_mode \<Rightarrow> 'f dev_file \<Rightarrow> 'd \<Rightarrow> int" where
  "seek_base V mode f d = (case mode of SeekModeSet \<Rightarrow> 0
     | SeekModeCur \<Rightarrow> uint (df_tell V f d) | SeekModeEnd \<Rightarrow> uint (df_size V f d))"

text \<open>C34: the \<open>seek\<close> emulated for the internal flash takes the offset modulo 2^32 and so reaches every position of
  the file from the start, the current position or the end, backwards too, and returns the new position,
  provided that an absolute seek of the library inside this file succeeds and goes where it should.\<close>

theorem emulated_seek_reaches:
  assumes seek: "\<And>t. t \<le> df_size V f d \<Longrightarrow>
      fst (a_seek V t (df_file f) d) \<and>
      v_position V (fst (snd (a_seek V t (df_file f) d))) (snd (snd (a_seek V t (df_file f) d))) = t"
    and small: "uint (df_size V f d) < 2 ^ 31"
    and target: "0 \<le> seek_base V mode f d + k" "seek_base V mode f d + k \<le> uint (df_size V f d)"
  shows "fst (ifs_seek V (word_of_int k) mode f d) = seek_base V mode f d + k \<and>
    uint (df_tell V (fst (snd (ifs_seek V (word_of_int k) mode f d))) (snd (snd (ifs_seek V (word_of_int k) mode f d)))) =
      seek_base V mode f d + k"
proof -
  define t where "t = seek_base V mode f d + k"
  define w where "w = (word_of_int t :: u32)"
  have w: "(case mode of SeekModeCur \<Rightarrow> v_position V (df_file f) d + word_of_int k
      | SeekModeEnd \<Rightarrow> v_size V (df_file f) d + word_of_int k | SeekModeSet \<Rightarrow> word_of_int k) = w"
    by (cases mode) (simp_all add: w_def t_def seek_base_def df_tell_def df_size_def)
  have range: "0 \<le> t" "t < 2 ^ 31" using target small by (simp_all add: t_def)
  then have u: "uint w = t" by (simp add: w_def uint_word_of_int_eq take_bit_int_eq_self)
  have s: "sint w = t" using range by (simp add: w_def sint_sbintrunc' signed_take_bit_int_eq_self)
  have "w \<le> df_size V f d" using target(2) u by (simp add: word_le_def t_def)
  from seek [OF this] obtain x d' where a: "a_seek V w (df_file f) d = (True, x, d')" "v_position V x d' = w"
    by (cases "a_seek V w (df_file f) d") auto
  show ?thesis using a(2) by (simp add: ifs_seek_def w a(1) s u df_tell_def t_def [symmetric])
qed

text \<open>A library over system calls with the interface of Adafruit.\<close>

definition descriptor_flash :: "(ofd option, kernel) adafruit_lib" where
  "descriptor_flash = \<lparr>v_true = v_true descriptor_lib, v_name = v_name descriptor_lib,
     v_size = v_size descriptor_lib, v_close = v_close descriptor_lib,
     v_read1 = v_read1 descriptor_lib, v_write1 = v_write1 descriptor_lib, v_read = v_read descriptor_lib,
     v_write = v_write descriptor_lib, v_available = v_available descriptor_lib, v_peek = v_peek descriptor_lib,
     v_position = v_position descriptor_lib, v_flush = v_flush descriptor_lib,
     v_is_directory = v_is_directory descriptor_lib, v_next = v_next descriptor_lib, FILE_O_READ = 0, FILE_O_WRITE = 1,
     a_seek = (\<lambda>t f K. case f of None \<Rightarrow> (False, None, K)
        | Some x \<Rightarrow> if unat t \<le> sys_size x K then (True, Some (x\<lparr>o_pos := unat t\<rparr>), K) else (False, Some x, K)),
     a_begin = (\<lambda>K. (True, K)), a_format = (\<lambda>K. (True, empty_kernel)), a_new = (\<lambda>K. None),
     a_open = (\<lambda>p m f K. case sys_open p (posix_flags (if m = 0 then ModeRead else ModeReadAppend)) K of
        (r, K) \<Rightarrow> (r \<noteq> None, r, K)),
     a_exists = (\<lambda>p K. dir K p \<noteq> None), a_remove = sys_unlink, a_rename = sys_rename, a_mkdir = sys_mkdir,
     a_rmdir_r = sys_rmdir, a_open_dir = (\<lambda>p K. (None, K))\<rparr>"

theorem emulated_seek_reaches_witness:
  "fst (ifs_seek descriptor_flash (- 2) SeekModeEnd
     (df_new (Some (open_desc 0 (posix_flags ModeRead)))) (one_file ''f'' [1, 2, 3, 4, 5])) = 3"
proof -
  let ?f = "df_new (Some (open_desc 0 (posix_flags ModeRead)))" and ?K = "one_file ''f'' [1, 2, 3, 4, 5]"
  have size: "df_size descriptor_flash ?f ?K = 5" "seek_base descriptor_flash SeekModeEnd ?f ?K = 5"
    by (simp_all add: df_size_def descriptor_flash_def descriptor_lib_def df_new_def sys_size_def seek_base_def)
  have "fst (ifs_seek descriptor_flash (word_of_int (- 2)) SeekModeEnd ?f ?K) = seek_base descriptor_flash SeekModeEnd ?f ?K + (- 2)"
    by (rule conjunct1 [OF emulated_seek_reaches])
      (use size in \<open>auto simp: descriptor_flash_def descriptor_lib_def df_new_def sys_size_def word_le_nat_alt\<close>)
  then show ?thesis by (simp add: size)
qed

end
